(* ===== verification/Prelude.thy ===== *)
theory Prelude
  imports Main "HOL-Library.Word" "HOL-Library.Sublist"
begin

text \<open>
  What every component of the gateway's model shares: results, the parts of Rust's standard
  library on strings, slices and fixed width integers that the code uses, and the generic
  lemmas about them. Text is a \<^typ>\<open>string\<close>, the list of its UTF-8 bytes, so that
  \<open>str::len\<close> is \<^const>\<open>length\<close>; binary data is a list of \<open>8 word\<close>.
\<close>

named_theorems rust_std \<open>characterisations of the standard library operations\<close>
named_theorems text_facts \<open>which characters rendered text can hold\<close>

type_synonym byte = "8 word"
type_synonym bytes = "byte list"
type_synonym u8 = "8 word"
type_synonym u16 = "16 word"
type_synonym u32 = "32 word"
type_synonym u64 = "64 word"
type_synonym ('e, 'a) result = "'e + 'a"

section \<open>Results\<close>

text \<open>\<open>Result<A, E>\<close> is the sum \<open>'e + 'a\<close>; \<open>rbind\<close> is the \<open>?\<close> operator.\<close>

abbreviation Ok :: "'a \<Rightarrow> 'e + 'a" where "Ok \<equiv> Inr"
abbreviation Err :: "'e \<Rightarrow> 'e + 'a" where "Err \<equiv> Inl"

fun rbind :: "'e + 'a \<Rightarrow> ('a \<Rightarrow> 'e + 'b) \<Rightarrow> 'e + 'b" where
  "rbind (Inl e) f = Inl e"
| "rbind (Inr a) f = f a"

fun map_err :: "('e \<Rightarrow> 'f) \<Rightarrow> 'e + 'a \<Rightarrow> 'f + 'a" where
  "map_err f (Inl e) = Inl (f e)"
| "map_err f (Inr a) = Inr a"

fun ok :: "'e + 'a \<Rightarrow> 'a option" where
  "ok (Inl e) = None"
| "ok (Inr a) = Some a"

fun ok_or :: "'a option \<Rightarrow> 'e \<Rightarrow> 'e + 'a" where
  "ok_or None e = Inl e"
| "ok_or (Some a) e = Inr a"

fun is_ok :: "'e + 'a \<Rightarrow> bool" where
  "is_ok (Inl e) = False"
| "is_ok (Inr a) = True"

fun collect_results :: "('e + 'a) list \<Rightarrow> 'e + 'a list" where
  "collect_results [] = Ok []"
| "collect_results (r # rs) = rbind r (\<lambda>x. rbind (collect_results rs) (\<lambda>xs. Ok (x # xs)))"

lemma rbind_Ok_iff [rust_std]: "rbind r f = Inr b \<longleftrightarrow> (\<exists>a. r = Inr a \<and> f a = Inr b)"
  by (cases r) auto

lemma rbind_Err_iff [rust_std]:
  "rbind r f = Inl e \<longleftrightarrow> r = Inl e \<or> (\<exists>a. r = Inr a \<and> f a = Inl e)"
  by (cases r) auto

lemma map_err_Ok_iff [rust_std]: "map_err f r = Inr a \<longleftrightarrow> r = Inr a"
  by (cases r) auto

lemma ok_Some_iff [rust_std]: "ok r = Some a \<longleftrightarrow> r = Inr a"
  by (cases r) auto

lemma ok_or_Ok_iff [rust_std]: "ok_or x e = Inr a \<longleftrightarrow> x = Some a"
  by (cases x) auto

lemma is_ok_iff [rust_std]: "is_ok r \<longleftrightarrow> (\<exists>a. r = Inr a)"
  by (cases r) auto

lemma collect_results_Ok_iff:
  "collect_results rs = Inr xs \<longleftrightarrow> rs = map Inr xs"
proof (induction rs arbitrary: xs)
  case Nil
  then show ?case by auto
next
  case (Cons r rs)
  then show ?case by (cases r; cases xs) (auto simp: rbind_Ok_iff)
qed

section \<open>Slices and strings\<close>

fun strip_prefix :: "'a list \<Rightarrow> 'a list \<Rightarrow> 'a list option" where
  "strip_prefix s [] = Some s"
| "strip_prefix [] (p # ps) = None"
| "strip_prefix (x # xs) (p # ps) = (if x = p then strip_prefix xs ps else None)"

definition strip_suffix :: "'a list \<Rightarrow> 'a list \<Rightarrow> 'a list option" where
  "strip_suffix s p = map_option rev (strip_prefix (rev s) (rev p))"

definition starts_with :: "'a list \<Rightarrow> 'a \<Rightarrow> bool" where
  "starts_with s c = (case s of [] \<Rightarrow> False | x # _ \<Rightarrow> x = c)"

definition ends_with :: "'a list \<Rightarrow> 'a \<Rightarrow> bool" where
  "ends_with s c = starts_with (rev s) c"

definition unwrap_or :: "'a option \<Rightarrow> 'a \<Rightarrow> 'a" where
  "unwrap_or x d = (case x of None \<Rightarrow> d | Some a \<Rightarrow> a)"

definition split_at_checked :: "'a list \<Rightarrow> nat \<Rightarrow> ('a list \<times> 'a list) option" where
  "split_at_checked s n = (if n \<le> length s then Some (take n s, drop n s) else None)"

fun split_by :: "('a \<Rightarrow> bool) \<Rightarrow> 'a list \<Rightarrow> 'a list list" where
  "split_by P [] = [[]]"
| "split_by P (x # xs) =
     (if P x then [] # split_by P xs
      else (case split_by P xs of [] \<Rightarrow> [[x]] | y # ys \<Rightarrow> (x # y) # ys))"

fun split_once :: "'a list \<Rightarrow> 'a \<Rightarrow> ('a list \<times> 'a list) option" where
  "split_once [] c = None"
| "split_once (x # xs) c =
     (if x = c then Some ([], xs)
      else map_option (\<lambda>(a, b). (x # a, b)) (split_once xs c))"

definition rsplit_once :: "'a list \<Rightarrow> 'a \<Rightarrow> ('a list \<times> 'a list) option" where
  "rsplit_once s c = map_option (\<lambda>(a, b). (rev b, rev a)) (split_once (rev s) c)"

lemma strip_prefix_Some_iff [rust_std]: "strip_prefix s p = Some r \<longleftrightarrow> s = p @ r"
  by (induction s p rule: strip_prefix.induct) auto

lemma strip_prefix_append [simp]: "strip_prefix (p @ r) p = Some r"
  by (simp add: strip_prefix_Some_iff)

lemma strip_suffix_Some_iff [rust_std]: "strip_suffix s p = Some r \<longleftrightarrow> s = r @ p"
proof -
  have "(\<exists>z. rev s = rev p @ z \<and> rev z = r) \<longleftrightarrow> s = r @ p"
    by (metis rev_append rev_rev_ident)
  then show ?thesis by (auto simp: strip_suffix_def strip_prefix_Some_iff)
qed

lemma strip_suffix_append [simp]: "strip_suffix (r @ p) p = Some r"
  by (simp add: strip_suffix_Some_iff)

lemma strip_suffix_None_iff [rust_std]: "strip_suffix s p = None \<longleftrightarrow> (\<forall>r. s \<noteq> r @ p)"
  by (metis not_Some_eq strip_suffix_Some_iff)

lemma starts_with_iff [rust_std]: "starts_with s c \<longleftrightarrow> (\<exists>r. s = c # r)"
  by (auto simp: starts_with_def split: list.splits)

lemma ends_with_iff [rust_std]: "ends_with s c \<longleftrightarrow> (\<exists>r. s = r @ [c])"
  by (auto simp: ends_with_def starts_with_iff) (metis rev_eq_Cons_iff rev_rev_ident)

lemma unwrap_or_simps [simp]: "unwrap_or None d = d" "unwrap_or (Some a) d = a"
  by (simp_all add: unwrap_or_def)

lemma split_at_checked_Some_iff [rust_std]:
  "split_at_checked s n = Some (a, b) \<longleftrightarrow> s = a @ b \<and> length a = n"
  by (auto simp: split_at_checked_def)

lemma split_by_ne [simp]: "split_by P xs \<noteq> []"
  by (induction xs) (auto split: list.splits)

lemma split_by_parts: "y \<in> set (split_by P xs) \<Longrightarrow> x \<in> set y \<Longrightarrow> \<not> P x \<and> x \<in> set xs"
proof (induction xs arbitrary: y)
  case Nil
  then show ?case by simp
next
  case (Cons a xs)
  obtain z zs where z: "split_by P xs = z # zs"
    by (meson split_by_ne neq_Nil_conv)
  show ?case
  proof (cases "P a")
    case True
    with Cons show ?thesis by auto
  next
    case False
    with Cons.prems z have "y = a # z \<or> y \<in> set zs" by auto
    then show ?thesis
      using Cons.prems(2) Cons.IH [of z] Cons.IH [of y] False z by auto
  qed
qed

lemma split_by_no_sep: "\<forall>x\<in>set xs. \<not> P x \<Longrightarrow> split_by P xs = [xs]"
  by (induction xs) auto

lemma split_once_Some_iff [rust_std]:
  "split_once s c = Some (a, b) \<longleftrightarrow> s = a @ c # b \<and> c \<notin> set a"
proof (induction s arbitrary: a)
  case Nil
  then show ?case by simp
next
  case (Cons x s)
  show ?case
  proof (cases "x = c")
    case True
    then show ?thesis by (cases a) auto
  next
    case False
    then show ?thesis using Cons by (cases a) auto
  qed
qed

lemma split_once_None_iff [rust_std]: "split_once s c = None \<longleftrightarrow> c \<notin> set s"
  by (induction s) auto

lemma rsplit_once_Some_iff [rust_std]:
  "rsplit_once s c = Some (a, b) \<longleftrightarrow> s = a @ c # b \<and> c \<notin> set b"
proof -
  have "rsplit_once s c = Some (a, b) \<longleftrightarrow> split_once (rev s) c = Some (rev b, rev a)"
    by (force simp: rsplit_once_def)
  also have "\<dots> \<longleftrightarrow> rev s = rev b @ c # rev a \<and> c \<notin> set b"
    by (simp add: split_once_Some_iff)
  also have "rev s = rev b @ c # rev a \<longleftrightarrow> s = a @ c # b"
    by (metis append.assoc append_Cons append_Nil rev.simps(2) rev_append rev_rev_ident)
  finally show ?thesis .
qed

lemma rsplit_once_None_iff [rust_std]: "rsplit_once s c = None \<longleftrightarrow> c \<notin> set s"
  by (auto simp: rsplit_once_def split_once_None_iff)

text \<open>Text split at a separator its left part does not hold is read in one way only.\<close>

lemma split_unique:
  assumes "a @ c # b = a' @ c # b'" "c \<notin> set a" "c \<notin> set a'"
  shows "a = a' \<and> b = b'"
proof -
  have "split_once (a @ c # b) c = Some (a, b)"
    using assms(2) by (simp add: split_once_Some_iff)
  moreover have "split_once (a @ c # b) c = Some (a', b')"
    using assms(1,3) by (simp add: split_once_Some_iff)
  ultimately show ?thesis by simp
qed

lemma rsplit_unique:
  assumes "a @ c # b = a' @ c # b'" "c \<notin> set b" "c \<notin> set b'"
  shows "a = a' \<and> b = b'"
proof -
  have "rsplit_once (a @ c # b) c = Some (a, b)"
    using assms(2) by (simp add: rsplit_once_Some_iff)
  moreover have "rsplit_once (a @ c # b) c = Some (a', b')"
    using assms(1,3) by (simp add: rsplit_once_Some_iff)
  ultimately show ?thesis by simp
qed

section \<open>The first match in a list\<close>

lemma find_member: "List.find P xs = Some x \<Longrightarrow> x \<in> set xs \<and> P x"
  by (induction xs) (auto split: if_splits)

lemma find_sorted:
  "sorted (map f xs) \<Longrightarrow> List.find P xs = Some x \<Longrightarrow> y \<in> set xs \<Longrightarrow> P y \<Longrightarrow> f x \<le> f y"
  by (induction xs) (auto split: if_splits)

section \<open>Characters\<close>

text \<open>
  A Rust \<open>char\<close> is a Unicode scalar value. It is represented by its UTF-8 bytes, so
  \<open>chars\<close> cuts a string at its lead bytes. ASCII characters are single bytes.
\<close>

definition code :: "char \<Rightarrow> nat" where
  "code c = of_char c"

definition utf8_width :: "char \<Rightarrow> nat" where
  "utf8_width c =
     (if code c < 192 then 1 else if code c < 224 then 2 else if code c < 240 then 3 else 4)"

function chars :: "string \<Rightarrow> string list" where
  "chars [] = []"
| "chars (c # cs) = take (utf8_width c) (c # cs) # chars (drop (utf8_width c) (c # cs))"
  by pat_completeness auto
termination
  by (relation "measure length") (auto simp: utf8_width_def)

definition scalar_value :: "string \<Rightarrow> nat" where
  "scalar_value ch =
     (case map code ch of
        [a] \<Rightarrow> a
      | [a, b] \<Rightarrow> (a mod 32) * 64 + b mod 64
      | [a, b, c] \<Rightarrow> (a mod 16) * 4096 + (b mod 64) * 64 + c mod 64
      | [a, b, c, d] \<Rightarrow> (a mod 8) * 262144 + (b mod 64) * 4096 + (c mod 64) * 64 + d mod 64
      | _ \<Rightarrow> 0)"

definition is_whitespace :: "string \<Rightarrow> bool" where
  "is_whitespace ch =
     (let v = scalar_value ch in
      (9 \<le> v \<and> v \<le> 13) \<or> v = 32 \<or> v = 133 \<or> v = 160 \<or> v = 5760 \<or> (8192 \<le> v \<and> v \<le> 8202)
      \<or> v = 8232 \<or> v = 8233 \<or> v = 8239 \<or> v = 8287 \<or> v = 12288)"

definition is_control :: "string \<Rightarrow> bool" where
  "is_control ch = (let v = scalar_value ch in v < 32 \<or> (127 \<le> v \<and> v < 160))"

definition ascii_digit :: "char \<Rightarrow> bool" where
  "ascii_digit c = (48 \<le> code c \<and> code c \<le> 57)"

definition ascii_upper :: "char \<Rightarrow> bool" where
  "ascii_upper c = (65 \<le> code c \<and> code c \<le> 90)"

definition ascii_lower :: "char \<Rightarrow> bool" where
  "ascii_lower c = (97 \<le> code c \<and> code c \<le> 122)"

definition ascii_alphanumeric :: "char \<Rightarrow> bool" where
  "ascii_alphanumeric c = (ascii_digit c \<or> ascii_upper c \<or> ascii_lower c)"

definition ascii_graphic :: "char \<Rightarrow> bool" where
  "ascii_graphic c = (33 \<le> code c \<and> code c \<le> 126)"

text \<open>An ASCII test of a \<open>char\<close>: false for every scalar that is not a single byte.\<close>

definition on_ascii :: "(char \<Rightarrow> bool) \<Rightarrow> string \<Rightarrow> bool" where
  "on_ascii P ch = (case ch of [c] \<Rightarrow> code c < 128 \<and> P c | _ \<Rightarrow> False)"

definition to_ascii_lowercase :: "string \<Rightarrow> string" where
  "to_ascii_lowercase s =
     map (\<lambda>c. if ascii_upper c then char_of (code c + 32) else c) s"

text \<open>\<open>s.chars().find(|ch| !p(ch))\<close> for a test \<open>p\<close> that only ASCII characters pass.\<close>

definition first_bad :: "(char \<Rightarrow> bool) \<Rightarrow> string \<Rightarrow> string option" where
  "first_bad P s = List.find (\<lambda>ch. \<not> on_ascii P ch) (chars s)"

lemma chars_ascii: "\<forall>c\<in>set s. code c < 128 \<Longrightarrow> chars s = map (\<lambda>c. [c]) s"
  by (induction s rule: chars.induct) (auto simp: utf8_width_def)

lemma chars_ne: "ch \<in> set (chars s) \<Longrightarrow> ch \<noteq> []"
  by (induction s rule: chars.induct) (auto simp: utf8_width_def split: if_splits)

lemma concat_chars [simp]: "concat (chars s) = s"
  by (induction s rule: chars.induct) auto

text \<open>The test passes on every \<open>char\<close> exactly when it passes on every byte.\<close>

lemma first_bad_None_iff [rust_std]:
  "first_bad P s = None \<longleftrightarrow> (\<forall>c\<in>set s. code c < 128 \<and> P c)"
proof
  assume "first_bad P s = None"
  then have ok: "on_ascii P ch" if "ch \<in> set (chars s)" for ch
    using that by (auto simp: first_bad_def find_None_iff)
  show "\<forall>c\<in>set s. code c < 128 \<and> P c"
  proof
    fix c assume "c \<in> set s"
    then obtain ch where ch: "ch \<in> set (chars s)" "c \<in> set ch"
      using set_concat [of "chars s"] by auto
    then have "ch = [c]" and "code c < 128 \<and> P c"
      using ok [OF ch(1)] by (auto simp: on_ascii_def split: list.splits)
    then show "code c < 128 \<and> P c" by simp
  qed
next
  assume "\<forall>c\<in>set s. code c < 128 \<and> P c"
  then show "first_bad P s = None"
    by (auto simp: first_bad_def find_None_iff on_ascii_def chars_ascii)
qed

lemma ascii_graphic_lt [simp]: "ascii_graphic c \<Longrightarrow> code c < 128"
  by (simp add: ascii_graphic_def)

lemma ascii_alphanumeric_lt [simp]: "ascii_alphanumeric c \<Longrightarrow> code c < 128"
  by (auto simp: ascii_alphanumeric_def ascii_digit_def ascii_upper_def ascii_lower_def)

text \<open>No ASCII graphic character is whitespace or a control character.\<close>

lemma graphic_is_usable: "ascii_graphic c \<Longrightarrow> \<not> is_whitespace [c] \<and> \<not> is_control [c]"
  by (auto simp: ascii_graphic_def is_whitespace_def is_control_def scalar_value_def Let_def)

lemma length_to_ascii_lowercase [simp]: "length (to_ascii_lowercase s) = length s"
  by (simp add: to_ascii_lowercase_def)

section \<open>Decimal text\<close>

definition digit :: "nat \<Rightarrow> char" where
  "digit d = char_of (48 + d)"

fun show_nat :: "nat \<Rightarrow> string" where
  "show_nat n = (if n < 10 then [digit n] else show_nat (n div 10) @ [digit (n mod 10)])"

declare show_nat.simps [simp del]

definition show_int :: "int \<Rightarrow> string" where
  "show_int i = (if i < 0 then CHR ''-'' # show_nat (nat (- i)) else show_nat (nat i))"

definition digit_value :: "char \<Rightarrow> nat" where
  "digit_value c = code c - 48"

definition read_nat :: "string \<Rightarrow> nat" where
  "read_nat s = foldl (\<lambda>n c. n * 10 + digit_value c) 0 s"

text \<open>
  \<open>str::parse\<close> for an unsigned integer of \<open>w\<close> bits: an optional plus sign, then decimal
  digits only, refusing what does not fit.
\<close>

definition parse_unsigned :: "nat \<Rightarrow> string \<Rightarrow> nat option" where
  "parse_unsigned w s =
     (let ds = (case s of [] \<Rightarrow> [] | c # cs \<Rightarrow> if c = CHR ''+'' then cs else s) in
      if ds \<noteq> [] \<and> list_all ascii_digit ds \<and> read_nat ds < 2 ^ w then Some (read_nat ds) else None)"

lemma code_digit [simp]: "d < 10 \<Longrightarrow> code (digit d) = 48 + d"
  by (simp add: code_def digit_def)

lemma digit_value_digit [simp]: "d < 10 \<Longrightarrow> digit_value (digit d) = d"
  by (simp add: digit_value_def)

lemma digit_literals [simp]:
  "digit 0 = CHR ''0''" "digit 1 = CHR ''1''" "digit (Suc 0) = CHR ''1''" "digit 2 = CHR ''2''"
  "digit 3 = CHR ''3''" "digit 4 = CHR ''4''" "digit 5 = CHR ''5''" "digit 6 = CHR ''6''"
  "digit 7 = CHR ''7''" "digit 8 = CHR ''8''" "digit 9 = CHR ''9''"
  by (simp_all add: digit_def char_of_eq_iff)

lemma show_nat_ne [simp]: "show_nat n \<noteq> []"
  by (subst show_nat.simps) simp

lemma show_nat_digits [text_facts]: "c \<in> set (show_nat n) \<Longrightarrow> ascii_digit c"
proof (induction n rule: show_nat.induct)
  case (1 n)
  show ?case
  proof (cases "n < 10")
    case True
    with 1 show ?thesis by (auto simp: show_nat.simps [of n] ascii_digit_def)
  next
    case False
    with 1 show ?thesis by (auto simp: show_nat.simps [of n] ascii_digit_def)
  qed
qed

lemma read_show_nat [simp]: "read_nat (show_nat n) = n"
proof (induction n rule: show_nat.induct)
  case (1 n)
  then show ?case
    by (cases "n < 10") (auto simp: show_nat.simps [of n] read_nat_def)
qed

lemma show_nat_inj: "show_nat m = show_nat n \<longleftrightarrow> m = n"
  by (metis read_show_nat)

lemma digit_neq: "ascii_digit c \<Longrightarrow> c \<noteq> CHR ''-'' \<and> c \<noteq> CHR '':'' \<and> c \<noteq> CHR ''/'' \<and> c \<noteq> CHR ''+''"
  by (auto simp: ascii_digit_def code_def)

lemma show_int_inj: "show_int i = show_int j \<longleftrightarrow> i = j"
proof
  assume eq: "show_int i = show_int j"
  have nd: "show_nat n \<noteq> CHR ''-'' # r" for n r
    using show_nat_digits [of "CHR ''-''" n] digit_neq [of "CHR ''-''"] by auto
  have nd': "CHR ''-'' # r \<noteq> show_nat n" for n r
    using nd by metis
  show "i = j"
    using eq by (auto simp: show_int_def show_nat_inj nd nd' split: if_splits)
qed simp

lemma show_int_chars [text_facts]: "c \<in> set (show_int i) \<Longrightarrow> ascii_digit c \<or> c = CHR ''-''"
  by (auto simp: show_int_def text_facts split: if_splits)

lemma parse_show_nat: "n < 2 ^ w \<Longrightarrow> parse_unsigned w (show_nat n) = Some n"
proof -
  assume n: "n < 2 ^ w"
  obtain c cs where s: "show_nat n = c # cs"
    by (meson show_nat_ne neq_Nil_conv)
  then have "c \<noteq> CHR ''+''"
    using show_nat_digits [of c n] digit_neq by auto
  then show ?thesis
    using n s show_nat_digits [of _ n]
    by (auto simp: parse_unsigned_def Let_def list_all_iff) (metis list.set_intros read_show_nat)+
qed

section \<open>Fixed width integers\<close>

definition sat_add :: "'l::len word \<Rightarrow> 'l word \<Rightarrow> 'l word" where
  "sat_add a b = (if unat a + unat b < 2 ^ LENGTH('l) then a + b else - 1)"

definition sat_sub :: "'l::len word \<Rightarrow> 'l word \<Rightarrow> 'l word" where
  "sat_sub a b = (if b \<le> a then a - b else 0)"

fun nat_to_be :: "nat \<Rightarrow> nat \<Rightarrow> bytes" where
  "nat_to_be 0 n = []"
| "nat_to_be (Suc k) n = nat_to_be k (n div 256) @ [of_nat (n mod 256)]"

definition nat_of_be :: "bytes \<Rightarrow> nat" where
  "nat_of_be bs = foldl (\<lambda>n b. n * 256 + unat b) 0 bs"

definition to_be_bytes :: "'l::len word \<Rightarrow> bytes" where
  "to_be_bytes w = nat_to_be (LENGTH('l) div 8) (unat w)"

definition from_be_bytes :: "bytes \<Rightarrow> 'l::len word" where
  "from_be_bytes bs = of_nat (nat_of_be bs)"

definition as_bytes :: "string \<Rightarrow> bytes" where
  "as_bytes s = map (\<lambda>c. of_nat (code c)) s"

lemma unat_sat_add:
  "unat (sat_add a b :: 'l::len word) = min (unat a + unat b) (2 ^ LENGTH('l) - 1)"
proof (cases "unat a + unat b < 2 ^ LENGTH('l)")
  case True
  then show ?thesis by (simp add: sat_add_def unat_word_ariths)
next
  case False
  then show ?thesis by (simp add: sat_add_def unsigned_minus_1_eq_mask mask_eq_exp_minus_1)
qed

lemma unat_sat_sub: "unat (sat_sub a b) = unat a - unat b"
  by (auto simp: sat_sub_def unat_sub word_le_nat_alt)

lemma unat_less: "unat (w :: 'l::len word) < 2 ^ LENGTH('l)"
  by (rule unsigned_less)

lemma unat_of_nat_lt: "n < 2 ^ LENGTH('l) \<Longrightarrow> unat (of_nat n :: 'l::len word) = n"
  by (simp add: unsigned_of_nat take_bit_nat_eq_self)

lemma byte_lt: "unat (b :: byte) < 256"
  using unat_less [of b] by simp

lemma length_nat_to_be [simp]: "length (nat_to_be k n) = k"
  by (induction k arbitrary: n) auto

lemma nat_of_be_append [simp]: "nat_of_be (bs @ [b]) = nat_of_be bs * 256 + unat b"
  by (simp add: nat_of_be_def)

lemma nat_of_be_Cons: "nat_of_be (b # bs) = unat b * 256 ^ length bs + nat_of_be bs"
proof (induction bs rule: rev_induct)
  case Nil
  then show ?case by (simp add: nat_of_be_def)
next
  case (snoc c bs)
  then show ?case
    using nat_of_be_append [of "b # bs" c] by simp
qed

lemma nat_of_to_be: "nat_of_be (nat_to_be k n) = n mod 256 ^ k"
proof (induction k arbitrary: n)
  case 0
  then show ?case by (simp add: nat_of_be_def)
next
  case (Suc k)
  have "unat (of_nat (n mod 256) :: byte) = n mod 256"
    by (simp add: unat_of_nat)
  then show ?case
    using Suc by (simp add: mod_mult2_eq [of n 256 "256 ^ k"])
qed

lemma nat_of_be_bound: "nat_of_be bs < 256 ^ length bs"
proof (induction bs rule: rev_induct)
  case Nil
  then show ?case by (simp add: nat_of_be_def)
next
  case (snoc b bs)
  have "unat b < 256" using byte_lt [of b] by simp
  with snoc show ?case by simp
qed

lemma nat_to_of_be: "nat_to_be (length bs) (nat_of_be bs) = bs"
proof (induction bs rule: rev_induct)
  case Nil
  then show ?case by simp
next
  case (snoc b bs)
  have b: "unat b < 256" using byte_lt [of b] by simp
  with snoc show ?case by (simp add: nat_of_be_append)
qed

lemma length_to_be_bytes [simp]: "length (to_be_bytes (w :: 'l::len word)) = LENGTH('l) div 8"
  by (simp add: to_be_bytes_def)

lemma from_to_be_bytes_64 [simp]: "from_be_bytes (to_be_bytes (w :: u64)) = w"
  using unat_less [of w] by (simp add: from_be_bytes_def to_be_bytes_def nat_of_to_be)

lemma from_to_be_bytes_16 [simp]: "from_be_bytes (to_be_bytes (w :: u16)) = w"
  using unat_less [of w] by (simp add: from_be_bytes_def to_be_bytes_def nat_of_to_be)

lemma to_from_be_bytes_64: "length bs = 8 \<Longrightarrow> to_be_bytes (from_be_bytes bs :: u64) = bs"
  using nat_of_be_bound [of bs] nat_to_of_be [of bs]
  by (simp add: to_be_bytes_def from_be_bytes_def unat_of_nat)

lemma as_bytes_inj: "as_bytes s = as_bytes t \<longleftrightarrow> s = t"
proof -
  have "inj (\<lambda>c. of_nat (code c) :: byte)"
  proof (rule injI)
    fix c d :: char
    assume "(of_nat (code c) :: byte) = of_nat (code d)"
    then have "unat (of_nat (code c) :: byte) = unat (of_nat (code d) :: byte)"
      by (rule arg_cong)
    then have "code c = code d"
      by (simp add: unat_of_nat code_def)
    then show "c = d" by (simp add: code_def)
  qed
  then show ?thesis by (simp add: as_bytes_def inj_map_eq_map)
qed

lemma length_as_bytes [simp]: "length (as_bytes s) = length s"
  by (simp add: as_bytes_def)

end
