(* ===== verification/Core_Id.thy ===== *)
theory Core_Id
  imports Prelude
begin

text \<open>
  The values every other crate names things by: \<open>crates/ip-core/src/error.rs\<close>, \<open>id.rs\<close>,
  \<open>model.rs\<close>, \<open>passphrase.rs\<close>, \<open>key.rs\<close> and \<open>trace.rs\<close>. A newtype around \<open>Box<str>\<close> is a
  datatype with one constructor; its checked constructor returns a result, and a predicate
  says which values it can return. Sha256 and the hex codec are packages outside the
  repository: they are the arguments \<open>sha256\<close> and \<open>hex_encode\<close>/\<open>hex_decode\<close>.
\<close>

section \<open>Errors\<close>

datatype capability = TenantMgr | UserMgr | ApiAccess | ApiAdvMgr | LimitMgr | SysAgent | Observer

datatype scope_kind = UserScope | TenantScope | ApiScope

datatype core_error =
    Empty (kind: string)
  | TooLong (kind: string) nat nat
  | TooShort (kind: string) nat nat
  | IllegalChar (kind: string) string
  | HexLength (kind: string) nat
  | HexDigit (kind: string)
  | MustStartWith (kind: string) char
  | UnknownProtocol string
  | UnknownPluginKind string
  | UnknownCounted string
  | UnknownStrategy string
  | UnknownPeriod string
  | OrderOutOfScope u8 string
  | NoEndpoint
  | ZeroPort
  | PortOutOfRange int
  | TimestampOutOfRange int
  | ScopeMismatch capability scope_kind scope_kind

section \<open>Identifiers\<close>

definition ID_MAX_BYTES :: nat where
  "ID_MAX_BYTES = 64"

definition NONCE_MIN_BYTES :: nat where
  "NONCE_MIN_BYTES = 8"

definition NONCE_MAX_BYTES :: nat where
  "NONCE_MAX_BYTES = 128"

definition id_char :: "char \<Rightarrow> bool" where
  "id_char c = (ascii_alphanumeric c \<or> c = CHR ''-'' \<or> c = CHR ''_'' \<or> c = CHR ''.'')"

definition validate_id :: "string \<Rightarrow> string \<Rightarrow> (core_error, unit) result" where
  "validate_id k raw =
     (if raw = [] then Err (Empty k)
      else if ID_MAX_BYTES < length raw then Err (TooLong k (length raw) ID_MAX_BYTES)
      else case first_bad id_char raw of
             Some ch \<Rightarrow> Err (IllegalChar k ch)
           | None \<Rightarrow> Ok ())"

datatype tenant_id = TenantId (tenant_str: string)
datatype user_id = UserId (user_str: string)
datatype api_id = ApiId (api_str: string)
datatype turn_id = TurnId (turn_str: string)

definition tenant_id_new :: "string \<Rightarrow> (core_error, tenant_id) result" where
  "tenant_id_new raw = rbind (validate_id ''tenant id'' raw) (\<lambda>_. Ok (TenantId raw))"

definition user_id_new :: "string \<Rightarrow> (core_error, user_id) result" where
  "user_id_new raw = rbind (validate_id ''user id'' raw) (\<lambda>_. Ok (UserId raw))"

definition api_id_new :: "string \<Rightarrow> (core_error, api_id) result" where
  "api_id_new raw = rbind (validate_id ''api id'' raw) (\<lambda>_. Ok (ApiId raw))"

definition turn_id_new :: "string \<Rightarrow> (core_error, turn_id) result" where
  "turn_id_new raw = rbind (validate_id ''turn id'' raw) (\<lambda>_. Ok (TurnId raw))"

datatype nonce = Nonce (nonce_str: string)

definition validate_nonce :: "string \<Rightarrow> (core_error, unit) result" where
  "validate_nonce raw =
     (if length raw < NONCE_MIN_BYTES then Err (TooShort ''nonce'' (length raw) NONCE_MIN_BYTES)
      else if NONCE_MAX_BYTES < length raw then Err (TooLong ''nonce'' (length raw) NONCE_MAX_BYTES)
      else case first_bad ascii_graphic raw of
             Some ch \<Rightarrow> Err (IllegalChar ''nonce'' ch)
           | None \<Rightarrow> Ok ())"

definition nonce_new :: "string \<Rightarrow> (core_error, nonce) result" where
  "nonce_new raw = rbind (validate_nonce raw) (\<lambda>_. Ok (Nonce raw))"

section \<open>Model names and passphrase verifiers\<close>

definition MODEL_NAME_MAX_BYTES :: nat where
  "MODEL_NAME_MAX_BYTES = 128"

datatype model_name = ModelName (model_str: string)

definition validate_model_name :: "string \<Rightarrow> (core_error, unit) result" where
  "validate_model_name raw =
     (if raw = [] then Err (Empty ''model name'')
      else if MODEL_NAME_MAX_BYTES < length raw
        then Err (TooLong ''model name'' (length raw) MODEL_NAME_MAX_BYTES)
      else case first_bad ascii_graphic raw of
             Some ch \<Rightarrow> Err (IllegalChar ''model name'' ch)
           | None \<Rightarrow> Ok ())"

definition model_name_new :: "string \<Rightarrow> (core_error, model_name) result" where
  "model_name_new raw = rbind (validate_model_name raw) (\<lambda>_. Ok (ModelName raw))"

definition HASH_MAX_BYTES :: nat where
  "HASH_MAX_BYTES = 256"

datatype passphrase_hash = PassphraseHash (phc_str: string)

definition validate_hash :: "string \<Rightarrow> (core_error, unit) result" where
  "validate_hash raw =
     (if raw = [] then Err (Empty ''passphrase hash'')
      else if HASH_MAX_BYTES < length raw
        then Err (TooLong ''passphrase hash'' (length raw) HASH_MAX_BYTES)
      else if \<not> starts_with raw (CHR ''$'')
        then Err (IllegalChar ''passphrase hash'' (case chars raw of [] \<Rightarrow> [char_of (0::nat)] | ch # _ \<Rightarrow> ch))
      else case first_bad ascii_graphic raw of
             Some ch \<Rightarrow> Err (IllegalChar ''passphrase hash'' ch)
           | None \<Rightarrow> Ok ())"

definition passphrase_hash_new :: "string \<Rightarrow> (core_error, passphrase_hash) result" where
  "passphrase_hash_new raw = rbind (validate_hash raw) (\<lambda>_. Ok (PassphraseHash raw))"

section \<open>Keys, signatures and trace ids\<close>

type_synonym hash_fun = "bytes \<Rightarrow> bytes"
type_synonym hex_encoder = "bytes \<Rightarrow> string"
type_synonym hex_decoder = "string \<Rightarrow> bytes option"

definition TN_KEY_BYTES :: nat where
  "TN_KEY_BYTES = 16"

definition DIGEST_BYTES :: nat where
  "DIGEST_BYTES = 32"

definition TRACE_BYTES :: nat where
  "TRACE_BYTES = 16"

definition decode_hex :: "hex_decoder \<Rightarrow> nat \<Rightarrow> string \<Rightarrow> string \<Rightarrow> (core_error, bytes) result" where
  "decode_hex hex_decode n k raw =
     (if length raw \<noteq> n * 2 then Err (HexLength k (n * 2))
      else ok_or (hex_decode raw) (HexDigit k))"

datatype tn_key = TnKey (tn_bytes: bytes)
datatype ut_key = UtKey (ut_bytes: bytes)
datatype signature = Signature (sig_bytes: bytes)
datatype trace_id = TraceId (trace_bytes: bytes)

definition tn_key_from_hex :: "hex_decoder \<Rightarrow> string \<Rightarrow> (core_error, tn_key) result" where
  "tn_key_from_hex hex_decode raw =
     map_sum id TnKey (decode_hex hex_decode TN_KEY_BYTES ''tenant key'' raw)"

definition tn_key_to_hex :: "hex_encoder \<Rightarrow> tn_key \<Rightarrow> string" where
  "tn_key_to_hex hex_encode k = hex_encode (tn_bytes k)"

definition ut_key_from_hex :: "hex_decoder \<Rightarrow> string \<Rightarrow> (core_error, ut_key) result" where
  "ut_key_from_hex hex_decode raw =
     map_sum id UtKey (decode_hex hex_decode DIGEST_BYTES ''user tenant key'' raw)"

definition signature_from_hex :: "hex_decoder \<Rightarrow> string \<Rightarrow> (core_error, signature) result" where
  "signature_from_hex hex_decode raw =
     map_sum id Signature (decode_hex hex_decode DIGEST_BYTES ''signature'' raw)"

definition signature_to_hex :: "hex_encoder \<Rightarrow> signature \<Rightarrow> string" where
  "signature_to_hex hex_encode s = hex_encode (sig_bytes s)"

definition trace_id_from_hex :: "hex_decoder \<Rightarrow> string \<Rightarrow> (core_error, trace_id) result" where
  "trace_id_from_hex hex_decode raw =
     map_sum id TraceId (decode_hex hex_decode TRACE_BYTES ''trace id'' raw)"

definition trace_id_to_hex :: "hex_encoder \<Rightarrow> trace_id \<Rightarrow> string" where
  "trace_id_to_hex hex_encode t = hex_encode (trace_bytes t)"

definition digest_of :: "hash_fun \<Rightarrow> bytes \<Rightarrow> nonce \<Rightarrow> bytes" where
  "digest_of sha256 secret n = sha256 (secret @ as_bytes (nonce_str n))"

definition derive :: "hash_fun \<Rightarrow> user_id \<Rightarrow> tn_key \<Rightarrow> ut_key" where
  "derive sha256 user tn = UtKey (sha256 (as_bytes (user_str user) @ tn_bytes tn))"

definition of_user :: "hash_fun \<Rightarrow> ut_key \<Rightarrow> nonce \<Rightarrow> signature" where
  "of_user sha256 ut n = Signature (digest_of sha256 (ut_bytes ut) n)"

definition of_tenant_owner :: "hash_fun \<Rightarrow> tn_key \<Rightarrow> nonce \<Rightarrow> signature" where
  "of_tenant_owner sha256 tn n = Signature (digest_of sha256 (tn_bytes tn) n)"

text \<open>\<open>ct_eq\<close> on two arrays: every byte is compared, none short circuits the result.\<close>

definition ct_eq :: "bytes \<Rightarrow> bytes \<Rightarrow> bool" where
  "ct_eq xs ys = (fold (\<lambda>(x, y) same. same \<and> x = y) (zip xs ys) True \<and> length xs = length ys)"

definition signature_verify :: "signature \<Rightarrow> signature \<Rightarrow> bool" where
  "signature_verify expected candidate = ct_eq (sig_bytes expected) (sig_bytes candidate)"

section \<open>What a checked value is\<close>

definition id_ok :: "string \<Rightarrow> bool" where
  "id_ok s = (s \<noteq> [] \<and> length s \<le> 64 \<and> list_all id_char s)"

definition nonce_ok :: "nonce \<Rightarrow> bool" where
  "nonce_ok n = (8 \<le> length (nonce_str n) \<and> length (nonce_str n) \<le> 128
     \<and> list_all ascii_graphic (nonce_str n))"

definition tn_key_ok :: "tn_key \<Rightarrow> bool" where
  "tn_key_ok k = (length (tn_bytes k) = TN_KEY_BYTES)"

lemmas id_limits = ID_MAX_BYTES_def NONCE_MIN_BYTES_def NONCE_MAX_BYTES_def
  MODEL_NAME_MAX_BYTES_def HASH_MAX_BYTES_def

lemma id_char_lt [simp]: "id_char c \<Longrightarrow> code c < 128"
  by (auto simp: id_char_def) (simp_all add: code_def)

lemma id_char_facts [text_facts]:
  assumes "id_char c"
  shows "ascii_graphic c" "c \<noteq> CHR '':''" "c \<noteq> CHR ''/''" "c \<noteq> CHR '' ''"
  using assms
  by (auto simp: id_char_def ascii_graphic_def ascii_alphanumeric_def ascii_digit_def ascii_upper_def
      ascii_lower_def code_def)

lemma validate_id_Ok_iff [simp]: "validate_id k raw = Ok () \<longleftrightarrow> id_ok raw"
  using first_bad_None_iff [of id_char raw]
  by (auto simp: validate_id_def id_ok_def id_limits list_all_iff split: option.splits)

lemma id_new_iff [simp]:
  "tenant_id_new raw = Ok t \<longleftrightarrow> id_ok raw \<and> t = TenantId raw"
  "user_id_new raw = Ok u \<longleftrightarrow> id_ok raw \<and> u = UserId raw"
  "api_id_new raw = Ok a \<longleftrightarrow> id_ok raw \<and> a = ApiId raw"
  "turn_id_new raw = Ok r \<longleftrightarrow> id_ok raw \<and> r = TurnId raw"
  by (auto simp: tenant_id_new_def user_id_new_def api_id_new_def turn_id_new_def rbind_Ok_iff)

lemma nonce_new_iff [simp]: "nonce_new raw = Ok n \<longleftrightarrow> nonce_ok (Nonce raw) \<and> n = Nonce raw"
  using first_bad_None_iff [of ascii_graphic raw]
  by (auto simp: nonce_new_def validate_nonce_def nonce_ok_def id_limits list_all_iff rbind_Ok_iff
      split: option.splits if_splits)

lemma id_ok_chars [text_facts]: "id_ok s \<Longrightarrow> c \<in> set s \<Longrightarrow> id_char c"
  by (auto simp: id_ok_def list_all_iff)

lemma ct_eq_iff [simp]: "ct_eq xs ys \<longleftrightarrow> xs = ys"
proof -
  have *: "fold (\<lambda>(x, y) same. same \<and> x = y) ps b = (b \<and> (\<forall>(x, y)\<in>set ps. x = y))"
    for ps :: "(byte \<times> byte) list" and b
    by (induction ps arbitrary: b) auto
  show ?thesis
    by (auto simp: ct_eq_def * list_eq_iff_zip_eq)
qed

lemma signature_verify_iff [simp]: "signature_verify a b \<longleftrightarrow> a = b"
  by (cases a; cases b) (simp add: signature_verify_def)

end
