(* ===== verification/Capabilities.thy ===== *)
theory Capabilities
  imports Core_Id
begin

text \<open>
  Capabilities, the scopes they are granted at, and roles: \<open>crates/ip-core/src/capability.rs\<close>.
  A \<open>HashSet<Grant>\<close> is a set; the mutating operations return the new set with the flag the
  method returns.
\<close>

fun scope_kind :: "capability \<Rightarrow> scope_kind" where
  "scope_kind TenantMgr = UserScope"
| "scope_kind UserMgr = TenantScope"
| "scope_kind SysAgent = TenantScope"
| "scope_kind Observer = TenantScope"
| "scope_kind ApiAccess = ApiScope"
| "scope_kind ApiAdvMgr = ApiScope"
| "scope_kind LimitMgr = ApiScope"

fun prerequisite :: "capability \<Rightarrow> capability option" where
  "prerequisite ApiAdvMgr = Some ApiAccess"
| "prerequisite LimitMgr = Some ApiAccess"
| "prerequisite _ = None"

datatype capability_scope =
    AtUser user_id
  | AtTenant user_id tenant_id
  | AtApi user_id tenant_id api_id

fun kind_of :: "capability_scope \<Rightarrow> scope_kind" where
  "kind_of (AtUser _) = UserScope"
| "kind_of (AtTenant _ _) = TenantScope"
| "kind_of (AtApi _ _ _) = ApiScope"

fun scope_user :: "capability_scope \<Rightarrow> user_id" where
  "scope_user (AtUser u) = u"
| "scope_user (AtTenant u _) = u"
| "scope_user (AtApi u _ _) = u"

fun scope_tenant :: "capability_scope \<Rightarrow> tenant_id option" where
  "scope_tenant (AtUser _) = None"
| "scope_tenant (AtTenant _ t) = Some t"
| "scope_tenant (AtApi _ t _) = Some t"

fun scope_api :: "capability_scope \<Rightarrow> api_id option" where
  "scope_api (AtApi _ _ a) = Some a"
| "scope_api _ = None"

record grant =
  g_capability :: capability
  g_scope :: capability_scope

definition grant_new :: "capability \<Rightarrow> capability_scope \<Rightarrow> (core_error, grant) result" where
  "grant_new c s =
     (let expected = scope_kind c; actual = kind_of s in
      if expected \<noteq> actual then Err (ScopeMismatch c expected actual)
      else Ok \<lparr>g_capability = c, g_scope = s\<rparr>)"

type_synonym grants = "grant set"

definition grants_insert :: "grants \<Rightarrow> grant \<Rightarrow> grants \<times> bool" where
  "grants_insert G g = (insert g G, g \<notin> G)"

definition grants_remove :: "grants \<Rightarrow> grant \<Rightarrow> grants \<times> bool" where
  "grants_remove G g = (Set.remove g G, g \<in> G)"

definition granted :: "grants \<Rightarrow> capability \<Rightarrow> capability_scope \<Rightarrow> bool" where
  "granted G c s = (\<exists>g\<in>G. g_capability g = c \<and> g_scope g = s)"

definition holds :: "grants \<Rightarrow> capability \<Rightarrow> capability_scope \<Rightarrow> bool" where
  "holds G c s =
     (if scope_kind c \<noteq> kind_of s then False
      else if (case prerequisite c of Some p \<Rightarrow> \<not> granted G p s | None \<Rightarrow> False) then False
      else granted G c s)"

datatype role = SysAdmin | TenantAdmin tenant_id | Member

fun implies :: "role \<Rightarrow> capability \<Rightarrow> capability_scope \<Rightarrow> bool" where
  "implies SysAdmin c s = (scope_kind c = kind_of s)"
| "implies (TenantAdmin owned) c s =
     (c \<noteq> TenantMgr \<and> scope_kind c = kind_of s \<and> scope_tenant s = Some owned)"
| "implies Member c s = False"

section \<open>The shape of a scope\<close>

definition grants_ok :: "grants \<Rightarrow> bool" where
  "grants_ok G = (\<forall>g\<in>G. scope_kind (g_capability g) = kind_of (g_scope g))"

lemma granted_iff [simp]: "granted G c s \<longleftrightarrow> \<lparr>g_capability = c, g_scope = s\<rparr> \<in> G"
proof -
  have *: "g_capability g = c \<and> g_scope g = s \<longleftrightarrow> g = \<lparr>g_capability = c, g_scope = s\<rparr>" for g :: grant
    by (cases g) auto
  show ?thesis unfolding granted_def * by simp
qed

lemma grant_new_Ok_iff [simp]:
  "grant_new c s = Ok g \<longleftrightarrow> scope_kind c = kind_of s \<and> g = \<lparr>g_capability = c, g_scope = s\<rparr>"
  by (auto simp: grant_new_def Let_def)

lemma grants_ok_insert: "grants_ok G \<Longrightarrow> grant_new c s = Ok g \<Longrightarrow> grants_ok (fst (grants_insert G g))"
  by (auto simp: grants_ok_def grants_insert_def)

lemma grants_ok_remove: "grants_ok G \<Longrightarrow> grants_ok (fst (grants_remove G g))"
  by (auto simp: grants_ok_def grants_remove_def)

lemma holds_iff:
  "holds G c s \<longleftrightarrow>
     scope_kind c = kind_of s \<and> \<lparr>g_capability = c, g_scope = s\<rparr> \<in> G
     \<and> (\<forall>p. prerequisite c = Some p \<longrightarrow> \<lparr>g_capability = p, g_scope = s\<rparr> \<in> G)"
  by (auto simp: holds_def split: option.splits)

lemma prerequisite_same_scope: "prerequisite c = Some p \<Longrightarrow> scope_kind p = scope_kind c \<and> p = ApiAccess"
  by (cases c) auto

section \<open>Properties\<close>

text \<open>
  Granting and revoking act on exactly one capability at exactly one scope. After
  \<open>Grants::insert\<close> a capability is held that was not held before only if it is the one
  inserted or the inserted one is its prerequisite at the same scope; after
  \<open>Grants::remove\<close> exactly the removed capability and those that have it as prerequisite at
  that scope stop being held, and nothing else is gained or lost.
\<close>

lemma grants_change_one_scope:
  "(holds (fst (grants_insert G \<lparr>g_capability = c, g_scope = s\<rparr>)) d u \<longleftrightarrow>
      holds G d u
      \<or> (s = u \<and> scope_kind d = kind_of u \<and> (d = c \<or> prerequisite d = Some c)
         \<and> (d = c \<or> granted G d u)
         \<and> (\<forall>p \<in> set_option (prerequisite d). p = c \<or> granted G p u)))
   \<and> (holds (fst (grants_remove G \<lparr>g_capability = c, g_scope = s\<rparr>)) d u \<longleftrightarrow>
      holds G d u \<and> (s = u \<longrightarrow> d \<noteq> c \<and> prerequisite d \<noteq> Some c))"
  by (auto simp: holds_iff grants_insert_def grants_remove_def)

end
