(* ===== verification/Cache_Types.thy ===== *)
theory Cache_Types
  imports Core_Id
begin

text \<open>
  What every cache backend shares: \<open>crates/ip-cache/src/key.rs\<close>, \<open>ttl.rs\<close>, \<open>limits.rs\<close>,
  \<open>counter.rs\<close>, \<open>publication.rs\<close> and \<open>error.rs\<close>. A \<open>Duration\<close> is its number of nanoseconds.
\<close>

datatype cache_error =
    EmptyKey
  | UnusableKey string
  | UnusablePrefix string
  | ZeroLimit
  | ZeroTtl
  | MalformedPublication string
  | MalformedCount string
  | Backend string

section \<open>Keys\<close>

datatype cache_level = Response | Semantic | System

fun level_str :: "cache_level \<Rightarrow> string" where
  "level_str Response = ''resp''"
| "level_str Semantic = ''sem''"
| "level_str System = ''sys''"

record cache_key =
  ck_key :: string
  ck_level :: cache_level

definition cache_key_new :: "cache_level \<Rightarrow> string \<Rightarrow> (cache_error, cache_key) result" where
  "cache_key_new level ident =
     (if ident = [] then Err EmptyKey
      else if \<exists>c\<in>set (chars ident). is_whitespace c \<or> is_control c then Err (UnusableKey ident)
      else Ok \<lparr>ck_key = ''ip:'' @ level_str level @ '':'' @ ident, ck_level = level\<rparr>)"

section \<open>Lifetimes and limits\<close>

datatype ttl = Ttl (ttl_nanos: nat)

definition ttl_new :: "nat \<Rightarrow> (cache_error, ttl) result" where
  "ttl_new nanos = (if nanos = 0 then Err ZeroTtl else Ok (Ttl nanos))"

definition ttl_seconds :: "u64 \<Rightarrow> (cache_error, ttl) result" where
  "ttl_seconds s = ttl_new (unat s * 1000000000)"

definition as_millis :: "nat \<Rightarrow> nat" where
  "as_millis nanos = nanos div 1000000"

definition u64_or_max :: "nat \<Rightarrow> u64" where
  "u64_or_max n = (if n < 2 ^ 64 then of_nat n else - 1)"

definition div_ceil :: "nat \<Rightarrow> nat \<Rightarrow> nat" where
  "div_ceil a b = a div b + (if a mod b = 0 then 0 else 1)"

definition whole_seconds :: "ttl \<Rightarrow> u64" where
  "whole_seconds t = u64_or_max (div_ceil (as_millis (ttl_nanos t)) 1000)"

datatype max_bytes = MaxBytes (limit_get: u64)

definition max_bytes_new :: "u64 \<Rightarrow> (cache_error, max_bytes) result" where
  "max_bytes_new b = (if b = 0 then Err ZeroLimit else Ok (MaxBytes b))"

record level_limits =
  lim_response :: "max_bytes option"
  lim_semantic :: "max_bytes option"
  lim_system :: "max_bytes option"

definition no_limits :: level_limits where
  "no_limits = \<lparr>lim_response = None, lim_semantic = None, lim_system = None\<rparr>"

fun limit_of :: "level_limits \<Rightarrow> cache_level \<Rightarrow> max_bytes option" where
  "limit_of l Response = lim_response l"
| "limit_of l Semantic = lim_semantic l"
| "limit_of l System = lim_system l"

definition any_limit :: "level_limits \<Rightarrow> bool" where
  "any_limit l = (lim_response l \<noteq> None \<or> lim_semantic l \<noteq> None \<or> lim_system l \<noteq> None)"

section \<open>Counts and publications as stored\<close>

definition counted_bytes :: "u64 \<Rightarrow> bytes" where
  "counted_bytes n = to_be_bytes n"

definition count_of :: "bytes \<Rightarrow> (cache_error, u64) result" where
  "count_of stored =
     (if length stored = 8 then Ok (from_be_bytes stored)
      else Err (MalformedCount (show_nat (length stored) @ '' bytes are not a count'')))"

record published =
  pub_revision :: u64
  pub_value :: bytes

definition encode_published :: "u64 \<Rightarrow> bytes \<Rightarrow> bytes" where
  "encode_published revision value = to_be_bytes revision @ value"

definition decode_published :: "bytes \<Rightarrow> (cache_error, published) result" where
  "decode_published stored =
     (if length stored < 8
      then Err (MalformedPublication (show_nat (length stored) @ '' bytes cannot hold a revision''))
      else Ok \<lparr>pub_revision = from_be_bytes (take 8 stored), pub_value = drop 8 stored\<rparr>)"

text \<open>\<open>announce\<close>: the revision a follower has seen, and whether this one was news to it.\<close>

definition announce :: "u64 \<Rightarrow> u64 \<Rightarrow> u64 \<times> bool" where
  "announce seen revision = (if seen < revision then (revision, True) else (seen, False))"

section \<open>Lemmas\<close>

lemma cache_key_new_Ok_iff:
  "cache_key_new level ident = Ok k \<longleftrightarrow>
     ident \<noteq> [] \<and> (\<forall>c\<in>set (chars ident). \<not> is_whitespace c \<and> \<not> is_control c)
     \<and> k = \<lparr>ck_key = ''ip:'' @ level_str level @ '':'' @ ident, ck_level = level\<rparr>"
  by (auto simp: cache_key_new_def)

text \<open>An id of visible ASCII characters is always usable.\<close>

lemma cache_key_new_graphic:
  assumes "ident \<noteq> []" "list_all ascii_graphic ident"
  shows "cache_key_new level ident = Ok \<lparr>ck_key = ''ip:'' @ level_str level @ '':'' @ ident, ck_level = level\<rparr>"
proof -
  have "chars ident = map (\<lambda>c. [c]) ident"
    using assms(2) by (intro chars_ascii) (auto simp: list_all_iff)
  then show ?thesis
    using assms graphic_is_usable by (auto simp: cache_key_new_Ok_iff list_all_iff)
qed

lemma level_no_colon: "CHR '':'' \<notin> set (level_str l)"
  by (cases l) auto

lemma level_str_inj: "level_str l = level_str m \<longleftrightarrow> l = m"
  by (cases l; cases m) auto

lemma cache_key_text_inj:
  "''ip:'' @ level_str l @ '':'' @ a = ''ip:'' @ level_str m @ '':'' @ b \<longleftrightarrow> l = m \<and> a = b"
  using split_unique [of "level_str l" "CHR '':''" a "level_str m" b] level_no_colon level_str_inj
  by auto

lemma count_of_bytes [simp]: "count_of (counted_bytes n) = Ok n"
  by (simp add: count_of_def counted_bytes_def)

lemma decode_encode_published [simp]:
  "decode_published (encode_published r v) = Ok \<lparr>pub_revision = r, pub_value = v\<rparr>"
  by (simp add: decode_published_def encode_published_def)

lemma u64_or_max_zero: "u64_or_max n = 0 \<longleftrightarrow> n = 0"
proof (cases "n < 2 ^ 64")
  case True
  then have "unat (of_nat n :: u64) = n" by (intro unat_of_nat_lt) simp
  then have "(of_nat n :: u64) = 0 \<longleftrightarrow> n = 0" by (auto simp: unat_eq_0 [symmetric])
  then show ?thesis using True by (simp add: u64_or_max_def)
next
  case False
  then show ?thesis by (simp add: u64_or_max_def)
qed

text \<open>
  No two entries of a backend collide: two keys that are stored under the same text name
  the same id in the same level.
\<close>

lemma cache_keys_disjoint:
  assumes "cache_key_new l a = Ok k" "cache_key_new m b = Ok k'" "ck_key k = ck_key k'"
  shows "l = m \<and> a = b"
  using assms cache_key_text_inj [of l a m b] by (simp add: cache_key_new_Ok_iff)

text \<open>
  A lifetime counted in whole seconds is rounded up from its milliseconds. It is zero
  exactly for lifetimes shorter than a millisecond, which the constructor accepts although
  its documentation promises that the count is never zero.
\<close>

lemma whole_seconds_zero:
  "whole_seconds t = 0 \<longleftrightarrow> ttl_nanos t < 1000000"
  by (auto simp: whole_seconds_def u64_or_max_zero div_ceil_def as_millis_def)

end
