(* ===== verification/Cache_Contract.thy ===== *)
theory Cache_Contract
  imports Cache_Types
begin

text \<open>
  What the rest of the gateway relies on of a cache for the system's own state: the traits
  \<open>Cache\<close> and \<open>Counters\<close> of \<open>crates/ip-cache/src/cache.rs\<close> and \<open>counter.rs\<close>, for keys of the
  system level that nothing evicts. The state of a backend is seen through the live value under
  each key at each moment. The lemmas for clients are proved here once.
\<close>

definition expiry :: "ttl option \<Rightarrow> u64 \<Rightarrow> u64" where
  "expiry ttl ms = (case ttl of Some t \<Rightarrow> sat_add ms (u64_or_max (as_millis (ttl_nanos t))) | None \<Rightarrow> - 1)"

locale system_cache =
  fixes ok :: "'s \<Rightarrow> bool"
    and good :: "cache_key \<Rightarrow> bool"
    and view :: "'s \<Rightarrow> u64 \<Rightarrow> cache_key \<rightharpoonup> bytes"
    and get :: "cache_key \<Rightarrow> u64 \<Rightarrow> u64 \<Rightarrow> 's \<Rightarrow> bytes option \<times> 's"
    and put :: "cache_key \<Rightarrow> bytes \<Rightarrow> ttl option \<Rightarrow> u64 \<Rightarrow> u64 \<Rightarrow> 's \<Rightarrow> 's option"
    and claim :: "cache_key \<Rightarrow> ttl option \<Rightarrow> u64 \<Rightarrow> u64 \<Rightarrow> 's \<Rightarrow> (bool \<times> 's) option"
    and remove :: "cache_key \<Rightarrow> u64 \<Rightarrow> 's \<Rightarrow> bool \<times> 's"
  assumes get_law: "ok s \<Longrightarrow> good k \<Longrightarrow> get k ms us s = (r, s')
      \<Longrightarrow> r = view s ms k \<and> ok s' \<and> (\<forall>t j. good j \<longrightarrow> ms \<le> t \<longrightarrow> view s' t j = view s t j)"
    and put_law: "ok s \<Longrightarrow> good k \<Longrightarrow> \<exists>s'. put k v ttl ms us s = Some s' \<and> ok s'
      \<and> (\<forall>t j. good j \<longrightarrow> view s' t j =
            (if j = k then if t < expiry ttl ms then Some v else None else view s t j))"
    and claim_law: "ok s \<Longrightarrow> good k \<Longrightarrow> \<exists>s'. claim k ttl ms us s = Some (view s ms k = None, s') \<and> ok s'
      \<and> (\<forall>t j. good j \<longrightarrow> view s' t j =
            (if j = k \<and> view s ms k = None then if t < expiry ttl ms then Some [] else None
             else view s t j))"
    and remove_law: "ok s \<Longrightarrow> good k \<Longrightarrow> remove k ms s = (b, s')
      \<Longrightarrow> b = (view s ms k \<noteq> None) \<and> ok s' \<and> (\<forall>t j. good j \<longrightarrow> view s' t j = (if j = k then None else view s t j))"
    and view_expires: "ok s \<Longrightarrow> good k \<Longrightarrow> view s ms k = None \<Longrightarrow> ms \<le> t \<Longrightarrow> view s t k = None"
begin

text \<open>What may happen between two claims of a key: anything but writing or removing that key.\<close>

inductive between :: "cache_key \<Rightarrow> 's \<Rightarrow> u64 \<Rightarrow> 's \<Rightarrow> bool" for k where
  Nothing: "between k s t s"
| Gets: "between k s t s1 \<Longrightarrow> good j \<Longrightarrow> get j ms us s1 = (r, s2) \<Longrightarrow> ms \<le> t \<Longrightarrow> between k s t s2"
| Puts: "between k s t s1 \<Longrightarrow> good j \<Longrightarrow> j \<noteq> k \<Longrightarrow> put j v l ms us s1 = Some s2 \<Longrightarrow> between k s t s2"
| Claims: "between k s t s1 \<Longrightarrow> good j \<Longrightarrow> claim j l ms us s1 = Some (b, s2) \<Longrightarrow> view s1 ms k \<noteq> None \<or> j \<noteq> k
    \<Longrightarrow> between k s t s2"
| Removes: "between k s t s1 \<Longrightarrow> good j \<Longrightarrow> j \<noteq> k \<Longrightarrow> remove j ms s1 = (b, s2) \<Longrightarrow> between k s t s2"

lemma between_keeps:
  assumes "between k s t s'" "ok s" "good k"
  shows "ok s' \<and> view s' t k = view s t k"
  using assms
proof (induction rule: between.induct)
  case (Puts s t s1 j v l ms us s2)
  then show ?case using put_law [of s1 j v l ms us] by auto
next
  case (Claims s t s1 j l ms us b s2)
  then show ?case using claim_law [of s1 j l ms us] by (auto split: if_splits)
next
  case (Removes s t s1 j ms b s2)
  then show ?case using remove_law [of s1 j ms b s2] by auto
next
  case (Gets s t s1 j ms us r s2)
  then show ?case using get_law [of s1 j ms us r s2] by auto
qed simp

text \<open>A key that was claimed is refused to every later claim until it expires.\<close>

lemma claim_once:
  assumes "ok s" "good k" "claim k ttl ms us s = Some (True, s1)"
    and "between k s1 t s2" "t < expiry ttl ms"
  shows "\<exists>s3. claim k ttl' t us' s2 = Some (False, s3)"
proof -
  have s1: "ok s1 \<and> view s1 t k = Some []"
    using claim_law [OF assms(1,2), of ttl ms us] assms(2,3,5) by auto
  then have "ok s2 \<and> view s2 t k = Some []"
    using between_keeps [OF assms(4) _ assms(2)] by simp
  then show ?thesis
    using claim_law [of s2 k ttl' t us'] assms(2) by auto
qed

text \<open>What was put is read back until it expires.\<close>

lemma put_get:
  assumes "ok s" "good k" "put k v ttl ms us s = Some s1" "between k s1 t s2" "t < expiry ttl ms"
  shows "fst (get k t us' s2) = Some v"
proof -
  have "ok s1 \<and> view s1 t k = Some v"
    using put_law [OF assms(1,2), of v ttl ms us] assms(2,3,5) by auto
  then have "ok s2 \<and> view s2 t k = Some v"
    using between_keeps [OF assms(4) _ assms(2)] by simp
  then show ?thesis
    using get_law [of s2 k t us'] assms(2) by (cases "get k t us' s2") auto
qed

end

locale system_counters = system_cache ok good view get put claim remove
  for ok :: "'s \<Rightarrow> bool" and good view get put claim remove +
  fixes count :: "cache_key \<Rightarrow> u64 \<Rightarrow> ttl \<Rightarrow> u64 \<Rightarrow> u64 \<Rightarrow> 's \<Rightarrow> (cache_error, u64 \<times> 's) result option"
    and counted :: "cache_key \<Rightarrow> u64 \<Rightarrow> 's \<Rightarrow> (cache_error, u64 option) result \<times> 's"
    and seed :: "cache_key \<Rightarrow> u64 \<Rightarrow> ttl \<Rightarrow> u64 \<Rightarrow> u64 \<Rightarrow> 's \<Rightarrow> (cache_error, u64 \<times> 's) result option"
  assumes count_law: "ok s \<Longrightarrow> good k \<Longrightarrow> view s ms k = map_option counted_bytes held
      \<Longrightarrow> \<exists>s'. count k n ttl ms us s = Some (Ok (sat_add (unwrap_or held 0) n, s')) \<and> ok s'
        \<and> (\<forall>t j. good j \<longrightarrow> view s' t j =
              (if j = k then if t < expiry (Some ttl) ms then Some (counted_bytes (sat_add (unwrap_or held 0) n)) else None
               else view s t j))"
    and counted_law: "ok s \<Longrightarrow> good k \<Longrightarrow> view s ms k = map_option counted_bytes held
      \<Longrightarrow> \<exists>s'. counted k ms s = (Ok held, s') \<and> ok s' \<and> (\<forall>t j. good j \<longrightarrow> ms \<le> t \<longrightarrow> view s' t j = view s t j)"
    and seed_law: "ok s \<Longrightarrow> good k \<Longrightarrow> view s ms k = map_option counted_bytes held
      \<Longrightarrow> \<exists>s'. seed k n ttl ms us s = Some (Ok (unwrap_or held n, s')) \<and> ok s'
        \<and> (\<forall>t j. good j \<longrightarrow> view s' t j =
              (if j = k then if t < expiry (Some ttl) ms then Some (counted_bytes (unwrap_or held n)) else None
               else view s t j))"
begin

text \<open>A count reads back as what it was counted to.\<close>

lemma count_counted:
  assumes "ok s" "good k" "view s ms k = map_option counted_bytes held"
    and "count k n ttl ms us s = Some (Ok (reached, s1))" "t < expiry (Some ttl) ms"
  shows "reached = sat_add (unwrap_or held 0) n \<and> fst (counted k t s1) = Ok (Some reached)"
proof -
  obtain s' where s': "count k n ttl ms us s = Some (Ok (sat_add (unwrap_or held 0) n, s'))" "ok s'"
    "\<forall>t j. good j \<longrightarrow> view s' t j = (if j = k then if t < expiry (Some ttl) ms
        then Some (counted_bytes (sat_add (unwrap_or held 0) n)) else None else view s t j)"
    using count_law [OF assms(1-3)] by blast
  then have "view s' t k = map_option counted_bytes (Some (sat_add (unwrap_or held 0) n))"
    using assms(2,5) by simp
  then obtain s3 where "counted k t s' = (Ok (Some (sat_add (unwrap_or held 0) n)), s3)"
    using counted_law [OF s'(2) assms(2)] by blast
  then show ?thesis using s'(1) assms(4) by simp
qed

end

end
