(* ===== verification/Sled_Cache.thy ===== *)
theory Sled_Cache
  imports Cache_Contract "HOL-Library.List_Lexorder"
begin

text \<open>
  The standalone cache backend: \<open>crates/ip-cache/src/standalone.rs\<close>. The sled database is
  outside the repository; of it the model takes that a tree maps byte strings to byte strings,
  that a scan goes in lexicographic order, that a transaction over several trees is one atomic
  step, and that its calls succeed. A tree is a map; the index tree, which is scanned, is the
  sorted list of its keys. Clock readings are arguments: \<open>ms\<close> is \<open>now()\<close>, \<open>us\<close> is \<open>now_micros()\<close>.
\<close>

section \<open>Entries\<close>

definition STAMP :: nat where
  "STAMP = 8"

definition NEVER :: u64 where
  "NEVER = - 1"

definition INDEX_PREFIX :: nat where
  "INDEX_PREFIX = 1 + 8"

definition REFRESH_AFTER_MICROS :: u64 where
  "REFRESH_AFTER_MICROS = 1000000"

fun tag_of :: "cache_level \<Rightarrow> byte" where
  "tag_of Response = 0"
| "tag_of Semantic = 1"
| "tag_of System = 2"

definition index_key :: "cache_level \<Rightarrow> bytes \<Rightarrow> bytes \<Rightarrow> bytes" where
  "index_key level last_used key = tag_of level # last_used @ key"

definition entry_of :: "bytes \<Rightarrow> ttl option \<Rightarrow> u64 \<Rightarrow> bytes" where
  "entry_of value ttl ms =
     (let expires_at = (case ttl of
            Some t \<Rightarrow> sat_add ms (u64_or_max (as_millis (ttl_nanos t)))
          | None \<Rightarrow> NEVER) in
      to_be_bytes expires_at @ value)"

definition value_of :: "bytes \<Rightarrow> u64 \<Rightarrow> bytes option" where
  "value_of entry ms =
     Option.bind (split_at_checked entry STAMP) (\<lambda>(stamp, value).
       if ms < from_be_bytes stamp then Some value else None)"

definition weigh :: "bytes \<Rightarrow> nat \<Rightarrow> u64" where
  "weigh key entry_len = u64_or_max (length key + entry_len)"

definition counted :: "bytes \<Rightarrow> u64 option" where
  "counted bs = (if length bs = 8 then Some (from_be_bytes bs) else None)"

section \<open>The database\<close>

record sled =
  entries :: "bytes \<rightharpoonup> bytes"
  used :: "bytes \<rightharpoonup> bytes"
  index :: "bytes list"
  sizes :: "byte \<rightharpoonup> bytes"
  published_tree :: "bytes \<rightharpoonup> bytes"
  limits :: level_limits

definition around :: "level_limits \<Rightarrow> sled" where
  "around lims =
     \<lparr>entries = Map.empty, used = Map.empty, index = [], sizes = Map.empty,
      published_tree = Map.empty, limits = lims\<rparr>"

definition held :: "sled \<Rightarrow> cache_level \<Rightarrow> u64" where
  "held s level = unwrap_or (Option.bind (sizes s (tag_of level)) counted) 0"

definition index_insert :: "bytes \<Rightarrow> sled \<Rightarrow> sled" where
  "index_insert k s = s\<lparr>index := insort_insert k (index s)\<rparr>"

definition index_remove :: "bytes \<Rightarrow> sled \<Rightarrow> sled" where
  "index_remove k s = s\<lparr>index := remove1 k (index s)\<rparr>"

text \<open>\<open>drop_entry\<close>: the transaction, and whether what it removed was still live.\<close>

definition drop_entry :: "cache_level \<Rightarrow> bytes \<Rightarrow> u64 \<Rightarrow> sled \<Rightarrow> bool \<times> sled" where
  "drop_entry level key ms s =
     (case entries s key of
        None \<Rightarrow> (False, s)
      | Some entry \<Rightarrow>
          (let s1 = s\<lparr>entries := (entries s)(key := None)\<rparr>;
               s2 = (case used s1 key of
                       Some last_used \<Rightarrow>
                         index_remove (index_key level last_used key) (s1\<lparr>used := (used s1)(key := None)\<rparr>)
                     | None \<Rightarrow> s1);
               s3 = s2\<lparr>sizes := (sizes s2)(tag_of level \<mapsto>
                          to_be_bytes (sat_sub (held s2 level) (weigh key (length entry))))\<rparr>
           in (value_of entry ms \<noteq> None, s3)))"

partial_function (option) evict_loop :: "u64 \<Rightarrow> cache_level \<Rightarrow> u64 \<Rightarrow> sled \<Rightarrow> sled option" where
  "evict_loop limit level ms s =
     (if limit < held s level then
        (case List.find (\<lambda>ix. take 1 ix = [tag_of level]) (index s) of
           None \<Rightarrow> Some s
         | Some oldest \<Rightarrow>
             evict_loop limit level ms (snd (drop_entry level (drop INDEX_PREFIX oldest) ms s)))
      else Some s)"

definition evict :: "cache_level \<Rightarrow> u64 \<Rightarrow> sled \<Rightarrow> sled option" where
  "evict level ms s =
     (case limit_of (limits s) level of
        None \<Rightarrow> Some s
      | Some limit \<Rightarrow> evict_loop (limit_get limit) level ms s)"

text \<open>The transaction of \<open>write\<close>; \<open>write\<close> itself evicts after it.\<close>

definition write_txn :: "cache_level \<Rightarrow> bytes \<Rightarrow> bytes \<Rightarrow> u64 \<Rightarrow> sled \<Rightarrow> sled" where
  "write_txn level key entry us s =
     (let stamped = to_be_bytes us;
          replaced = entries s key;
          s1 = s\<lparr>entries := (entries s)(key \<mapsto> entry)\<rparr>;
          held0 = held s1 level;
          held1 = (case replaced of
                     Some r \<Rightarrow> sat_sub held0 (weigh key (length r))
                   | None \<Rightarrow> held0);
          s2 = (case used s1 key of
                  Some last_used \<Rightarrow> index_remove (index_key level last_used key) s1
                | None \<Rightarrow> s1);
          s3 = index_insert (index_key level stamped key) (s2\<lparr>used := (used s2)(key \<mapsto> stamped)\<rparr>)
      in s3\<lparr>sizes := (sizes s3)(tag_of level \<mapsto> to_be_bytes (sat_add held1 (weigh key (length entry))))\<rparr>)"

definition write_entry :: "cache_level \<Rightarrow> bytes \<Rightarrow> bytes \<Rightarrow> u64 \<Rightarrow> u64 \<Rightarrow> sled \<Rightarrow> sled option" where
  "write_entry level key entry us ms s = evict level ms (write_txn level key entry us s)"

definition touch :: "cache_level \<Rightarrow> bytes \<Rightarrow> u64 \<Rightarrow> sled \<Rightarrow> sled" where
  "touch level key us s =
     (if \<not> any_limit (limits s) then s
      else if (case Option.bind (used s key) counted of
                 Some seen \<Rightarrow> sat_sub us seen < REFRESH_AFTER_MICROS
               | None \<Rightarrow> False) then s
      else
        let stamped = to_be_bytes us;
            s1 = (case used s key of
                    Some previous \<Rightarrow> index_remove (index_key level previous key) s
                  | None \<Rightarrow> s)
        in index_insert (index_key level stamped key) (s1\<lparr>used := (used s1)(key \<mapsto> stamped)\<rparr>))"

section \<open>The cache operations\<close>

definition key_bytes :: "cache_key \<Rightarrow> bytes" where
  "key_bytes k = as_bytes (ck_key k)"

definition sled_get :: "cache_key \<Rightarrow> u64 \<Rightarrow> u64 \<Rightarrow> sled \<Rightarrow> bytes option \<times> sled" where
  "sled_get k ms us s =
     (case entries s (key_bytes k) of
        None \<Rightarrow> (None, s)
      | Some entry \<Rightarrow>
          (case value_of entry ms of
             Some value \<Rightarrow> (Some value, touch (ck_level k) (key_bytes k) us s)
           | None \<Rightarrow> (None, snd (drop_entry (ck_level k) (key_bytes k) ms s))))"

definition sled_put :: "cache_key \<Rightarrow> bytes \<Rightarrow> ttl option \<Rightarrow> u64 \<Rightarrow> u64 \<Rightarrow> sled \<Rightarrow> sled option" where
  "sled_put k value ttl ms us s = write_entry (ck_level k) (key_bytes k) (entry_of value ttl ms) us ms s"

definition sled_remove :: "cache_key \<Rightarrow> u64 \<Rightarrow> sled \<Rightarrow> bool \<times> sled" where
  "sled_remove k ms s = drop_entry (ck_level k) (key_bytes k) ms s"

text \<open>
  \<open>compare_and_swap\<close> on the entries, and the loops of \<open>claim\<close> and \<open>counting\<close> run with nothing else
  writing, where the swap succeeds the first time.
\<close>

definition compare_and_swap :: "bytes \<Rightarrow> bytes option \<Rightarrow> bytes \<Rightarrow> sled \<Rightarrow> sled option" where
  "compare_and_swap key old new s =
     (if entries s key = old then Some (s\<lparr>entries := (entries s)(key \<mapsto> new)\<rparr>) else None)"

definition sled_claim :: "cache_key \<Rightarrow> ttl option \<Rightarrow> u64 \<Rightarrow> u64 \<Rightarrow> sled \<Rightarrow> (bool \<times> sled) option" where
  "sled_claim k ttl ms us s =
     (let key = key_bytes k; entry = entry_of [] ttl ms; was = entries s key in
      if (case was of Some e \<Rightarrow> value_of e ms \<noteq> None | None \<Rightarrow> False) then Some (False, s)
      else Option.bind (compare_and_swap key was entry s) (\<lambda>s1.
           map_option (Pair True) (write_entry (ck_level k) key entry us ms s1)))"

definition counting ::
  "(u64 option \<Rightarrow> u64) \<Rightarrow> cache_key \<Rightarrow> ttl \<Rightarrow> u64 \<Rightarrow> u64 \<Rightarrow> sled \<Rightarrow> (cache_error, u64 \<times> sled) result option" where
  "counting next k ttl ms us s =
     (let key = key_bytes k; was = entries s key in
      case Option.bind was (\<lambda>e. value_of e ms) of
        Some stored \<Rightarrow>
          (case count_of stored of
             Err e \<Rightarrow> Some (Err e)
           | Ok c \<Rightarrow>
               (let total = next (Some c); written = entry_of (counted_bytes total) (Some ttl) ms in
                Option.bind (compare_and_swap key was written s) (\<lambda>s1.
                map_option (\<lambda>s2. Ok (total, s2)) (write_entry (ck_level k) key written us ms s1))))
      | None \<Rightarrow>
          (let total = next None; written = entry_of (counted_bytes total) (Some ttl) ms in
           Option.bind (compare_and_swap key was written s) (\<lambda>s1.
           map_option (\<lambda>s2. Ok (total, s2)) (write_entry (ck_level k) key written us ms s1))))"

definition sled_count ::
  "cache_key \<Rightarrow> u64 \<Rightarrow> ttl \<Rightarrow> u64 \<Rightarrow> u64 \<Rightarrow> sled \<Rightarrow> (cache_error, u64 \<times> sled) result option" where
  "sled_count k by ttl ms us s = counting (\<lambda>c. sat_add (unwrap_or c 0) by) k ttl ms us s"

definition sled_seed ::
  "cache_key \<Rightarrow> u64 \<Rightarrow> ttl \<Rightarrow> u64 \<Rightarrow> u64 \<Rightarrow> sled \<Rightarrow> (cache_error, u64 \<times> sled) result option" where
  "sled_seed k start ttl ms us s = counting (\<lambda>c. unwrap_or c start) k ttl ms us s"

definition sled_counted :: "cache_key \<Rightarrow> u64 \<Rightarrow> sled \<Rightarrow> (cache_error, u64 option) result \<times> sled" where
  "sled_counted k ms s =
     (case Option.bind (entries s (key_bytes k)) (\<lambda>e. value_of e ms) of
        Some c \<Rightarrow> (map_sum id Some (count_of c), s)
      | None \<Rightarrow> (Ok None, snd (drop_entry (ck_level k) (key_bytes k) ms s)))"

section \<open>The index mirrors the entries\<close>

text \<open>A key's level is written in its text.\<close>

definition level_of :: "bytes \<Rightarrow> cache_level" where
  "level_of b =
     (if take 8 b = as_bytes ''ip:resp:'' then Response
      else if take 7 b = as_bytes ''ip:sem:'' then Semantic else System)"

definition key_ok :: "cache_key \<Rightarrow> bool" where
  "key_ok k = (level_of (key_bytes k) = ck_level k)"

definition index_keys :: "(bytes \<rightharpoonup> bytes) \<Rightarrow> bytes set" where
  "index_keys u = (\<lambda>k. index_key (level_of k) (the (u k)) k) ` dom u"

definition indexed :: "(bytes \<rightharpoonup> bytes) \<Rightarrow> bytes list \<Rightarrow> bool" where
  "indexed u ix = ((\<forall>k st. u k = Some st \<longrightarrow> length st = 8) \<and> sorted ix \<and> distinct ix \<and> set ix = index_keys u)"

definition sled_ok :: "sled \<Rightarrow> bool" where
  "sled_ok s = (finite (dom (entries s)) \<and> dom (used s) = dom (entries s) \<and> indexed (used s) (index s))"

lemma as_bytes_append: "as_bytes (a @ b) = as_bytes a @ as_bytes b"
  by (simp add: as_bytes_def)

lemma key_ok_new: "cache_key_new level ident = Ok k \<Longrightarrow> key_ok k"
  by (cases level)
    (auto simp: cache_key_new_Ok_iff key_ok_def key_bytes_def level_of_def as_bytes_append as_bytes_def
      code_def)

lemma index_key_inj:
  "length a = 8 \<Longrightarrow> length b = 8 \<Longrightarrow> index_key l a k = index_key m b j \<longleftrightarrow> tag_of l = tag_of m \<and> a = b \<and> k = j"
  by (auto simp: index_key_def)

lemma tag_of_inj [simp]: "tag_of l = tag_of m \<longleftrightarrow> l = m"
  by (cases l; cases m) auto

lemma indexed_forget:
  assumes "indexed u ix"
  shows "indexed (u(k := None)) (case u k of Some st \<Rightarrow> remove1 (index_key (level_of k) st k) ix | None \<Rightarrow> ix)"
proof (cases "u k")
  case None
  then have "u(k := None) = u" by auto
  then show ?thesis using assms None by simp
next
  case (Some st)
  let ?f = "\<lambda>k. index_key (level_of k) (the (u k)) k"
  have "inj_on ?f (dom u)"
    using assms by (auto simp: inj_on_def indexed_def index_key_inj)
  then have "?f ` (dom u - {k}) = ?f ` dom u - {?f k}"
    using Some by (subst inj_on_image_set_diff) auto
  moreover have "index_keys (u(k := None)) = ?f ` (dom u - {k})"
    unfolding index_keys_def by (rule image_cong) auto
  ultimately have "index_keys u - {index_key (level_of k) st k} = index_keys (u(k := None))"
    using Some by (simp add: index_keys_def)
  then show ?thesis
    using assms Some by (auto simp: indexed_def sorted_remove1 split: if_splits)
qed

lemma indexed_stamp:
  assumes "indexed (u(k := None)) ix" "length st = 8"
  shows "indexed (u(k \<mapsto> st)) (insort_insert (index_key (level_of k) st k) ix)"
proof -
  let ?f = "\<lambda>u k. index_key (level_of k) (the (u k)) k"
  have "dom (u(k \<mapsto> st)) = insert k (dom u - {k})" by auto
  then have "index_keys (u(k \<mapsto> st)) = insert (?f (u(k \<mapsto> st)) k) (?f (u(k \<mapsto> st)) ` (dom u - {k}))"
    unfolding index_keys_def by (simp only: image_insert)
  also have "?f (u(k \<mapsto> st)) ` (dom u - {k}) = ?f (u(k := None)) ` (dom u - {k})"
    by (rule image_cong) auto
  also have "\<dots> = index_keys (u(k := None))"
    by (simp add: index_keys_def)
  finally have "index_keys (u(k \<mapsto> st)) = insert (?f (u(k \<mapsto> st)) k) (index_keys (u(k := None)))" .
  then have keys: "index_keys (u(k \<mapsto> st)) = insert (index_key (level_of k) st k) (index_keys (u(k := None)))"
    by (simp only: fun_upd_same option.sel)
  show ?thesis
    unfolding indexed_def keys using assms
    by (auto simp: indexed_def sorted_insort_insert distinct_insort_insert set_insort_insert split: if_splits)
qed

lemma indexed_restamp:
  assumes "indexed u ix"
  shows "indexed (u(k \<mapsto> to_be_bytes (us :: u64))) (insort_insert (index_key (level_of k) (to_be_bytes us) k)
      (case u k of Some st \<Rightarrow> remove1 (index_key (level_of k) st k) ix | None \<Rightarrow> ix))"
  by (rule indexed_stamp [OF indexed_forget [OF assms]]) simp

text \<open>What each atomic step does to the trees.\<close>

lemma drop_entry_trees:
  assumes "drop_entry level key ms s = (b, s')" "entries s key = Some e"
  shows "entries s' = (entries s)(key := None)" "used s' = (used s)(key := None)"
    "index s' = (case used s key of Some st \<Rightarrow> remove1 (index_key level st key) (index s) | None \<Rightarrow> index s)"
    "sizes s' = (sizes s)(tag_of level \<mapsto> to_be_bytes (sat_sub (held s level) (weigh key (length e))))"
    "limits s' = limits s" "published_tree s' = published_tree s" "b = (value_of e ms \<noteq> None)"
  using assms
  by (auto simp: drop_entry_def Let_def index_remove_def held_def fun_upd_idem split: option.splits)

lemma drop_entry_absent: "entries s key = None \<Longrightarrow> drop_entry level key ms s = (False, s)"
  by (simp add: drop_entry_def)

lemma write_txn_trees:
  "entries (write_txn level key e us s) = (entries s)(key \<mapsto> e)"
  "used (write_txn level key e us s) = (used s)(key \<mapsto> to_be_bytes us)"
  "index (write_txn level key e us s) = insort_insert (index_key level (to_be_bytes us) key)
     (case used s key of Some st \<Rightarrow> remove1 (index_key level st key) (index s) | None \<Rightarrow> index s)"
  "sizes (write_txn level key e us s) = (sizes s)(tag_of level \<mapsto> to_be_bytes (sat_add
     (case entries s key of Some r \<Rightarrow> sat_sub (held s level) (weigh key (length r)) | None \<Rightarrow> held s level)
     (weigh key (length e))))"
  "limits (write_txn level key e us s) = limits s"
  "published_tree (write_txn level key e us s) = published_tree s"
  by (auto simp: write_txn_def Let_def index_remove_def index_insert_def held_def split: option.splits)

lemma touch_trees:
  "entries (touch level key us s) = entries s" "sizes (touch level key us s) = sizes s"
  "limits (touch level key us s) = limits s" "published_tree (touch level key us s) = published_tree s"
  by (auto simp: touch_def Let_def index_remove_def index_insert_def split: option.splits)

lemma drop_entry_ok:
  assumes "sled_ok s" "drop_entry (level_of key) key ms s = (b, s')"
  shows "sled_ok s'"
proof (cases "entries s key")
  case None
  then show ?thesis using assms by (simp add: drop_entry_absent)
next
  case (Some e)
  note trees = drop_entry_trees [OF assms(2) Some]
  show ?thesis
    using assms(1) indexed_forget [of "used s" "index s" key]
    by (auto simp: sled_ok_def trees)
qed

lemma write_txn_ok: "sled_ok s \<Longrightarrow> sled_ok (write_txn (level_of key) key e us s)"
  using indexed_restamp [of "used s" "index s" key us]
  by (auto simp: sled_ok_def write_txn_trees)

lemma touch_ok:
  assumes "sled_ok s" "key \<in> dom (entries s)"
  shows "sled_ok (touch (level_of key) key us s)"
proof -
  have stamped: "indexed ((used s)(key \<mapsto> to_be_bytes us)) (insort_insert (index_key (level_of key) (to_be_bytes us) key)
      (case used s key of Some st \<Rightarrow> remove1 (index_key (level_of key) st key) (index s) | None \<Rightarrow> index s))"
    using assms(1) indexed_restamp [of "used s" "index s" key us] by (simp add: sled_ok_def)
  have "insert key (dom (used s)) = dom (entries s)"
    using assms by (auto simp: sled_ok_def)
  then show ?thesis
    using assms stamped
    by (auto simp: sled_ok_def touch_def Let_def index_remove_def index_insert_def split: option.splits)
qed

lemma around_ok: "sled_ok (around lims)"
  by (simp add: sled_ok_def around_def indexed_def index_keys_def)

section \<open>Accounting\<close>

definition level_keys :: "sled \<Rightarrow> cache_level \<Rightarrow> bytes set" where
  "level_keys s l = {k \<in> dom (entries s). level_of k = l}"

definition entry_weight :: "sled \<Rightarrow> bytes \<Rightarrow> nat" where
  "entry_weight s k = length k + length (the (entries s k))"

definition weight_sum :: "sled \<Rightarrow> cache_level \<Rightarrow> nat" where
  "weight_sum s l = (\<Sum>k\<in>level_keys s l. entry_weight s k)"

definition accounted :: "sled \<Rightarrow> bool" where
  "accounted s = (\<forall>l. unat (held s l) = weight_sum s l)"

lemma held_update:
  "sizes s' = (sizes s)(tag_of l \<mapsto> to_be_bytes x) \<Longrightarrow> held s' m = (if m = l then x else held s m)"
  by (simp add: held_def counted_def)

lemma unat_weigh: "length key + n < 2 ^ 64 \<Longrightarrow> unat (weigh key n) = length key + n"
  using unat_of_nat_lt [of "length key + n", where 'l = 64] by (simp add: weigh_def u64_or_max_def)

lemma weight_sum_remove:
  assumes "finite (dom (entries s))" "entries s key = Some e" "entries s' = (entries s)(key := None)"
  shows "weight_sum s l = weight_sum s' l + (if l = level_of key then length key + length e else 0)"
proof -
  have keys: "level_keys s' l = level_keys s l - {key}"
    by (auto simp: level_keys_def assms(3))
  have same: "(\<Sum>k\<in>level_keys s l - {key}. entry_weight s' k) = (\<Sum>k\<in>level_keys s l - {key}. entry_weight s k)"
    by (rule sum.cong) (auto simp: entry_weight_def assms(3))
  have fin: "finite (level_keys s l)"
    using assms(1) by (simp add: level_keys_def)
  show ?thesis
  proof (cases "l = level_of key")
    case True
    then have "key \<in> level_keys s l"
      using assms(2) by (auto simp: level_keys_def)
    then show ?thesis
      using sum.remove [OF fin, of key "entry_weight s"] True keys same assms(2)
      by (simp add: weight_sum_def entry_weight_def)
  next
    case False
    then have "level_keys s l - {key} = level_keys s l"
      by (auto simp: level_keys_def)
    then show ?thesis using False keys same by (simp add: weight_sum_def)
  qed
qed

lemma weight_sum_insert:
  assumes "finite (dom (entries s))" "entries s' = (entries s)(key \<mapsto> e)"
  shows "weight_sum s' l + (if l = level_of key then (case entries s key of Some r \<Rightarrow> length key + length r | None \<Rightarrow> 0) else 0)
    = weight_sum s l + (if l = level_of key then length key + length e else 0)"
proof -
  let ?r = "s\<lparr>entries := (entries s)(key := None)\<rparr>"
  have after: "weight_sum s' l = weight_sum ?r l + (if l = level_of key then length key + length e else 0)"
    using assms by (intro weight_sum_remove) auto
  have before: "weight_sum s l = weight_sum ?r l
      + (if l = level_of key then (case entries s key of Some r \<Rightarrow> length key + length r | None \<Rightarrow> 0) else 0)"
  proof (cases "entries s key")
    case None
    then have "?r = s" by (simp add: fun_upd_idem)
    then show ?thesis using None by simp
  next
    case (Some r)
    then show ?thesis
      using weight_sum_remove [OF assms(1) Some, of ?r l] by simp
  qed
  show ?thesis using after before by simp
qed

lemma drop_entry_accounted:
  assumes "sled_ok s" "accounted s" "drop_entry (level_of key) key ms s = (b, s')"
  shows "accounted s'"
proof (cases "entries s key")
  case None
  then show ?thesis using assms by (simp add: drop_entry_absent)
next
  case (Some e)
  note trees = drop_entry_trees [OF assms(3) Some]
  have sum: "weight_sum s l = weight_sum s' l + (if l = level_of key then length key + length e else 0)" for l
    using assms(1) Some trees(1) by (intro weight_sum_remove) (auto simp: sled_ok_def)
  have "length key + length e \<le> unat (held s (level_of key))"
    using assms(2) sum [of "level_of key"] by (simp add: accounted_def)
  then have "length key + length e < 2 ^ 64"
    using unat_less [of "held s (level_of key)"] by simp
  then show ?thesis
    using assms(2) sum
    by (auto simp: accounted_def held_update [OF trees(4)] unat_sat_sub unat_weigh)
qed

lemma write_txn_accounted:
  assumes "sled_ok s" "accounted s"
    and "weight_sum (write_txn (level_of key) key e us s) (level_of key) < 2 ^ 64"
  shows "accounted (write_txn (level_of key) key e us s)"
proof -
  let ?l = "level_of key" and ?s' = "write_txn (level_of key) key e us s"
  have sum: "weight_sum ?s' l + (if l = ?l then (case entries s key of Some r \<Rightarrow> length key + length r | None \<Rightarrow> 0) else 0)
      = weight_sum s l + (if l = ?l then length key + length e else 0)" for l
    using assms(1) by (intro weight_sum_insert) (auto simp: sled_ok_def write_txn_trees)
  have heldw: "unat (held s l) = weight_sum s l" for l
    using assms(2) by (simp add: accounted_def)
  have "entry_weight ?s' key \<le> weight_sum ?s' ?l"
    unfolding weight_sum_def using assms(1)
    by (intro member_le_sum) (auto simp: level_keys_def write_txn_trees sled_ok_def)
  then have fits: "length key + length e < 2 ^ 64"
    using assms(3) by (simp add: entry_weight_def write_txn_trees)
  have old: "length key + length r < 2 ^ 64 \<and> length key + length r \<le> weight_sum s ?l"
    if "entries s key = Some r" for r
    using weight_sum_remove [OF _ that, of "s\<lparr>entries := (entries s)(key := None)\<rparr>" ?l] assms(1)
      heldw [of ?l] unat_less [of "held s ?l"] by (simp add: sled_ok_def)
  have "unat (held ?s' l) = weight_sum ?s' l" for l
  proof (cases "l = ?l")
    case True
    then show ?thesis
      using sum [of ?l] heldw [of ?l] fits old assms(3)
      by (auto simp: held_update [OF write_txn_trees(4)] unat_sat_add unat_sat_sub unat_weigh
          split: option.splits)
  next
    case False
    then show ?thesis
      using sum [of l] heldw [of l] by (simp add: held_update [OF write_txn_trees(4)])
  qed
  then show ?thesis by (simp add: accounted_def)
qed

section \<open>Eviction\<close>

text \<open>Big endian stamps of one width are ordered as the numbers they hold.\<close>

lemma be_bytes_less: "length xs = length ys \<Longrightarrow> xs < ys \<Longrightarrow> nat_of_be xs < nat_of_be ys"
proof (induction xs ys rule: list_induct2)
  case (Cons x xs y ys)
  show ?case
  proof (cases "x < y")
    case True
    have "nat_of_be (x # xs) < (unat x + 1) * 256 ^ length xs"
      using nat_of_be_bound [of xs] by (simp add: nat_of_be_Cons)
    also have "\<dots> \<le> unat y * 256 ^ length ys"
      using True Cons.hyps by (intro mult_le_mono) (auto simp: word_less_nat_alt)
    finally show ?thesis by (simp add: nat_of_be_Cons)
  next
    case False
    then show ?thesis using Cons by (auto simp: nat_of_be_Cons)
  qed
qed simp

lemma append_le_prefix: "length (a :: 'a::linorder list) = length b \<Longrightarrow> a @ x \<le> b @ y \<Longrightarrow> a \<le> b"
  by (induction a b rule: list_induct2) auto

definition stamp_of :: "sled \<Rightarrow> bytes \<Rightarrow> nat" where
  "stamp_of s k = nat_of_be (the (used s k))"

text \<open>The first index key under a level's tag belongs to its least recently used entry.\<close>

lemma oldest_entry:
  assumes ok: "sled_ok s" and found: "List.find (\<lambda>ix. take 1 ix = [tag_of l]) (index s) = Some ix"
  shows "drop INDEX_PREFIX ix \<in> level_keys s l"
    and "j \<in> level_keys s l \<Longrightarrow> stamp_of s (drop INDEX_PREFIX ix) \<le> stamp_of s j"
proof -
  have idx: "indexed (used s) (index s)" and dom: "dom (used s) = dom (entries s)"
    using ok by (auto simp: sled_ok_def)
  have mem: "ix \<in> set (index s)" and tag: "take 1 ix = [tag_of l]"
    using found by (auto simp: find_Some_iff)
  obtain k st where k: "used s k = Some st" "ix = index_key (level_of k) st k" "length st = 8"
    using mem idx by (auto simp: indexed_def index_keys_def)
  then have key: "drop INDEX_PREFIX ix = k" and lev: "level_of k = l"
    using tag by (auto simp: INDEX_PREFIX_def index_key_def)
  show "drop INDEX_PREFIX ix \<in> level_keys s l"
    using key lev k(1) dom by (auto simp: level_keys_def)
  show "stamp_of s (drop INDEX_PREFIX ix) \<le> stamp_of s j" if j: "j \<in> level_keys s l"
  proof -
    have "j \<in> dom (used s)" and lj: "level_of j = l"
      using j dom by (auto simp: level_keys_def)
    then obtain t where t: "used s j = Some t" "level_of j = l" "length t = 8"
      using idx by (auto simp: indexed_def)
    let ?jx = "index_key l t j"
    have "?jx \<in> set (index s)"
      using t idx unfolding indexed_def index_keys_def by (auto intro!: image_eqI [of _ _ j])
    moreover have "take 1 ?jx = [tag_of l]" by (simp add: index_key_def)
    moreover have "sorted (map (\<lambda>x. x) (index s))" using idx by (simp add: indexed_def)
    ultimately have "ix \<le> ?jx"
      using find_sorted [of "\<lambda>x. x" "index s"] found by blast
    then have "st @ k \<le> t @ j"
      using k(2) lev by (simp add: index_key_def)
    then have "st \<le> t"
      using k(3) t(3) append_le_prefix by metis
    then have "nat_of_be st \<le> nat_of_be t"
      using be_bytes_less [of st t] k(3) t(3) by (cases "st = t") (auto simp: less_le)
    then show ?thesis
      using key k(1) t(1) by (simp add: stamp_of_def)
  qed
qed

text \<open>What eviction may do: drop entries of one level, the least recently used first.\<close>

definition evicted :: "cache_level \<Rightarrow> sled \<Rightarrow> sled \<Rightarrow> bool" where
  "evicted l s s' =
     (sled_ok s' \<and> limits s' = limits s \<and> published_tree s' = published_tree s
      \<and> (\<forall>k. entries s' k = entries s k \<or> (entries s' k = None \<and> level_of k = l))
      \<and> (\<forall>k\<in>dom (entries s'). used s' k = used s k)
      \<and> (\<forall>m. m \<noteq> l \<longrightarrow> held s' m = held s m)
      \<and> (accounted s \<longrightarrow> accounted s')
      \<and> (\<forall>gone kept. gone \<in> level_keys s l - level_keys s' l \<longrightarrow> kept \<in> level_keys s' l
            \<longrightarrow> stamp_of s gone \<le> stamp_of s kept))"

lemma evicted_refl: "sled_ok s \<Longrightarrow> evicted l s s"
  by (simp add: evicted_def)

lemma evicted_entry: "evicted l s s' \<Longrightarrow> entries s' k = Some e \<Longrightarrow> entries s k = Some e"
  unfolding evicted_def by (metis option.distinct(1))

lemma evicted_lru:
  "evicted l s s' \<Longrightarrow> gone \<in> level_keys s l - level_keys s' l \<Longrightarrow> kept \<in> level_keys s' l
   \<Longrightarrow> stamp_of s gone \<le> stamp_of s kept"
  unfolding evicted_def by blast

lemma evicted_drop_oldest:
  assumes ok: "sled_ok s" and found: "List.find (\<lambda>ix. take 1 ix = [tag_of l]) (index s) = Some ix"
    and s1_def: "s1 = snd (drop_entry l (drop INDEX_PREFIX ix) ms s)"
  shows "evicted l s s1" and "card (dom (entries s1)) < card (dom (entries s))"
    and "evicted l s1 s2 \<Longrightarrow> evicted l s s2"
proof -
  let ?k = "drop INDEX_PREFIX ix"
  note oldest = oldest_entry [OF ok found]
  obtain e where e: "entries s ?k = Some e" and lev: "level_of ?k = l"
    using oldest(1) by (auto simp: level_keys_def)
  obtain b where d: "drop_entry (level_of ?k) ?k ms s = (b, s1)"
    using lev by (cases "drop_entry l ?k ms s") (auto simp: s1_def)
  note trees = drop_entry_trees [OF d e]
  have fin: "finite (dom (entries s))" using ok by (simp add: sled_ok_def)
  have keys: "level_keys s1 l = level_keys s l - {?k}"
    by (auto simp: level_keys_def trees(1))
  have ok1: "sled_ok s1" by (rule drop_entry_ok [OF ok d])
  show "card (dom (entries s1)) < card (dom (entries s))"
    using fin e by (auto simp: trees(1) intro: psubset_card_mono)
  show ev: "evicted l s s1"
    using ok1 trees lev oldest keys drop_entry_accounted [OF ok _ d]
    by (auto simp: evicted_def held_update [OF trees(4)])
  show "evicted l s s2" if "evicted l s1 s2"
  proof -
    have stamps: "stamp_of s1 j = stamp_of s j" if "j \<in> level_keys s1 l" for j
      using that keys by (simp add: stamp_of_def trees(2))
    have sub: "level_keys s2 l \<subseteq> level_keys s1 l"
      using evicted_entry [OF \<open>evicted l s1 s2\<close>] by (auto simp: level_keys_def)
    have "stamp_of s gone \<le> stamp_of s kept"
      if "gone \<in> level_keys s l - level_keys s2 l" "kept \<in> level_keys s2 l" for gone kept
    proof (cases "gone = ?k")
      case True
      then show ?thesis using oldest(2) sub keys that(2) by auto
    next
      case False
      then have "gone \<in> level_keys s1 l - level_keys s2 l" using that(1) keys by auto
      then have "stamp_of s1 gone \<le> stamp_of s1 kept"
        using \<open>evicted l s1 s2\<close> that(2) by (simp add: evicted_def)
      then show ?thesis using stamps sub that(2) \<open>gone \<in> level_keys s1 l - level_keys s2 l\<close> by auto
    qed
    moreover have "used s2 j = used s j" if "j \<in> dom (entries s2)" for j
    proof -
      have "used s2 j = used s1 j" and "j \<in> dom (entries s1)"
        using \<open>evicted l s1 s2\<close> that evicted_entry [OF \<open>evicted l s1 s2\<close>] by (auto simp: evicted_def)
      then show ?thesis by (auto simp: trees(1,2) split: if_splits)
    qed
    ultimately show ?thesis
      using ev \<open>evicted l s1 s2\<close> unfolding evicted_def by metis
  qed
qed

text \<open>Eviction returns, and leaves its level inside the limit or with nothing left to drop.\<close>

lemma evict_loop_returns:
  assumes "sled_ok s"
  shows "\<exists>s'. evict_loop limit l ms s = Some s' \<and> evicted l s s' \<and> (held s' l \<le> limit \<or> level_keys s' l = {})"
  using assms
proof (induction "card (dom (entries s))" arbitrary: s rule: less_induct)
  case less
  show ?case
  proof (cases "limit < held s l")
    case False
    then show ?thesis
      using less.prems evict_loop.simps [of limit l ms s] evicted_refl by auto
  next
    case True
    show ?thesis
    proof (cases "List.find (\<lambda>ix. take 1 ix = [tag_of l]) (index s)")
      case None
      have "k \<notin> level_keys s l" for k
      proof
        assume k: "k \<in> level_keys s l"
        then have "index_key l (the (used s k)) k \<in> set (index s)"
          using less.prems by (auto simp: level_keys_def sled_ok_def indexed_def index_keys_def)
        then show False
          using None by (auto simp: find_None_iff index_key_def)
      qed
      then have "level_keys s l = {}" by blast
      then show ?thesis
        using True None less.prems evict_loop.simps [of limit l ms s] evicted_refl by auto
    next
      case (Some ix)
      let ?s1 = "snd (drop_entry l (drop INDEX_PREFIX ix) ms s)"
      note step = evicted_drop_oldest [OF less.prems Some refl, of ms]
      have "sled_ok ?s1" using step(1) by (simp add: evicted_def)
      then obtain s' where s': "evict_loop limit l ms ?s1 = Some s'" "evicted l ?s1 s'"
        "held s' l \<le> limit \<or> level_keys s' l = {}"
        using less.hyps [OF step(2)] by blast
      moreover have "evict_loop limit l ms s = evict_loop limit l ms ?s1"
        using True Some by (subst evict_loop.simps) simp
      ultimately show ?thesis using step(3) by auto
    qed
  qed
qed

lemma evict_returns:
  assumes "sled_ok s"
  shows "\<exists>s'. evict l ms s = Some s' \<and> evicted l s s'
    \<and> (\<forall>limit. limit_of (limits s) l = Some limit \<longrightarrow> held s' l \<le> limit_get limit \<or> level_keys s' l = {})
    \<and> (limit_of (limits s) l = None \<longrightarrow> s' = s)"
  using evict_loop_returns [OF assms] evicted_refl [OF assms]
  by (cases "limit_of (limits s) l") (auto simp: evict_def)

section \<open>What a backend shows\<close>

text \<open>The live value under a key at a moment, which is all a caller ever sees.\<close>

definition view :: "sled \<Rightarrow> u64 \<Rightarrow> bytes \<rightharpoonup> bytes" where
  "view s ms k = Option.bind (entries s k) (\<lambda>e. value_of e ms)"

lemma value_of_entry: "value_of (entry_of v ttl ms) t = (if t < expiry ttl ms then Some v else None)"
  by (auto simp: value_of_def entry_of_def expiry_def NEVER_def Let_def split_at_checked_def STAMP_def split: option.splits)

lemma view_mono: "view s ms k = None \<Longrightarrow> ms \<le> t \<Longrightarrow> view s t k = None"
  by (auto simp: view_def value_of_def split: option.splits bind_splits if_splits)

lemma view_entries_cong: "entries s' = entries s \<Longrightarrow> view s' = view s"
  by (auto simp: view_def fun_eq_iff)

lemma get_result: "fst (sled_get k ms us s) = view s ms (key_bytes k)"
  by (auto simp: sled_get_def view_def split: option.splits)

lemma get_view: "ms \<le> t \<Longrightarrow> view (snd (sled_get k ms us s)) t = view s t"
proof -
  assume t: "ms \<le> t"
  show ?thesis
  proof (cases "entries s (key_bytes k)")
    case None
    then show ?thesis by (simp add: sled_get_def)
  next
    case (Some e)
    show ?thesis
    proof (cases "value_of e ms")
      case None
      obtain b s' where d: "drop_entry (ck_level k) (key_bytes k) ms s = (b, s')" by fastforce
      have "view s t (key_bytes k) = None"
        using None Some by (intro view_mono [OF _ t]) (simp add: view_def)
      then have "view s' t = view s t"
        by (auto simp: fun_eq_iff view_def drop_entry_trees(1) [OF d Some])
      then show ?thesis using Some None d by (simp add: sled_get_def)
    next
      case (Some v)
      then show ?thesis
        using \<open>entries s (key_bytes k) = Some e\<close> by (simp add: sled_get_def view_entries_cong [OF touch_trees(1)])
    qed
  qed
qed

lemma get_ok: "sled_ok s \<Longrightarrow> key_ok k \<Longrightarrow> sled_ok (snd (sled_get k ms us s))"
proof -
  assume ok: "sled_ok s" and k: "key_ok k"
  show ?thesis
    using ok k touch_ok [OF ok, of "key_bytes k" us] drop_entry_ok [OF ok, of "key_bytes k" ms]
    by (cases "drop_entry (ck_level k) (key_bytes k) ms s")
      (auto simp: sled_get_def key_ok_def split: option.splits)
qed

text \<open>A compare and swap followed by the write of the same entry.\<close>

lemma swap_write_ok:
  assumes "sled_ok s"
  shows "sled_ok (write_txn (level_of key) key e us (s\<lparr>entries := (entries s)(key \<mapsto> e')\<rparr>))"
  using assms indexed_restamp [of "used s" "index s" key us]
  by (cases "used s key") (auto simp: sled_ok_def write_txn_trees)

lemma write_entry_unlimited:
  "limit_of (limits s) l = None \<Longrightarrow> write_entry l key e us ms s = Some (write_txn l key e us s)"
  by (simp add: write_entry_def evict_def write_txn_trees)

lemma view_write:
  "entries s' = (entries s)(key \<mapsto> entry_of v ttl ms)
   \<Longrightarrow> view s' t j = (if j = key then if t < expiry ttl ms then Some v else None else view s t j)"
  by (simp add: view_def value_of_entry)

text \<open>The part of a backend the system's own state lives in: keys of that level, never evicted.\<close>

definition sys_ok :: "sled \<Rightarrow> bool" where
  "sys_ok s = (sled_ok s \<and> lim_system (limits s) = None)"

definition sys_key :: "cache_key \<Rightarrow> bool" where
  "sys_key k = (key_ok k \<and> ck_level k = System)"

definition sys_view :: "sled \<Rightarrow> u64 \<Rightarrow> cache_key \<rightharpoonup> bytes" where
  "sys_view s ms k = view s ms (key_bytes k)"

lemma sys_key_bytes_inj: "sys_key j \<Longrightarrow> sys_key k \<Longrightarrow> key_bytes j = key_bytes k \<longleftrightarrow> j = k"
  by (auto simp: sys_key_def key_bytes_def as_bytes_inj intro!: cache_key.equality)

lemma sys_write:
  assumes "sys_ok s" "sys_key k"
  shows "write_entry (ck_level k) (key_bytes k) e us ms s = Some (write_txn System (key_bytes k) e us s)"
    and "sys_ok (write_txn System (key_bytes k) e us s)"
  using assms write_txn_ok [of s "key_bytes k" e us]
  by (auto simp: sys_ok_def sys_key_def key_ok_def write_entry_unlimited write_txn_trees)

lemma sys_swap_write:
  assumes "sys_ok s" "sys_key k" "compare_and_swap (key_bytes k) (entries s (key_bytes k)) e s = Some s1"
  shows "write_entry (ck_level k) (key_bytes k) e us ms s1 = Some (write_txn System (key_bytes k) e us s1)"
    and "sys_ok (write_txn System (key_bytes k) e us s1)"
    and "entries (write_txn System (key_bytes k) e us s1) = (entries s)(key_bytes k \<mapsto> e)"
  using assms swap_write_ok [of s "key_bytes k" e us e]
  by (auto simp: sys_ok_def sys_key_def key_ok_def compare_and_swap_def write_entry_unlimited write_txn_trees)

lemma sys_view_write:
  "sys_key j \<Longrightarrow> sys_key k \<Longrightarrow> entries s' = (entries s)(key_bytes k \<mapsto> entry_of v ttl ms)
   \<Longrightarrow> sys_view s' t j = (if j = k then if t < expiry ttl ms then Some v else None else sys_view s t j)"
  by (simp add: sys_view_def view_write sys_key_bytes_inj)

lemma sys_get:
  assumes "sys_ok s" "sys_key k" "sled_get k ms us s = (r, s')"
  shows "r = sys_view s ms k \<and> sys_ok s' \<and> (\<forall>t j. sys_key j \<longrightarrow> ms \<le> t \<longrightarrow> sys_view s' t j = sys_view s t j)"
proof -
  have lim: "limits s' = limits s"
  proof -
    have "limits (snd (drop_entry l key m s)) = limits s" for l key m
      using drop_entry_trees(5) [of l key m s] drop_entry_absent [of s key l m]
      by (cases "entries s key"; cases "drop_entry l key m s") auto
    then show ?thesis
      using assms(3) by (auto simp: sled_get_def touch_trees split: option.splits)
  qed
  show ?thesis
    using get_result [of k ms us s] get_view [of ms _ k us s] get_ok [of s k ms us] assms lim
    by (simp add: sys_ok_def sys_key_def sys_view_def)
qed

lemma sys_put:
  assumes "sys_ok s" "sys_key k"
  shows "\<exists>s'. sled_put k v ttl ms us s = Some s' \<and> sys_ok s'
      \<and> (\<forall>t j. sys_key j \<longrightarrow> sys_view s' t j =
            (if j = k then if t < expiry ttl ms then Some v else None else sys_view s t j))"
  using sys_write(1) [OF assms, of "entry_of v ttl ms" us ms] sys_write(2) [OF assms, of "entry_of v ttl ms" us]
    sys_view_write [OF _ assms(2)]
  by (auto simp: sled_put_def write_txn_trees)

lemma sys_claim:
  assumes "sys_ok s" "sys_key k"
  shows "\<exists>s'. sled_claim k ttl ms us s = Some (sys_view s ms k = None, s') \<and> sys_ok s'
      \<and> (\<forall>t j. sys_key j \<longrightarrow> sys_view s' t j =
            (if j = k \<and> sys_view s ms k = None then if t < expiry ttl ms then Some [] else None
             else sys_view s t j))"
proof (cases "sys_view s ms k")
  case None
  let ?e = "entry_of [] ttl ms"
  obtain s1 where s1: "compare_and_swap (key_bytes k) (entries s (key_bytes k)) ?e s = Some s1"
    by (simp add: compare_and_swap_def)
  note w = sys_swap_write(1) [OF assms s1, of us ms] sys_swap_write(2,3) [OF assms s1, of us]
  have "sled_claim k ttl ms us s = Some (True, write_txn System (key_bytes k) ?e us s1)"
    using None w(1) s1 by (auto simp: sled_claim_def sys_view_def view_def Let_def split: option.splits)
  then show ?thesis
    using None w(2,3) sys_view_write [OF _ assms(2)] by auto
next
  case (Some v)
  then have "sled_claim k ttl ms us s = Some (False, s)"
    by (auto simp: sled_claim_def sys_view_def view_def Let_def split: option.splits bind_splits)
  then show ?thesis using Some assms by auto
qed

lemma sys_remove:
  assumes "sys_ok s" "sys_key k" "sled_remove k ms s = (b, s')"
  shows "b = (sys_view s ms k \<noteq> None) \<and> sys_ok s'
    \<and> (\<forall>t j. sys_key j \<longrightarrow> sys_view s' t j = (if j = k then None else sys_view s t j))"
proof (cases "entries s (key_bytes k)")
  case None
  then have "view s t (key_bytes k) = None" for t by (simp add: view_def)
  then show ?thesis
    using None assms by (auto simp: sled_remove_def drop_entry_absent sys_view_def)
next
  case (Some e)
  have d: "drop_entry (level_of (key_bytes k)) (key_bytes k) ms s = (b, s')"
    using assms(2,3) by (simp add: sled_remove_def sys_key_def key_ok_def)
  note trees = drop_entry_trees [OF d Some]
  have "view s' t (key_bytes j) = (if j = k then None else view s t (key_bytes j))" if "sys_key j" for t j
    using sys_key_bytes_inj [OF that assms(2)] by (auto simp: view_def trees(1))
  then show ?thesis
    using drop_entry_ok [OF _ d] assms(1) trees(5,7) Some
    by (auto simp: sys_ok_def sys_view_def view_def)
qed

lemma sys_expires: "sys_ok s \<Longrightarrow> sys_key k \<Longrightarrow> sys_view s ms k = None \<Longrightarrow> ms \<le> t \<Longrightarrow> sys_view s t k = None"
  using view_mono by (auto simp: sys_view_def)

interpretation sled_sys: system_cache sys_ok sys_key sys_view sled_get sled_put sled_claim sled_remove
  by unfold_locales (rule sys_get sys_put sys_claim sys_remove sys_expires; assumption)+

text \<open>The counters of a backend, on the same keys.\<close>

lemma sys_counting:
  assumes "sys_ok s" "sys_key k" "sys_view s ms k = map_option counted_bytes was"
  shows "\<exists>s'. counting f k ttl ms us s = Some (Ok (f was, s')) \<and> sys_ok s'
        \<and> (\<forall>t j. sys_key j \<longrightarrow> sys_view s' t j =
              (if j = k then if t < expiry (Some ttl) ms then Some (counted_bytes (f was)) else None
               else sys_view s t j))"
proof -
  let ?e = "entry_of (counted_bytes (f was)) (Some ttl) ms"
  obtain s1 where s1: "compare_and_swap (key_bytes k) (entries s (key_bytes k)) ?e s = Some s1"
    by (simp add: compare_and_swap_def)
  note w = sys_swap_write(1) [OF assms(1,2) s1, of us ms] sys_swap_write(2,3) [OF assms(1,2) s1, of us]
  have "counting f k ttl ms us s = Some (Ok (f was, write_txn System (key_bytes k) ?e us s1))"
    using assms(3) w(1) s1
    by (cases was) (simp_all add: counting_def sys_view_def view_def Let_def)
  then show ?thesis
    using w(2,3) sys_view_write [OF _ assms(2)] by auto
qed

lemma sys_counted:
  assumes "sys_ok s" "sys_key k" "sys_view s ms k = map_option counted_bytes was"
  shows "\<exists>s'. sled_counted k ms s = (Ok was, s') \<and> sys_ok s'
    \<and> (\<forall>t j. sys_key j \<longrightarrow> ms \<le> t \<longrightarrow> sys_view s' t j = sys_view s t j)"
proof (cases was)
  case (Some c)
  then show ?thesis
    using assms by (simp add: sled_counted_def sys_view_def view_def)
next
  case None
  obtain b s' where d: "sled_remove k ms s = (b, s')"
    by (cases "sled_remove k ms s")
  have gone: "sys_view s t k = None" if "ms \<le> t" for t
    using assms None that by (intro sys_expires [OF assms(1,2) _ that]) simp
  show ?thesis
    using sys_remove [OF assms(1,2) d] d gone assms(3) None
    by (auto simp: sled_counted_def sled_remove_def sys_view_def view_def)
qed

interpretation sled_counters: system_counters sys_ok sys_key sys_view sled_get sled_put sled_claim sled_remove
  sled_count sled_counted sled_seed
proof unfold_locales
  fix s k ms was n ttl us
  assume *: "sys_ok s" "sys_key k" "sys_view s ms k = map_option counted_bytes was"
  show "\<exists>s'. sled_count k n ttl ms us s = Some (Ok (sat_add (unwrap_or was 0) n, s')) \<and> sys_ok s'
        \<and> (\<forall>t j. sys_key j \<longrightarrow> sys_view s' t j =
              (if j = k then if t < expiry (Some ttl) ms then Some (counted_bytes (sat_add (unwrap_or was 0) n)) else None
               else sys_view s t j))"
    unfolding sled_count_def by (rule sys_counting [OF *])
  show "\<exists>s'. sled_counted k ms s = (Ok was, s') \<and> sys_ok s'
      \<and> (\<forall>t j. sys_key j \<longrightarrow> ms \<le> t \<longrightarrow> sys_view s' t j = sys_view s t j)"
    by (rule sys_counted [OF *])
  show "\<exists>s'. sled_seed k n ttl ms us s = Some (Ok (unwrap_or was n, s')) \<and> sys_ok s'
        \<and> (\<forall>t j. sys_key j \<longrightarrow> sys_view s' t j =
              (if j = k then if t < expiry (Some ttl) ms then Some (counted_bytes (unwrap_or was n)) else None
               else sys_view s t j))"
    unfolding sled_seed_def by (rule sys_counting [OF *])
qed

text \<open>Concrete keys and states, for the witnesses.\<close>

definition sample_key :: "cache_level \<Rightarrow> cache_key" where
  "sample_key l = \<lparr>ck_key = ''ip:'' @ level_str l @ '':a'', ck_level = l\<rparr>"

definition sample_limits :: level_limits where
  "sample_limits = \<lparr>lim_response = Some (MaxBytes 100), lim_semantic = None, lim_system = None\<rparr>"

lemma sample_key_ok: "key_ok (sample_key l)"
  by (cases l) (auto simp: key_ok_def sample_key_def key_bytes_def level_of_def as_bytes_def code_def)

lemma around_accounted: "accounted (around lims)"
  by (simp add: accounted_def around_def held_def weight_sum_def level_keys_def)

lemma around_write_sum:
  "weight_sum (write_txn (level_of key) key e us (around lims)) (level_of key) = length key + length e"
  using weight_sum_insert [of "around lims" "write_txn (level_of key) key e us (around lims)" key e "level_of key"]
  by (simp add: write_txn_trees) (simp add: around_def weight_sum_def level_keys_def)

section \<open>Properties\<close>

lemma put_evicted:
  assumes "sled_ok s" "key_ok k"
  shows "\<exists>s'. sled_put k v ttl ms us s = Some s'
    \<and> evicted (ck_level k) (write_txn (ck_level k) (key_bytes k) (entry_of v ttl ms) us s) s'
    \<and> (\<forall>limit. limit_of (limits s) (ck_level k) = Some limit
          \<longrightarrow> held s' (ck_level k) \<le> limit_get limit \<or> level_keys s' (ck_level k) = {})"
  using evict_returns [OF write_txn_ok [OF assms(1), of "key_bytes k"], of "ck_level k" ms "entry_of v ttl ms" us]
    assms(2)
  by (auto simp: sled_put_def write_entry_def key_ok_def write_txn_trees)



text \<open>
  C14: what a write drops to make room is what was used longest ago: no entry that stays in
  the level was last used before one that goes, entries of other levels all stay, and an
  entry that stays is the one that was written.
\<close>

theorem sled_put_drops_oldest:
  assumes "sled_ok s" "key_ok k"
  shows "\<exists>s'. sled_put k v ttl ms us s = Some s'
    \<and> (\<forall>j. entries s' j = (if j = key_bytes k then Some (entry_of v ttl ms) else entries s j)
          \<or> (entries s' j = None \<and> level_of j = ck_level k))
    \<and> (\<forall>gone kept. gone \<in> insert (key_bytes k) (dom (entries s)) - dom (entries s')
          \<longrightarrow> kept \<in> dom (entries s') \<longrightarrow> level_of kept = ck_level k
          \<longrightarrow> (if gone = key_bytes k then unat us else stamp_of s gone)
              \<le> (if kept = key_bytes k then unat us else stamp_of s kept))"
proof -
  let ?w = "write_txn (ck_level k) (key_bytes k) (entry_of v ttl ms) us s"
  obtain s' where s': "sled_put k v ttl ms us s = Some s'" and ev: "evicted (ck_level k) ?w s'"
    using put_evicted [OF assms] by blast
  have stamp: "stamp_of ?w j = (if j = key_bytes k then unat us else stamp_of s j)" for j
    using nat_of_to_be [of 8 "unat us"] unat_less [of us]
    by (simp add: stamp_of_def write_txn_trees to_be_bytes_def)
  have each: "\<forall>j. entries s' j = (if j = key_bytes k then Some (entry_of v ttl ms) else entries s j)
          \<or> (entries s' j = None \<and> level_of j = ck_level k)"
    using ev by (auto simp: evicted_def write_txn_trees)
  have lru: "(if gone = key_bytes k then unat us else stamp_of s gone)
              \<le> (if kept = key_bytes k then unat us else stamp_of s kept)"
    if "gone \<in> insert (key_bytes k) (dom (entries s)) - dom (entries s')"
      "kept \<in> dom (entries s')" "level_of kept = ck_level k" for gone kept
  proof -
    have "entries s' gone = None" and "gone \<in> dom (entries ?w)"
      using that(1) by (auto simp: write_txn_trees)
    then have "gone \<in> level_keys ?w (ck_level k) - level_keys s' (ck_level k)"
      using spec [OF each, of gone] that(1) assms(2)
      by (auto simp: level_keys_def write_txn_trees key_ok_def split: if_splits)
    moreover have "kept \<in> level_keys s' (ck_level k)"
      using that(2,3) by (simp add: level_keys_def)
    ultimately have "stamp_of ?w gone \<le> stamp_of ?w kept"
      by (rule evicted_lru [OF ev])
    then show ?thesis by (simp only: stamp)
  qed
  show ?thesis using s' each lru by blast
qed

theorem sled_put_drops_oldest_witness:
  "\<exists>s'. sled_put (sample_key Response) [1] None 5 6 (around sample_limits) = Some s'
     \<and> (entries s' (key_bytes (sample_key Response)) = Some (entry_of [1] None 5)
        \<or> entries s' (key_bytes (sample_key Response)) = None)"
proof -
  let ?key = "key_bytes (sample_key Response)"
  obtain s' where s': "sled_put (sample_key Response) [1] None 5 6 (around sample_limits) = Some s'"
    and each: "\<forall>j. entries s' j = (if j = ?key then Some (entry_of [1] None 5) else entries (around sample_limits) j)
          \<or> (entries s' j = None \<and> level_of j = ck_level (sample_key Response))"
    using sled_put_drops_oldest [OF around_ok sample_key_ok, of Response "[1]" None 5 6 sample_limits] by blast
  show ?thesis
    using s' spec [OF each, of ?key] by auto
qed

text \<open>
  C15: an entry that was claimed or counted is missing from its level's account. Claiming a
  key nothing holds on a level that already holds at least as much leaves the account where it
  was although the level now holds one entry more, so the level's limit is not enforced
  against claims.
\<close>

theorem sled_claim_unaccounted:
  assumes "sled_ok s" "accounted s" "key_ok k" "limit_of (limits s) (ck_level k) = None"
    and "entries s (key_bytes k) = None" "length (key_bytes k) + 8 \<le> weight_sum s (ck_level k)"
  shows "\<exists>s'. sled_claim k ttl ms us s = Some (True, s') \<and> held s' (ck_level k) = held s (ck_level k)
    \<and> weight_sum s' (ck_level k) = weight_sum s (ck_level k) + length (key_bytes k) + 8"
proof -
  let ?l = "ck_level k" and ?key = "key_bytes k" and ?e = "entry_of [] ttl ms"
  let ?s1 = "s\<lparr>entries := (entries s)(?key \<mapsto> ?e)\<rparr>" and ?s' = "write_txn (ck_level k) (key_bytes k) (entry_of [] ttl ms) us (s\<lparr>entries := (entries s)(key_bytes k \<mapsto> entry_of [] ttl ms)\<rparr>)"
  have len: "length ?e = 8" by (simp add: entry_of_def Let_def)
  have claim: "sled_claim k ttl ms us s = Some (True, ?s')"
    using assms(4,5)
    by (simp add: sled_claim_def Let_def compare_and_swap_def write_entry_unlimited)
  have le: "length ?key + 8 \<le> unat (held s ?l)"
    using assms(2,6) by (simp add: accounted_def)
  then have fits: "length ?key + 8 < 2 ^ 64"
    using unat_less [of "held s ?l"] by simp
  have same: "held ?s1 ?l = held s ?l" by (simp add: held_def)
  have "unat (sat_sub (held s ?l) (weigh ?key 8)) = unat (held s ?l) - (length ?key + 8)"
    using unat_weigh [OF fits] by (simp add: unat_sat_sub)
  then have "unat (sat_add (sat_sub (held s ?l) (weigh ?key 8)) (weigh ?key 8)) = unat (held s ?l)"
    using unat_weigh [OF fits] le unat_less [of "held s ?l"] by (simp add: unat_sat_add)
  then have "held ?s' ?l = held s ?l"
    using len by (simp add: held_update [OF write_txn_trees(4)] same unsigned_word_eqI)
  moreover have "weight_sum ?s' ?l = weight_sum s ?l + length ?key + 8"
    using weight_sum_insert [of s ?s' ?key ?e ?l] assms(1,3,5) len
    by (simp add: sled_ok_def key_ok_def write_txn_trees)
  ultimately show ?thesis using claim by blast
qed

theorem sled_claim_unaccounted_witness:
  "let s = write_txn System (key_bytes (sample_key System)) (entry_of [] None 5) 6 (around no_limits);
       k = \<lparr>ck_key = ''ip:sys:b'', ck_level = System\<rparr> in
     \<exists>s'. sled_claim k None 7 8 s = Some (True, s') \<and> held s' System = held s System
       \<and> weight_sum s' System = weight_sum s System + 16"
proof -
  let ?a = "key_bytes (sample_key System)" and ?k = "\<lparr>ck_key = ''ip:sys:b'', ck_level = System\<rparr>"
  let ?s = "write_txn System ?a (entry_of [] None 5) 6 (around no_limits)"
  have l: "level_of ?a = System"
    using sample_key_ok [of System] by (simp add: key_ok_def sample_key_def)
  have sum: "weight_sum ?s System = 16"
    using around_write_sum [of ?a "entry_of [] None 5" 6 no_limits] l
    by (simp add: sample_key_def key_bytes_def entry_of_def)
  have ok: "sled_ok ?s" and acc: "accounted ?s"
    using write_txn_ok [OF around_ok, of ?a] write_txn_accounted [OF around_ok around_accounted, of ?a "entry_of [] None 5" 6] sum l
    by simp_all
  have k: "key_ok ?k"
    by (simp add: key_ok_def key_bytes_def level_of_def as_bytes_def code_def)
  have "key_bytes ?k \<noteq> ?a"
    by (simp add: key_bytes_def sample_key_def as_bytes_inj)
  then have "entries ?s (key_bytes ?k) = None"
    by (simp add: write_txn_trees) (simp add: around_def)
  then show ?thesis
    using sled_claim_unaccounted [OF ok acc k, of None 7 8] sum
    by (simp add: write_txn_trees key_bytes_def) (simp add: around_def no_limits_def)
qed

end
