(* ===== verification/Sled_Races.thy ===== *)
theory Sled_Races
  imports Sled_Cache
begin

text \<open>
  The standalone backend with several callers at once (\<open>crates/ip-cache/src/standalone.rs\<close>):
  \<open>claim\<close>, \<open>counting\<close>, \<open>publish\<close> and the recorded use of \<open>get\<close>, each cut into the atomic accesses
  it makes to the database, and the interleavings of those accesses.
\<close>

section \<open>Claims that race\<close>

text \<open>
  Where one caller of \<open>claim\<close> stands: about to read the key, with what it read where nothing
  live was there, with its swap done, or returned.
\<close>

datatype claimer = Reading | Seen "bytes option" | Swapped | Returned bool

text \<open>
  One step of a caller for \<open>key\<close> of the unlimited system level. \<open>E i\<close> is the entry caller \<open>i\<close> writes.
  \<open>Elsewhere\<close> is whatever any other operation does to other keys.
\<close>

inductive claim_step ::
  "bytes \<Rightarrow> (nat \<Rightarrow> bytes) \<Rightarrow> u64 set \<Rightarrow> sled \<times> (nat \<Rightarrow> claimer) \<Rightarrow> sled \<times> (nat \<Rightarrow> claimer) \<Rightarrow> bool"
  for key E moments where
  Held: "pc i = Reading \<Longrightarrow> ms \<in> moments \<Longrightarrow> view s ms key \<noteq> None
    \<Longrightarrow> claim_step key E moments (s, pc) (s, pc(i := Returned False))"
| Free: "pc i = Reading \<Longrightarrow> ms \<in> moments \<Longrightarrow> view s ms key = None
    \<Longrightarrow> claim_step key E moments (s, pc) (s, pc(i := Seen (entries s key)))"
| Swap: "pc i = Seen was \<Longrightarrow> compare_and_swap key was (E i) s = Some s'
    \<Longrightarrow> claim_step key E moments (s, pc) (s', pc(i := Swapped))"
| Retry: "pc i = Seen was \<Longrightarrow> compare_and_swap key was (E i) s = None
    \<Longrightarrow> claim_step key E moments (s, pc) (s, pc(i := Reading))"
| Write: "pc i = Swapped \<Longrightarrow> write_entry System key (E i) us ms s = Some s'
    \<Longrightarrow> claim_step key E moments (s, pc) (s', pc(i := Returned True))"
| Elsewhere: "entries s' key = entries s key \<Longrightarrow> limits s' = limits s
    \<Longrightarrow> claim_step key E moments (s, pc) (s', pc)"

definition winner :: "(nat \<Rightarrow> claimer) \<Rightarrow> nat \<Rightarrow> bool" where
  "winner pc i = (pc i = Swapped \<or> pc i = Returned True)"

text \<open>
  Before the first swap the key is as it was found and nobody was refused; after it the key
  carries the one winner's entry.
\<close>

definition race_ok ::
  "bytes \<Rightarrow> (nat \<Rightarrow> bytes) \<Rightarrow> bytes option \<Rightarrow> sled \<times> (nat \<Rightarrow> claimer) \<Rightarrow> bool" where
  "race_ok key E found = (\<lambda>(s, pc).
     lim_system (limits s) = None
     \<and> (\<forall>i was. pc i = Seen was \<longrightarrow> was = found)
     \<and> ((entries s key = found \<and> (\<forall>i. \<not> winner pc i) \<and> (\<forall>i. pc i \<noteq> Returned False))
        \<or> (\<exists>w. entries s key = Some (E w) \<and> (\<forall>i. winner pc i \<longleftrightarrow> i = w))))"

lemma winner_upd:
  "\<not> winner pc i \<Longrightarrow> x \<noteq> Swapped \<Longrightarrow> x \<noteq> Returned True \<Longrightarrow> winner (pc(i := x)) = winner pc"
  "winner pc i \<Longrightarrow> winner (pc(i := Returned True)) = winner pc"
  by (auto simp: winner_def fun_eq_iff)

lemma race_step:
  assumes step: "claim_step key E moments (s, pc) (s', pc')" and inv: "race_ok key E found (s, pc)"
    and live: "\<And>i ms. ms \<in> moments \<Longrightarrow> value_of (E i) ms \<noteq> None"
    and stale: "\<And>ms. ms \<in> moments \<Longrightarrow> Option.bind found (\<lambda>e. value_of e ms) = None" and "moments \<noteq> {}"
  shows "race_ok key E found (s', pc')"
proof -
  obtain m where m: "m \<in> moments" using assms(5) by blast
  have differ: "found \<noteq> Some (E i)" for i
    using live [OF m, of i] stale [OF m] by auto
  show ?thesis
    using step
  proof (cases rule: claim_step.cases)
    case (Held i ms)
    then have "entries s key \<noteq> found" using stale by (auto simp: view_def)
    moreover have "winner pc' = winner pc" using Held by (simp add: winner_upd winner_def [of pc i])
    ultimately show ?thesis using inv Held by (auto simp: race_ok_def split: if_splits)
  next
    case (Free i ms)
    then have "entries s key \<noteq> Some (E w)" for w using live [OF Free(4), of w] by (auto simp: view_def)
    moreover have "winner pc' = winner pc" using Free by (simp add: winner_upd winner_def [of pc i])
    ultimately show ?thesis using inv Free by (auto simp: race_ok_def split: if_splits)
  next
    case (Swap i was)
    then have swapped: "entries s key = found" "entries s' = (entries s)(key \<mapsto> E i)" "limits s' = limits s"
      using inv by (auto simp: race_ok_def compare_and_swap_def split: if_splits)
    then have "\<forall>j. \<not> winner pc j" using inv differ by (auto simp: race_ok_def)
    then have "\<forall>j. winner pc' j \<longleftrightarrow> j = i" using Swap by (simp add: winner_def)
    moreover have "\<forall>j was. pc' j = Seen was \<longrightarrow> was = found"
      using inv by (simp add: race_ok_def Swap(1))
    ultimately show ?thesis
      using inv swapped by (auto simp: race_ok_def)
  next
    case (Retry i was)
    then have "winner pc' = winner pc" by (simp add: winner_upd winner_def [of pc i])
    then show ?thesis using inv unfolding race_ok_def by (simp add: Retry(1,2)) blast
  next
    case (Write i us ms)
    have "lim_system (limits s) = None" using inv by (simp add: race_ok_def)
    then have s': "s' = write_txn System key (E i) us s"
      using Write by (simp add: write_entry_unlimited)
    have "winner pc i" using Write by (simp add: winner_def)
    moreover from this have "winner pc' = winner pc" using Write by (simp add: winner_upd)
    ultimately show ?thesis
      using inv Write s' by (auto simp: race_ok_def write_txn_trees split: if_splits)
  next
    case Elsewhere
    then show ?thesis using inv by (auto simp: race_ok_def)
  qed
qed

lemma race_steps:
  assumes "(claim_step key E moments)\<^sup>*\<^sup>* c c'" and "race_ok key E found c"
    and "\<And>i ms. ms \<in> moments \<Longrightarrow> value_of (E i) ms \<noteq> None"
    and "\<And>ms. ms \<in> moments \<Longrightarrow> Option.bind found (\<lambda>e. value_of e ms) = None" and "moments \<noteq> {}"
  shows "race_ok key E found c'"
  using assms(1,2)
proof (induction rule: rtranclp_induct)
  case (step c1 c2)
  then show ?case
    using race_step [of key E moments "fst c1" "snd c1" "fst c2" "snd c2" found] assms(3-5) by auto
qed

section \<open>Publications that race\<close>

text \<open>One caller of \<open>publish\<close>: its revision and value, and where it stands.\<close>

datatype publisher = PReading | PSeen "bytes option" | PReturned bool

definition published_swap :: "bytes \<Rightarrow> bytes option \<Rightarrow> bytes \<Rightarrow> sled \<Rightarrow> sled option" where
  "published_swap key was new s =
     (if published_tree s key = was then Some (s\<lparr>published_tree := (published_tree s)(key \<mapsto> new)\<rparr>) else None)"

definition publish_seen :: "u64 \<Rightarrow> bytes option \<Rightarrow> (cache_error, publisher) result" where
  "publish_seen revision current =
     (case current of
        None \<Rightarrow> Ok (PSeen None)
      | Some stored \<Rightarrow>
          rbind (decode_published stored) (\<lambda>p.
          Ok (if revision \<le> pub_revision p then PReturned False else PSeen current)))"

inductive publish_step ::
  "bytes \<Rightarrow> (nat \<Rightarrow> published) \<Rightarrow> sled \<times> (nat \<Rightarrow> publisher) \<Rightarrow> sled \<times> (nat \<Rightarrow> publisher) \<Rightarrow> bool"
  for key P where
  PRead: "pc i = PReading \<Longrightarrow> publish_seen (pub_revision (P i)) (published_tree s key) = Ok st
    \<Longrightarrow> publish_step key P (s, pc) (s, pc(i := st))"
| PSwap: "pc i = PSeen was
    \<Longrightarrow> published_swap key was (encode_published (pub_revision (P i)) (pub_value (P i))) s = Some s'
    \<Longrightarrow> publish_step key P (s, pc) (s', pc(i := PReturned True))"
| PRetry: "pc i = PSeen was
    \<Longrightarrow> published_swap key was (encode_published (pub_revision (P i)) (pub_value (P i))) s = None
    \<Longrightarrow> publish_step key P (s, pc) (s, pc(i := PReading))"

definition sled_published :: "bytes \<Rightarrow> sled \<Rightarrow> (cache_error, published option) result" where
  "sled_published key s =
     (case published_tree s key of
        None \<Rightarrow> Ok None
      | Some stored \<Rightarrow> rbind (decode_published stored) (\<lambda>p. Ok (Some p)))"

text \<open>How far a topic has moved, with nothing published below every revision.\<close>

definition reached :: "bytes \<Rightarrow> sled \<Rightarrow> nat" where
  "reached key s =
     (case sled_published key s of Ok (Some p) \<Rightarrow> Suc (unat (pub_revision p)) | _ \<Rightarrow> 0)"

definition publish_ok :: "bytes \<Rightarrow> (nat \<Rightarrow> published) \<Rightarrow> sled \<times> (nat \<Rightarrow> publisher) \<Rightarrow> bool" where
  "publish_ok key P = (\<lambda>(s, pc).
     (\<forall>stored. published_tree s key = Some stored \<longrightarrow> is_ok (decode_published stored))
     \<and> (\<forall>i stored. pc i = PSeen (Some stored) \<longrightarrow>
          (\<exists>p. decode_published stored = Ok p \<and> pub_revision p < pub_revision (P i)))
     \<and> (\<forall>i b. pc i = PReturned b \<longrightarrow> unat (pub_revision (P i)) < reached key s))"

lemma publish_step_keeps:
  assumes "publish_step key P (s, pc) (s', pc')" "publish_ok key P (s, pc)"
  shows "publish_ok key P (s', pc') \<and> reached key s \<le> reached key s'"
  using assms(1)
proof (cases rule: publish_step.cases)
  case (PRead i st)
  then show ?thesis
    using assms(2)
    by (auto simp: publish_ok_def publish_seen_def rbind_Ok_iff reached_def sled_published_def
        word_le_nat_alt word_less_nat_alt not_le split: option.splits if_splits)
next
  case (PSwap i was)
  let ?new = "encode_published (pub_revision (P i)) (pub_value (P i))"
  have s': "published_tree s key = was" "published_tree s' = (published_tree s)(key \<mapsto> ?new)"
    using PSwap by (auto simp: published_swap_def split: if_splits)
  have new: "reached key s' = Suc (unat (pub_revision (P i)))"
    by (simp add: reached_def sled_published_def s'(2))
  have "reached key s \<le> Suc (unat (pub_revision (P i)))"
  proof (cases was)
    case None
    then show ?thesis using s'(1) by (simp add: reached_def sled_published_def)
  next
    case (Some stored)
    then have "\<exists>p. decode_published stored = Ok p \<and> pub_revision p < pub_revision (P i)"
      using assms(2) PSwap by (auto simp: publish_ok_def)
    then obtain p where "decode_published stored = Ok p" "pub_revision p < pub_revision (P i)" by blast
    then show ?thesis
      using Some s'(1) by (simp add: reached_def sled_published_def word_less_nat_alt)
  qed
  then have grows: "reached key s \<le> reached key s'" using new by simp
  show ?thesis
    using assms(2) PSwap s' new grows
    by (auto simp: publish_ok_def is_ok_iff split: if_splits dest: less_le_trans)
next
  case (PRetry i was)
  then show ?thesis using assms(2) by (auto simp: publish_ok_def split: if_splits)
qed

lemma publish_steps_keep:
  "(publish_step key P)\<^sup>*\<^sup>* c c' \<Longrightarrow> publish_ok key P c
   \<Longrightarrow> publish_ok key P c' \<and> reached key (fst c) \<le> reached key (fst c')"
proof (induction rule: rtranclp_induct)
  case (step c1 c2)
  then show ?case
    using publish_step_keeps [of key P "fst c1" "snd c1" "fst c2" "snd c2"] by auto
qed simp

section \<open>Counts that race\<close>

text \<open>One caller of \<open>counting\<close>: about to read, swapped with this total, or returned it.\<close>

datatype counter = CReading | CSeen "bytes option" u64 | CSwapped u64 | CReturned u64

inductive count_step ::
  "(u64 option \<Rightarrow> u64) \<Rightarrow> bytes \<Rightarrow> ttl \<Rightarrow> u64 \<Rightarrow> sled \<times> (nat \<Rightarrow> counter) \<Rightarrow> sled \<times> (nat \<Rightarrow> counter) \<Rightarrow> bool"
  for nxt key ttl ms where
  CRead: "pc i = CReading \<Longrightarrow> view s ms key = None
    \<Longrightarrow> count_step nxt key ttl ms (s, pc) (s, pc(i := CSeen (entries s key) (nxt None)))"
| CReadSome: "pc i = CReading \<Longrightarrow> view s ms key = Some stored \<Longrightarrow> count_of stored = Ok c
    \<Longrightarrow> count_step nxt key ttl ms (s, pc) (s, pc(i := CSeen (entries s key) (nxt (Some c))))"
| CSwap: "pc i = CSeen was n
    \<Longrightarrow> compare_and_swap key was (entry_of (counted_bytes n) (Some ttl) ms) s = Some s'
    \<Longrightarrow> count_step nxt key ttl ms (s, pc) (s', pc(i := CSwapped n))"
| CRetry: "pc i = CSeen was n
    \<Longrightarrow> compare_and_swap key was (entry_of (counted_bytes n) (Some ttl) ms) s = None
    \<Longrightarrow> count_step nxt key ttl ms (s, pc) (s, pc(i := CReading))"
| CWrite: "pc i = CSwapped n
    \<Longrightarrow> write_entry System key (entry_of (counted_bytes n) (Some ttl) ms) us ms s = Some s'
    \<Longrightarrow> count_step nxt key ttl ms (s, pc) (s', pc(i := CReturned n))"

section \<open>A use recorded after its entry is gone\<close>

text \<open>A level that is over its limit and whose oldest index key names no entry.\<close>

definition dangling :: "u64 \<Rightarrow> cache_level \<Rightarrow> sled \<Rightarrow> bool" where
  "dangling limit level s =
     (limit < held s level
      \<and> (case List.find (\<lambda>ix. take 1 ix = [tag_of level]) (index s) of
            None \<Rightarrow> False
          | Some oldest \<Rightarrow> entries s (drop INDEX_PREFIX oldest) = None))"

lemma dangling_stuck:
  assumes "dangling limit level s"
  shows "evict_loop limit level ms s = None"
proof (rule ccontr)
  assume "\<not> ?thesis"
  then obtain s' where s': "evict_loop limit level ms s = Some s'" by auto
  have "\<not> dangling limit level s"
  proof (rule evict_loop.raw_induct [OF _ s', of "\<lambda>limit level _ s _. \<not> dangling limit level s"], rule notI)
    fix loop limit level ms s and s' :: sled
    assume IH: "\<And>limit level ms s s'. loop limit level ms s = Some s' \<Longrightarrow> \<not> dangling limit level s"
      and body: "(if limit < held s level then
          (case List.find (\<lambda>ix. take 1 ix = [tag_of level]) (index s) of
             None \<Rightarrow> Some s
           | Some oldest \<Rightarrow> loop limit level ms (snd (drop_entry level (drop INDEX_PREFIX oldest) ms s)))
        else Some s) = Some s'"
      and d: "dangling limit level s"
    obtain oldest where o: "List.find (\<lambda>ix. take 1 ix = [tag_of level]) (index s) = Some oldest"
      "entries s (drop INDEX_PREFIX oldest) = None" "limit < held s level"
      using d by (auto simp: dangling_def split: option.splits)
    have "snd (drop_entry level (drop INDEX_PREFIX oldest) ms s) = s"
      using o(2) by (simp add: drop_entry_def)
    then have "loop limit level ms s = Some s'" using body o(1,3) by simp
    from IH [OF this] d show False by simp
  qed
  then show False using assms by simp
qed

section \<open>Properties\<close>

text \<open>Two callers on an empty standalone cache, for the witnesses and the runs.\<close>

definition sample_sys :: bytes where
  "sample_sys = key_bytes (sample_key System)"

lemma limits_around [simp]: "limits (around lims) = lims" "entries (around lims) = Map.empty"
  by (simp_all add: around_def)

lemma sample_unlimited [simp]: "lim_system sample_limits = None"
  by (simp add: sample_limits_def)

text \<open>
  C16: however callers claiming one key interleave their reads, swaps and writes, no two of
  them win it, and one is refused only where another has won.
\<close>

theorem claim_race_one_winner:
  assumes "(claim_step key (\<lambda>i. entry_of [] ttl (at i)) moments)\<^sup>*\<^sup>* (s, \<lambda>_. Reading) (s', pc)"
    and "lim_system (limits s) = None" and "\<forall>ms\<in>moments. view s ms key = None"
    and "\<forall>ms\<in>moments. \<forall>i. ms < expiry ttl (at i)"
  shows "(pc i = Returned True \<longrightarrow> pc j = Returned True \<longrightarrow> i = j)
    \<and> (pc i = Returned False \<longrightarrow> (\<exists>w. w \<noteq> i \<and> (pc w = Swapped \<or> pc w = Returned True)))"
proof (cases "moments = {}")
  case True
  have "\<forall>i. snd c i = Reading"
    if "(claim_step key (\<lambda>i. entry_of [] ttl (at i)) {})\<^sup>*\<^sup>* c0 c" "\<forall>i. snd c0 i = Reading" for c0 c
    using that by (induction rule: rtranclp_induct) (auto elim!: claim_step.cases)
  from this [of "(s, \<lambda>_. Reading)" "(s', pc)"] show ?thesis using assms(1) True by simp
next
  case False
  have "race_ok key (\<lambda>i. entry_of [] ttl (at i)) (entries s key) (s', pc)"
    using assms(2-4) False
    by (intro race_steps [OF assms(1)]) (auto simp: race_ok_def winner_def value_of_entry view_def)
  then consider "pc i \<noteq> Returned True" "pc i \<noteq> Returned False"
    | w where "\<And>j. winner pc j \<longleftrightarrow> j = w" unfolding race_ok_def winner_def by blast
  then show ?thesis
  proof cases
    case (2 w)
    have "i = w" if "pc i = Returned True" for i using 2 [of i] that by (simp add: winner_def)
    moreover have "w \<noteq> i" if "pc i = Returned False" using 2 [of i] that by (auto simp: winner_def)
    moreover have "pc w = Swapped \<or> pc w = Returned True" using 2 [of w] by (simp add: winner_def)
    ultimately show ?thesis by blast
  qed simp
qed

theorem claim_race_one_winner_witness:
  "\<exists>s' pc. pc 0 = Swapped \<and> pc 1 = Returned False
     \<and> (claim_step sample_sys (\<lambda>i. entry_of [] None 0) {5})\<^sup>*\<^sup>* (around sample_limits, \<lambda>_. Reading) (s', pc)
     \<and> (\<exists>w. w \<noteq> 1 \<and> (pc w = Swapped \<or> pc w = Returned True))"
proof -
  let ?E = "\<lambda>_ :: nat. entry_of [] None 0" and ?s = "around sample_limits"
  let ?step = "claim_step sample_sys ?E {5}"
  obtain s' where s': "compare_and_swap sample_sys None (entry_of [] None 0) ?s = Some s'"
    by (simp add: compare_and_swap_def)
  then have e: "entries s' sample_sys = Some (entry_of [] None 0)"
    by (auto simp: compare_and_swap_def split: if_splits)
  let ?p0 = "\<lambda>_ :: nat. Reading" let ?p1 = "?p0(0 := Seen None)" let ?p2 = "?p1(1 := Seen None)"
  let ?p3 = "?p2(0 := Swapped)" let ?p4 = "?p3(1 := Reading)" let ?p5 = "?p4(1 := Returned False)"
  have "?step (?s, ?p0) (?s, ?p1)" "?step (?s, ?p1) (?s, ?p2)"
    using claim_step.Free [of ?p0 0 5 "{5}" ?s sample_sys ?E] claim_step.Free [of ?p1 1 5 "{5}" ?s sample_sys ?E]
    by (simp_all add: view_def)
  moreover have "?step (?s, ?p2) (s', ?p3)" "?step (s', ?p3) (s', ?p4)"
    using claim_step.Swap [of ?p2 0 None sample_sys ?E ?s s'] claim_step.Retry [of ?p3 1 None sample_sys ?E s'] s' e
    by (simp_all add: compare_and_swap_def)
  moreover have "?step (s', ?p4) (s', ?p5)"
    using claim_step.Held [of ?p4 1 5 "{5}" s' sample_sys ?E] e by (simp add: view_def value_of_entry expiry_def)
  ultimately have run: "?step\<^sup>*\<^sup>* (?s, ?p0) (s', ?p5)"
    by (meson converse_rtranclp_into_rtranclp rtranclp.rtrancl_refl)
  have "\<exists>w. w \<noteq> 1 \<and> (?p5 w = Swapped \<or> ?p5 w = Returned True)"
    using claim_race_one_winner [of sample_sys None "\<lambda>_. 0" "{5}" ?s s' ?p5 1 1] run
    by (simp add: view_def expiry_def)
  then show ?thesis
    by (intro exI [of _ s'] exI [of _ ?p5] conjI) (use run in \<open>simp_all\<close>)
qed

text \<open>
  C17: a topic only ever moves forward. However publishers interleave their reads and swaps,
  the revision held never falls, and a publisher that has returned, whichever answer it got,
  leaves the topic at its own revision or beyond.
\<close>

theorem publish_race_forward:
  assumes "(publish_step key P)\<^sup>*\<^sup>* (s, \<lambda>_. PReading) (s', pc)" and "is_ok (sled_published key s)"
  shows "reached key s \<le> reached key s'
    \<and> (pc i = PReturned b \<longrightarrow> (\<exists>p. sled_published key s' = Ok (Some p) \<and> pub_revision (P i) \<le> pub_revision p))"
proof -
  have "publish_ok key P (s, \<lambda>_. PReading)"
    using assms(2) by (auto simp: publish_ok_def sled_published_def is_ok_iff rbind_Ok_iff)
  from publish_steps_keep [OF assms(1) this]
  have ok: "publish_ok key P (s', pc)" and "reached key s \<le> reached key s'" by simp_all
  moreover have "\<exists>p. sled_published key s' = Ok (Some p) \<and> pub_revision (P i) \<le> pub_revision p"
    if "pc i = PReturned b"
  proof -
    have "unat (pub_revision (P i)) < reached key s'" using ok that by (simp add: publish_ok_def)
    then show ?thesis by (auto simp: reached_def word_le_nat_alt split: sum.splits option.splits)
  qed
  ultimately show ?thesis by blast
qed

theorem publish_race_forward_witness:
  "\<exists>s' pc. (publish_step [1] (\<lambda>i. \<lparr>pub_revision = 4, pub_value = [7]\<rparr>))\<^sup>*\<^sup>* (around sample_limits, \<lambda>_. PReading) (s', pc)
     \<and> (\<exists>p. sled_published [1] s' = Ok (Some p) \<and> 4 \<le> pub_revision p)"
proof -
  let ?P = "\<lambda>_ :: nat. \<lparr>pub_revision = 4, pub_value = [7]\<rparr>" and ?s = "around sample_limits"
  let ?p0 = "\<lambda>_ :: nat. PReading" let ?p1 = "?p0(0 := PSeen None)" let ?p2 = "?p1(0 := PReturned True)"
  obtain s' where s': "published_swap [1] None (encode_published 4 [7]) ?s = Some s'"
    by (simp add: published_swap_def around_def)
  have "publish_step [1] ?P (?s, ?p0) (?s, ?p1)" "publish_step [1] ?P (?s, ?p1) (s', ?p2)"
    using publish_step.PRead [of ?p0 0 ?P ?s "[1]" "PSeen None"] publish_step.PSwap [of ?p1 0 None "[1]" ?P ?s s'] s'
    by (simp_all add: publish_seen_def around_def)
  then have run: "(publish_step [1] ?P)\<^sup>*\<^sup>* (?s, ?p0) (s', ?p2)"
    by (meson converse_rtranclp_into_rtranclp rtranclp.rtrancl_refl)
  have "\<exists>p. sled_published [1] s' = Ok (Some p) \<and> 4 \<le> pub_revision p"
    using publish_race_forward [OF run, of 0 True] by (simp add: sled_published_def around_def is_ok_iff)
  then show ?thesis using run by blast
qed

text \<open>
  C18: two requests counting one each on a key nobody has counted on can leave the count at
  one. Each swaps its total in and then writes it a second time, and nothing orders the
  second writes: the first total is written back over the second.
\<close>

theorem count_race_loses:
  "\<exists>s' pc. (count_step (\<lambda>c. sat_add (unwrap_or c 0) 1) (key_bytes (sample_key System)) (Ttl 60000000000) 5)\<^sup>*\<^sup>*
       (around sample_limits, \<lambda>_. CReading) (s', pc)
     \<and> pc 0 = CReturned 1 \<and> pc 1 = CReturned 2
     \<and> fst (sled_counted (sample_key System) 6 s') = Ok (Some 1)"
proof -
  let ?k = sample_sys and ?t = "Ttl 60000000000" and ?s = "around sample_limits"
  let ?e = "\<lambda>n. entry_of (counted_bytes n) (Some ?t) 5"
  let ?n = "\<lambda>c. sat_add (unwrap_or c 0) (1 :: u64)"
  let ?step = "count_step ?n ?k ?t 5"
  let ?s1 = "?s\<lparr>entries := (entries ?s)(?k \<mapsto> ?e 1)\<rparr>"
  let ?s2 = "?s1\<lparr>entries := (entries ?s1)(?k \<mapsto> ?e 2)\<rparr>"
  let ?s3 = "write_txn System ?k (?e 2) 8 ?s2" let ?s4 = "write_txn System ?k (?e 1) 9 ?s3"
  let ?p0 = "\<lambda>_ :: nat. CReading" let ?p1 = "?p0(0 := CSeen None 1)" let ?p2 = "?p1(0 := CSwapped 1)"
  let ?p3 = "?p2(1 := CSeen (Some (?e 1)) 2)" let ?p4 = "?p3(1 := CSwapped 2)"
  let ?p5 = "?p4(1 := CReturned 2)" let ?p6 = "?p5(0 := CReturned 1)"
  have live: "5 < expiry (Some ?t) 5" "6 < expiry (Some ?t) 5"
    by (simp_all add: expiry_def as_millis_def u64_or_max_def sat_add_def)
  have sums: "sat_add 0 1 = (1 :: u64)" "sat_add 1 1 = (2 :: u64)" by (simp_all add: sat_add_def)
  have "?step (?s, ?p0) (?s, ?p1)" "?step (?s, ?p1) (?s1, ?p2)"
    using count_step.CRead [of ?p0 0 ?s 5 ?k ?n ?t] count_step.CSwap [of ?p1 0 None 1 ?k ?t 5 ?s ?s1 ?n] sums
    by (simp_all add: view_def compare_and_swap_def)
  moreover have "?step (?s1, ?p2) (?s1, ?p3)"
    using count_step.CReadSome [of ?p2 1 ?s1 5 ?k "counted_bytes 1" 1 ?n ?t] sums live
    by (simp add: view_def value_of_entry)
  moreover have "?step (?s1, ?p3) (?s2, ?p4)"
    using count_step.CSwap [of ?p3 1 "Some (?e 1)" 2 ?k ?t 5 ?s1 ?s2 ?n] by (simp add: compare_and_swap_def)
  moreover have "?step (?s2, ?p4) (?s3, ?p5)" "?step (?s3, ?p5) (?s4, ?p6)"
    using count_step.CWrite [of ?p4 1 2 ?k ?t 5 8 ?s2 ?s3 ?n] count_step.CWrite [of ?p5 0 1 ?k ?t 5 9 ?s3 ?s4 ?n]
    by (simp_all add: write_entry_unlimited write_txn_trees)
  ultimately have "?step\<^sup>*\<^sup>* (?s, ?p0) (?s4, ?p6)"
    by (meson converse_rtranclp_into_rtranclp rtranclp.rtrancl_refl)
  moreover have "fst (sled_counted (sample_key System) 6 ?s4) = Ok (Some 1)"
    using live by (simp add: sled_counted_def write_txn_trees sample_sys_def [symmetric] value_of_entry)
  ultimately show ?thesis
    unfolding sample_sys_def [symmetric] by (intro exI [of _ ?s4] exI [of _ ?p6]) simp
qed

lemma index_key_older:
  assumes "(at :: u64) < us"
  shows "index_key l (to_be_bytes at) k < index_key l (to_be_bytes us) j"
proof (rule ccontr)
  assume "\<not> ?thesis"
  then have "to_be_bytes us @ j \<le> to_be_bytes at @ k" by (simp add: index_key_def not_less)
  then have "to_be_bytes us \<le> to_be_bytes at" using append_le_prefix by (metis length_to_be_bytes)
  then have "nat_of_be (to_be_bytes us) \<le> nat_of_be (to_be_bytes at)"
    using be_bytes_less [of "to_be_bytes us" "to_be_bytes at"] by (auto simp: le_less)
  moreover have "nat_of_be (to_be_bytes w) = unat w" for w :: u64
    using unat_less [of w] by (simp add: to_be_bytes_def nat_of_to_be)
  ultimately have "unat us \<le> unat at" by simp
  then show False using assms by (simp add: word_less_nat_alt)
qed



end
