(* ===== verification/Net.thy ===== *)
theory Net
  imports Prelude
begin

text \<open>
  The part of \<open>std::net\<close> the gateway uses: \<open>IpAddr\<close>, its \<open>FromStr\<close> and \<open>is_loopback\<close>. A reader of the
  standard library's address parser is a function from the text left to what was read and the
  text after it; a reader that fails leaves the text where it was.
\<close>

datatype ip_addr = V4 "u8 list" | V6 "u16 list"

type_synonym 'a reader = "string \<Rightarrow> ('a \<times> string) option"

definition read_given_char :: "char \<Rightarrow> unit reader" where
  "read_given_char c s = (case s of [] \<Rightarrow> None | x # xs \<Rightarrow> if x = c then Some ((), xs) else None)"

definition hex_digit :: "char \<Rightarrow> bool" where
  "hex_digit c = (ascii_digit c \<or> (65 \<le> code c \<and> code c \<le> 70) \<or> (97 \<le> code c \<and> code c \<le> 102))"

definition hex_value :: "char \<Rightarrow> nat" where
  "hex_value c =
     (if ascii_digit c then code c - 48 else if code c \<le> 70 then code c - 55 else code c - 87)"

definition read_number :: "nat \<Rightarrow> (char \<Rightarrow> bool) \<Rightarrow> nat \<Rightarrow> bool \<Rightarrow> nat \<Rightarrow> nat reader" where
  "read_number radix is_digit max_digits allow_zero_prefix bound s =
     (let ds = takeWhile is_digit s; n = foldl (\<lambda>n c. n * radix + hex_value c) 0 ds in
      if ds = [] \<or> max_digits < length ds then None
      else if \<not> allow_zero_prefix \<and> starts_with ds (CHR ''0'') \<and> 1 < length ds then None
      else if n < bound then Some (n, drop (length ds) s) else None)"

definition read_separator :: "char \<Rightarrow> nat \<Rightarrow> 'a reader \<Rightarrow> 'a reader" where
  "read_separator sep i inner s =
     (if i = 0 then inner s
      else case read_given_char sep s of None \<Rightarrow> None | Some (_, r) \<Rightarrow> inner r)"

fun read_octets :: "nat \<Rightarrow> nat \<Rightarrow> u8 list reader" where
  "read_octets i 0 s = Some ([], s)"
| "read_octets i (Suc n) s =
     (case read_separator (CHR ''.'') i (read_number 10 ascii_digit 3 False 256) s of
        None \<Rightarrow> None
      | Some (o1, r) \<Rightarrow>
          (case read_octets (Suc i) n r of
             None \<Rightarrow> None
           | Some (os, r') \<Rightarrow> Some (of_nat o1 # os, r')))"

definition read_ipv4_addr :: "u8 list reader" where
  "read_ipv4_addr s = read_octets 0 4 s"

text \<open>
  Reads up to \<open>n\<close> more groups, the first of them the one at position \<open>i\<close>; the flag says whether
  an embedded IPv4 address ended them, which takes two groups.
\<close>

definition groups_of_v4 :: "u8 list \<Rightarrow> u16 list" where
  "groups_of_v4 os =
     (case os of
        [a, b, c, d] \<Rightarrow> [of_nat (unat a * 256 + unat b), of_nat (unat c * 256 + unat d)]
      | _ \<Rightarrow> [])"

fun read_groups :: "nat \<Rightarrow> nat \<Rightarrow> string \<Rightarrow> (u16 list \<times> bool) \<times> string" where
  "read_groups i 0 s = (([], False), s)"
| "read_groups i (Suc n) s =
     (case (if 1 \<le> n then read_separator (CHR '':'') i read_ipv4_addr s else None) of
        Some (os, r) \<Rightarrow> ((groups_of_v4 os, True), r)
      | None \<Rightarrow>
          (case read_separator (CHR '':'') i (read_number 16 hex_digit 4 True 65536) s of
             None \<Rightarrow> (([], False), s)
           | Some (g, r) \<Rightarrow>
               (let ((gs, v4), r') = read_groups (Suc i) n r in ((of_nat g # gs, v4), r'))))"

definition read_ipv6_addr :: "u16 list reader" where
  "read_ipv6_addr s =
     (let ((head, head_v4), r) = read_groups 0 8 s in
      if length head = 8 then Some (head, r)
      else if head_v4 then None
      else case read_given_char (CHR '':'') r of
             None \<Rightarrow> None
           | Some (_, r1) \<Rightarrow>
               (case read_given_char (CHR '':'') r1 of
                  None \<Rightarrow> None
                | Some (_, r2) \<Rightarrow>
                    (let ((tail, _), r3) = read_groups 0 (8 - (length head + 1)) r2 in
                     Some (head @ replicate (8 - length head - length tail) 0 @ tail, r3))))"

definition parse_ip :: "string \<Rightarrow> ip_addr option" where
  "parse_ip s =
     (case read_ipv4_addr s of
        Some (os, r) \<Rightarrow> if r = [] then Some (V4 os) else None
      | None \<Rightarrow>
          (case read_ipv6_addr s of
             Some (gs, r) \<Rightarrow> if r = [] then Some (V6 gs) else None
           | None \<Rightarrow> None))"

fun is_loopback :: "ip_addr \<Rightarrow> bool" where
  "is_loopback (V4 os) = (case os of a # _ \<Rightarrow> a = 127 | [] \<Rightarrow> False)"
| "is_loopback (V6 gs) = (gs = [0, 0, 0, 0, 0, 0, 0, 1])"

text \<open>\<open>Display for IpAddr\<close>: dotted octets, or groups with the first longest run of zeros folded.\<close>

fun show_hex :: "nat \<Rightarrow> string" where
  "show_hex n =
     (let d = (\<lambda>k. if k < 10 then char_of (48 + k) else char_of (87 + k)) in
      if n < 16 then [d n] else show_hex (n div 16) @ [d (n mod 16)])"

declare show_hex.simps [simp del]

fun join_with :: "string \<Rightarrow> string list \<Rightarrow> string" where
  "join_with sep [] = []"
| "join_with sep [x] = x"
| "join_with sep (x # xs) = x @ sep @ join_with sep xs"

definition v4_fmt :: "u8 list \<Rightarrow> string" where
  "v4_fmt os = join_with ''.'' (map (show_nat \<circ> unat) os)"

text \<open>The longest run of zeros as its start and length, the first one on a tie.\<close>

fun zero_span :: "nat \<Rightarrow> nat \<times> nat \<Rightarrow> nat \<times> nat \<Rightarrow> u16 list \<Rightarrow> nat \<times> nat" where
  "zero_span i current longest [] = longest"
| "zero_span i (start, len) longest (g # gs) =
     (if g = 0 then
        let current = (if len = 0 then i else start, len + 1) in
        zero_span (Suc i) current (if snd longest < snd current then current else longest) gs
      else zero_span (Suc i) (0, 0) longest gs)"

definition v6_fmt :: "u16 list \<Rightarrow> string" where
  "v6_fmt gs =
     (let hex = (\<lambda>gs. join_with '':'' (map (show_hex \<circ> unat) gs));
          octet = (\<lambda>g. [of_nat (unat g div 256), of_nat (unat g mod 256)]);
          (start, len) = zero_span 0 (0, 0) (0, 0) gs in
      if take 6 gs = [0, 0, 0, 0, 0, 65535]
        then ''::ffff:'' @ v4_fmt (concat (map octet (drop 6 gs)))
      else if 1 < len then hex (take start gs) @ ''::'' @ hex (drop (start + len) gs)
      else hex gs)"

fun ip_fmt :: "ip_addr \<Rightarrow> string" where
  "ip_fmt (V4 os) = v4_fmt os"
| "ip_fmt (V6 gs) = v6_fmt gs"

section \<open>What a parsed address can be written with\<close>

text \<open>A reader is \<open>tidy\<close> when it only ever consumes characters of an address.\<close>

definition ip_char :: "char \<Rightarrow> bool" where
  "ip_char c = (hex_digit c \<or> c = CHR ''.'' \<or> c = CHR '':'')"

definition consumes :: "string \<Rightarrow> string \<Rightarrow> bool" where
  "consumes s r = (\<exists>p. s = p @ r \<and> list_all ip_char p)"

lemma consumes_refl [simp]: "consumes s s"
  by (simp add: consumes_def)

lemma consumes_trans: "consumes s r \<Longrightarrow> consumes r t \<Longrightarrow> consumes s t"
  unfolding consumes_def by (metis append.assoc list_all_append)

lemma consumes_char: "read_given_char c s = Some (u, r) \<Longrightarrow> ip_char c \<Longrightarrow> consumes s r"
  by (auto simp: read_given_char_def consumes_def split: list.splits if_splits intro!: exI [of _ "[c]"])

lemma consumes_number:
  assumes "read_number radix P k z b s = Some (n, r)" and "\<And>c. P c \<Longrightarrow> ip_char c"
  shows "consumes s r"
proof -
  have "r = dropWhile P s"
    using assms(1) by (simp add: read_number_def Let_def dropWhile_eq_drop split: if_splits)
  then have "s = takeWhile P s @ r" by simp
  moreover have "list_all ip_char (takeWhile P s)"
    using assms(2) by (auto simp: list_all_iff dest: set_takeWhileD)
  ultimately show ?thesis
    unfolding consumes_def by blast
qed

lemma ip_char_simps [simp]: "ip_char (CHR ''.'')" "ip_char (CHR '':'')" "ascii_digit c \<Longrightarrow> ip_char c"
  "hex_digit c \<Longrightarrow> ip_char c"
  by (auto simp: ip_char_def hex_digit_def)

lemma consumes_separator:
  assumes "read_separator c i inner s = Some (x, r)" "ip_char c"
    and "\<And>t. inner t = Some (x, r) \<Longrightarrow> consumes t r"
  shows "consumes s r"
  using assms
  by (auto simp: read_separator_def split: if_splits option.splits
      intro: consumes_trans dest: consumes_char)

lemma consumes_octets: "read_octets i n s = Some (os, r) \<Longrightarrow> consumes s r"
proof (induction i n s arbitrary: os r rule: read_octets.induct)
  case (2 i n s)
  then obtain o1 t os' where
    t: "read_separator (CHR ''.'') i (read_number 10 ascii_digit 3 False 256) s = Some (o1, t)"
    and rec: "read_octets (Suc i) n t = Some (os', r)"
    by (auto split: option.splits)
  have "consumes s t"
    using t by (rule consumes_separator) (auto intro: consumes_number)
  with 2 t rec show ?case by (auto intro: consumes_trans)
qed simp

lemma consumes_ipv4: "read_ipv4_addr s = Some (os, r) \<Longrightarrow> consumes s r"
  by (simp add: read_ipv4_addr_def consumes_octets)

lemma consumes_groups: "read_groups i n s = (gs, r) \<Longrightarrow> consumes s r"
proof (induction i n s arbitrary: gs r rule: read_groups.induct)
  case (2 i n s)
  have v4: "consumes s t"
    if "(if 1 \<le> n then read_separator (CHR '':'') i read_ipv4_addr s else None) = Some (os, t)" for os t
    using that by (auto intro: consumes_separator consumes_ipv4 split: if_splits)
  have num: "consumes s t"
    if "read_separator (CHR '':'') i (read_number 16 hex_digit 4 True 65536) s = Some (g, t)" for g t
    using that by (rule consumes_separator) (auto intro: consumes_number)
  show ?case
    using 2 v4 num
    by (auto simp: Let_def split: option.splits prod.splits if_splits intro: consumes_trans)
qed simp

lemma consumes_ipv6: "read_ipv6_addr s = Some (gs, r) \<Longrightarrow> consumes s r"
  by (auto simp: read_ipv6_addr_def Let_def split: prod.splits if_splits option.splits
      dest!: consumes_groups consumes_char intro: consumes_trans)

lemma parse_ip_chars: "parse_ip s = Some a \<Longrightarrow> list_all ip_char s"
  using consumes_ipv4 [of s] consumes_ipv6 [of s]
  by (auto simp: parse_ip_def consumes_def split: option.splits if_splits)

section \<open>Evaluating the parser\<close>

named_theorems net_eval \<open>rules that evaluate the address parser on literals\<close>

lemma read_octets_numeral [net_eval]:
  "read_octets i (numeral k) s =
     (case read_separator (CHR ''.'') i (read_number 10 ascii_digit 3 False 256) s of
        None \<Rightarrow> None
      | Some (o1, r) \<Rightarrow>
          (case read_octets (Suc i) (pred_numeral k) r of
             None \<Rightarrow> None
           | Some (os, r') \<Rightarrow> Some (of_nat o1 # os, r')))"
  by (simp only: numeral_eq_Suc read_octets.simps)

lemma read_groups_numeral [net_eval]:
  "read_groups i (numeral k) s =
     (case (if 1 \<le> pred_numeral k then read_separator (CHR '':'') i read_ipv4_addr s else None) of
        Some (os, r) \<Rightarrow> ((groups_of_v4 os, True), r)
      | None \<Rightarrow>
          (case read_separator (CHR '':'') i (read_number 16 hex_digit 4 True 65536) s of
             None \<Rightarrow> (([], False), s)
           | Some (g, r) \<Rightarrow>
               (let ((gs, v4), r') = read_groups (Suc i) (pred_numeral k) r in ((of_nat g # gs, v4), r'))))"
  by (simp only: numeral_eq_Suc read_groups.simps)

lemma replicate_numeral_Cons [net_eval]: "replicate (numeral k) x = x # replicate (pred_numeral k) x"
  by (simp only: numeral_eq_Suc replicate.simps)

lemmas net_eval_defs [net_eval] = parse_ip_def read_ipv4_addr_def read_ipv6_addr_def read_separator_def
  read_given_char_def read_number_def ascii_digit_def hex_digit_def hex_value_def code_def starts_with_def Let_def

lemma parse_localhost: "parse_ip ''127.0.0.1'' = Some (V4 [127, 0, 0, 1])"
  by (simp add: net_eval)

lemma parse_v6_localhost: "parse_ip ''::1'' = Some (V6 [0, 0, 0, 0, 0, 0, 0, 1])"
  by (simp add: net_eval)

end
