(* ===== verification/Routes.thy ===== *)
theory Routes
  imports Core_Id Net
begin

text \<open>
  Routing rules as values: \<open>crates/ip-core/src/route.rs\<close>. A rule maps the endpoint a request
  arrives at to the endpoints it may be sent to. Hosts, ports and paths are checked newtypes;
  \<open>Display\<close> implementations are functions to text.
\<close>

section \<open>Protocols\<close>

datatype protocol = Http | Https | Ws | Wss | Tcp

datatype port = Port (port_get: u16)

fun protocol_name :: "protocol \<Rightarrow> string" where
  "protocol_name Http = ''http''"
| "protocol_name Https = ''https''"
| "protocol_name Ws = ''ws''"
| "protocol_name Wss = ''wss''"
| "protocol_name Tcp = ''tcp''"

fun protocol_as_str :: "protocol \<Rightarrow> string" where
  "protocol_as_str Http = ''http://''"
| "protocol_as_str Https = ''https://''"
| "protocol_as_str Ws = ''ws://''"
| "protocol_as_str Wss = ''wss://''"
| "protocol_as_str Tcp = ''tcp''"

fun default_port :: "protocol \<Rightarrow> port option" where
  "default_port Http = Some (Port 80)"
| "default_port Ws = Some (Port 80)"
| "default_port Https = Some (Port 443)"
| "default_port Wss = Some (Port 443)"
| "default_port Tcp = None"

fun is_forwarded :: "protocol \<Rightarrow> bool" where
  "is_forwarded Http = True"
| "is_forwarded Https = True"
| "is_forwarded _ = False"

fun is_secure :: "protocol \<Rightarrow> bool" where
  "is_secure Https = True"
| "is_secure Wss = True"
| "is_secure _ = False"

definition protocol_from_str :: "string \<Rightarrow> (core_error, protocol) result" where
  "protocol_from_str raw =
     (if raw = ''http://'' \<or> raw = ''http'' then Ok Http
      else if raw = ''https://'' \<or> raw = ''https'' then Ok Https
      else if raw = ''ws://'' \<or> raw = ''ws'' then Ok Ws
      else if raw = ''wss://'' \<or> raw = ''wss'' then Ok Wss
      else if raw = ''tcp'' \<or> raw = ''tcp://'' then Ok Tcp
      else Err (UnknownProtocol raw))"

section \<open>Hosts, ports and paths\<close>

definition HOST_MAX_BYTES :: nat where
  "HOST_MAX_BYTES = 253"

definition HOST_LABEL_MAX_BYTES :: nat where
  "HOST_LABEL_MAX_BYTES = 63"

definition PATH_MAX_BYTES :: nat where
  "PATH_MAX_BYTES = 2048"

definition RESERVED_PATH_PREFIX :: string where
  "RESERVED_PATH_PREFIX = ''/_ip''"

datatype host = Host (host_str: string)

definition label_char :: "char \<Rightarrow> bool" where
  "label_char c = (ascii_alphanumeric c \<or> c = CHR ''-'')"

fun validate_labels :: "string list \<Rightarrow> (core_error, unit) result" where
  "validate_labels [] = Ok ()"
| "validate_labels (label # labels) =
     (if label = [] then Err (Empty ''host label'')
      else if HOST_LABEL_MAX_BYTES < length label
        then Err (TooLong ''host label'' (length label) HOST_LABEL_MAX_BYTES)
      else if starts_with label (CHR ''-'') \<or> ends_with label (CHR ''-'')
        then Err (IllegalChar ''host label'' ''-'')
      else case first_bad label_char label of
             Some ch \<Rightarrow> Err (IllegalChar ''host label'' ch)
           | None \<Rightarrow> validate_labels labels)"

definition validate_host :: "string \<Rightarrow> (core_error, unit) result" where
  "validate_host raw =
     (if raw = [] then Err (Empty ''host'')
      else if HOST_MAX_BYTES < length raw then Err (TooLong ''host'' (length raw) HOST_MAX_BYTES)
      else if parse_ip raw \<noteq> None then Ok ()
      else validate_labels (split_by (\<lambda>c. c = CHR ''.'') raw))"

definition host_new :: "string \<Rightarrow> (core_error, host) result" where
  "host_new raw =
     (let folded = to_ascii_lowercase raw in
      rbind (validate_host folded) (\<lambda>_. Ok (Host folded)))"

definition as_ip :: "host \<Rightarrow> ip_addr option" where
  "as_ip h = parse_ip (host_str h)"

definition port_new :: "u16 \<Rightarrow> (core_error, port) result" where
  "port_new v = (if v = 0 then Err ZeroPort else Ok (Port v))"

definition port_try_from :: "int \<Rightarrow> (core_error, port) result" where
  "port_try_from v =
     rbind (if 0 \<le> v \<and> v \<le> 65535 then Ok (of_int v) else Err (PortOutOfRange v)) port_new"

datatype abs_path = AbsPath (path_str: string)

definition path_char :: "char \<Rightarrow> bool" where
  "path_char c = (ascii_graphic c \<and> c \<noteq> CHR ''?'' \<and> c \<noteq> CHR ''#'')"

definition validate_path :: "string \<Rightarrow> (core_error, unit) result" where
  "validate_path raw =
     (if raw = [] then Err (Empty ''path'')
      else if \<not> starts_with raw (CHR ''/'') then Err (MustStartWith ''path'' (CHR ''/''))
      else if PATH_MAX_BYTES < length raw then Err (TooLong ''path'' (length raw) PATH_MAX_BYTES)
      else case first_bad path_char raw of
             Some ch \<Rightarrow> Err (IllegalChar ''path'' ch)
           | None \<Rightarrow> Ok ())"

definition abs_path_new :: "string \<Rightarrow> (core_error, abs_path) result" where
  "abs_path_new raw = rbind (validate_path raw) (\<lambda>_. Ok (AbsPath raw))"

definition is_reserved :: "abs_path \<Rightarrow> bool" where
  "is_reserved p =
     (case strip_prefix (path_str p) RESERVED_PATH_PREFIX of
        Some rest \<Rightarrow> rest = [] \<or> starts_with rest (CHR ''/'')
      | None \<Rightarrow> False)"

section \<open>Endpoints, targets and rules\<close>

record endpoint =
  ep_protocol :: protocol
  ep_host :: host
  ep_port :: port
  ep_path :: abs_path

definition endpoint_new :: "protocol \<Rightarrow> host \<Rightarrow> port \<Rightarrow> abs_path \<Rightarrow> endpoint" where
  "endpoint_new p h n a = \<lparr>ep_protocol = p, ep_host = h, ep_port = n, ep_path = a\<rparr>"

definition from_parts :: "string \<Rightarrow> string \<Rightarrow> int \<Rightarrow> string \<Rightarrow> (core_error, endpoint) result" where
  "from_parts protocol host port path =
     rbind (protocol_from_str protocol) (\<lambda>p.
     rbind (host_new host) (\<lambda>h.
     rbind (port_try_from port) (\<lambda>n.
     rbind (abs_path_new path) (\<lambda>a.
     Ok \<lparr>ep_protocol = p, ep_host = h, ep_port = n, ep_path = a\<rparr>))))"

definition endpoint_fmt :: "endpoint \<Rightarrow> string" where
  "endpoint_fmt e =
     protocol_as_str (ep_protocol e) @ host_str (ep_host e) @ '':''
     @ show_nat (unat (port_get (ep_port e))) @ path_str (ep_path e)"

record replica =
  rep_host :: host
  rep_port :: port

definition replica_of :: "endpoint \<Rightarrow> replica" where
  "replica_of e = \<lparr>rep_host = ep_host e, rep_port = ep_port e\<rparr>"

definition replica_fmt :: "replica \<Rightarrow> string" where
  "replica_fmt r = host_str (rep_host r) @ '':'' @ show_nat (unat (port_get (rep_port r)))"

datatype route_key = RouteKey (key_endpoint: endpoint)

datatype weight = Weight (weight_get: u32)

definition is_drained :: "weight \<Rightarrow> bool" where
  "is_drained w = (weight_get w = 0)"

definition default_weight :: weight where
  "default_weight = Weight 1"

record weighted =
  w_endpoint :: endpoint
  w_weight :: weight

definition weighted_new :: "endpoint \<Rightarrow> weighted" where
  "weighted_new e = \<lparr>w_endpoint = e, w_weight = default_weight\<rparr>"

definition weighing :: "endpoint \<Rightarrow> weight \<Rightarrow> weighted" where
  "weighing e w = \<lparr>w_endpoint = e, w_weight = w\<rparr>"

datatype strategy = RoundRobin | LeastLoad | Ratio

fun strategy_name :: "strategy \<Rightarrow> string" where
  "strategy_name RoundRobin = ''round_robin''"
| "strategy_name LeastLoad = ''least_load''"
| "strategy_name Ratio = ''ratio''"

definition strategy_named :: "string \<Rightarrow> (core_error, strategy) result" where
  "strategy_named name =
     (if name = ''round_robin'' then Ok RoundRobin
      else if name = ''least_load'' then Ok LeastLoad
      else if name = ''ratio'' then Ok Ratio
      else Err (UnknownStrategy name))"

datatype route_target = RouteTarget (target_weighted: "weighted list")

definition route_target_new :: "endpoint \<Rightarrow> route_target" where
  "route_target_new e = RouteTarget [weighted_new e]"

definition from_weighted :: "weighted list \<Rightarrow> (core_error, route_target) result" where
  "from_weighted ws = (if ws = [] then Err NoEndpoint else Ok (RouteTarget ws))"

definition from_endpoints :: "endpoint list \<Rightarrow> (core_error, route_target) result" where
  "from_endpoints es = from_weighted (map weighted_new es)"

definition target_endpoints :: "route_target \<Rightarrow> endpoint list" where
  "target_endpoints t = map w_endpoint (target_weighted t)"

record route_rule =
  r_api :: api_id
  r_key :: route_key
  r_target :: route_target
  r_strategy :: strategy

section \<open>What a checked endpoint is\<close>

definition host_ok :: "host \<Rightarrow> bool" where
  "host_ok h = (validate_host (host_str h) = Ok () \<and> to_ascii_lowercase (host_str h) = host_str h)"

definition path_ok :: "abs_path \<Rightarrow> bool" where
  "path_ok p = (starts_with (path_str p) (CHR ''/'') \<and> length (path_str p) \<le> 2048
     \<and> list_all path_char (path_str p))"

definition endpoint_ok :: "endpoint \<Rightarrow> bool" where
  "endpoint_ok e = (host_ok (ep_host e) \<and> port_get (ep_port e) \<noteq> 0 \<and> path_ok (ep_path e))"

definition target_ok :: "route_target \<Rightarrow> bool" where
  "target_ok t = (target_weighted t \<noteq> [] \<and> (\<forall>w\<in>set (target_weighted t). endpoint_ok (w_endpoint w)))"

definition rule_ok :: "route_rule \<Rightarrow> bool" where
  "rule_ok r = (id_ok (api_str (r_api r)) \<and> endpoint_ok (key_endpoint (r_key r)) \<and> target_ok (r_target r))"

lemmas route_limits = HOST_MAX_BYTES_def HOST_LABEL_MAX_BYTES_def PATH_MAX_BYTES_def

lemma to_ascii_lowercase_idem [simp]: "to_ascii_lowercase (to_ascii_lowercase s) = to_ascii_lowercase s"
  by (auto simp: to_ascii_lowercase_def ascii_upper_def code_def)

lemma host_new_Ok_iff:
  "host_new raw = Ok h \<longleftrightarrow> host_ok h \<and> host_str h = to_ascii_lowercase raw"
  by (cases h) (auto simp: host_new_def host_ok_def rbind_Ok_iff Let_def)

lemma host_new_str [simp]: "host_ok h \<Longrightarrow> host_new (host_str h) = Ok h"
  by (simp add: host_new_Ok_iff) (simp add: host_ok_def)

lemma port_new_Ok_iff [simp]: "port_new v = Ok p \<longleftrightarrow> v \<noteq> 0 \<and> p = Port v"
  by (auto simp: port_new_def)

lemma port_try_from_Ok_iff:
  "port_try_from v = Ok p \<longleftrightarrow> port_get p \<noteq> 0 \<and> v = int (unat (port_get p))"
proof
  assume "port_try_from v = Ok p"
  then show "port_get p \<noteq> 0 \<and> v = int (unat (port_get p))"
    by (auto simp: port_try_from_def rbind_Ok_iff unsigned_of_int take_bit_int_eq_self split: if_splits)
next
  assume *: "port_get p \<noteq> 0 \<and> v = int (unat (port_get p))"
  moreover have "unat (port_get p) < 65536"
    using unat_less [of "port_get p"] by simp
  then have "int (unat (port_get p)) \<le> 65535" by linarith
  ultimately show "port_try_from v = Ok p"
    by (cases p) (simp add: port_try_from_def rbind_Ok_iff)
qed

lemma first_bad_path: "first_bad path_char raw = None \<longleftrightarrow> list_all path_char raw"
proof -
  have "code c < 128 \<and> path_char c \<longleftrightarrow> path_char c" for c
    using ascii_graphic_lt [of c] by (simp only: path_char_def) blast
  then show ?thesis by (simp only: first_bad_None_iff list_all_iff)
qed

lemma validate_path_Ok_iff [simp]: "validate_path raw = Ok () \<longleftrightarrow> path_ok (AbsPath raw)"
proof (cases "first_bad path_char raw")
  case None
  then show ?thesis
    using first_bad_path [of raw] by (auto simp: validate_path_def path_ok_def route_limits starts_with_iff)
next
  case (Some ch)
  then show ?thesis
    using first_bad_path [of raw] by (auto simp: validate_path_def path_ok_def)
qed

lemma abs_path_new_Ok_iff [simp]: "abs_path_new raw = Ok p \<longleftrightarrow> path_ok p \<and> p = AbsPath raw"
  by (auto simp: abs_path_new_def rbind_Ok_iff)

lemma protocol_from_name [simp]: "protocol_from_str (protocol_name p) = Ok p"
  by (cases p) (simp_all add: protocol_from_str_def)

lemma protocol_from_as_str [simp]: "protocol_from_str (protocol_as_str p) = Ok p"
  by (cases p) (simp_all add: protocol_from_str_def)

lemma strategy_named_name [simp]: "strategy_named (strategy_name s) = Ok s"
  by (cases s) (simp_all add: strategy_named_def)

lemma from_weighted_Ok_iff [simp]: "from_weighted ws = Ok t \<longleftrightarrow> ws \<noteq> [] \<and> t = RouteTarget ws"
  by (auto simp: from_weighted_def)

lemma validate_labels_chars:
  "validate_labels ls = Ok () \<Longrightarrow> l \<in> set ls \<Longrightarrow> list_all label_char l"
proof (induction ls rule: validate_labels.induct)
  case (2 label labels)
  then show ?case
    using first_bad_None_iff [of label_char label]
    by (auto simp: list_all_iff split: if_splits option.splits)
qed simp

text \<open>No host is written with a slash, so an authority ends where its path begins.\<close>

lemma split_by_member: "c \<in> set xs \<Longrightarrow> P c \<or> (\<exists>l\<in>set (split_by P xs). c \<in> set l)"
  by (induction xs) (auto split: list.splits)

lemma host_chars:
  assumes "host_ok h" "c \<in> set (host_str h)"
  shows "ip_char c \<or> label_char c"
proof -
  have "validate_host (host_str h) = Ok ()"
    using assms(1) by (simp add: host_ok_def)
  then consider a where "parse_ip (host_str h) = Some a"
    | "validate_labels (split_by (\<lambda>c. c = CHR ''.'') (host_str h)) = Ok ()"
    by (auto simp: validate_host_def split: if_splits)
  then show ?thesis
  proof cases
    case 1
    then show ?thesis
      using assms(2) parse_ip_chars by (auto simp: list_all_iff)
  next
    case 2
    then show ?thesis
      using split_by_member [OF assms(2), of "\<lambda>c. c = CHR ''.''"] validate_labels_chars [OF 2]
      by (auto simp: list_all_iff ip_char_def)
  qed
qed

lemma not_host_char:
  "\<not> (ip_char (CHR ''/'') \<or> label_char (CHR ''/''))" "\<not> (ip_char (CHR ''['') \<or> label_char (CHR ''[''))"
  "\<not> (ip_char (CHR '']'') \<or> label_char (CHR '']''))"
  by (simp_all add: ip_char_def hex_digit_def label_char_def ascii_alphanumeric_def ascii_digit_def
      ascii_upper_def ascii_lower_def code_def)

lemma host_no_sep:
  assumes "host_ok h"
  shows "CHR ''/'' \<notin> set (host_str h)" "CHR ''['' \<notin> set (host_str h)" "CHR '']'' \<notin> set (host_str h)"
  using host_chars [OF assms] not_host_char by blast+

lemma digit_text_no_sep: "CHR ''/'' \<notin> set (show_nat n)" "CHR '':'' \<notin> set (show_nat n)"
  using show_nat_digits digit_neq by blast+

lemma from_parts_ok: "from_parts p h n a = Ok e \<Longrightarrow> endpoint_ok e"
  by (auto simp: from_parts_def rbind_Ok_iff endpoint_ok_def host_new_Ok_iff port_try_from_Ok_iff)

text \<open>A concrete endpoint, for the witnesses.\<close>

definition sample_endpoint :: "u16 \<Rightarrow> endpoint" where
  "sample_endpoint n =
     \<lparr>ep_protocol = Http, ep_host = Host ''127.0.0.1'', ep_port = Port n, ep_path = AbsPath ''/v1''\<rparr>"

lemma sample_endpoint_ok: "n \<noteq> 0 \<Longrightarrow> endpoint_ok (sample_endpoint n)"
  by (simp add: sample_endpoint_def endpoint_ok_def host_ok_def path_ok_def path_char_def
      ascii_graphic_def starts_with_def validate_host_def route_limits to_ascii_lowercase_def
      ascii_upper_def code_def parse_localhost)

section \<open>Properties\<close>

text \<open>
  An endpoint reads back from the text and number a stored row holds exactly when it is
  one the checked constructors can build; \<open>Endpoint::from_parts\<close> never returns another.
\<close>

lemma endpoint_row_roundtrip:
  "from_parts (protocol_name (ep_protocol e)) (host_str (ep_host e))
     (int (unat (port_get (ep_port e)))) (path_str (ep_path e)) = Ok e
   \<longleftrightarrow> endpoint_ok e"
proof
  assume "endpoint_ok e"
  then show "from_parts (protocol_name (ep_protocol e)) (host_str (ep_host e))
      (int (unat (port_get (ep_port e)))) (path_str (ep_path e)) = Ok e"
    by (cases e) (auto simp: from_parts_def rbind_Ok_iff endpoint_ok_def port_try_from_Ok_iff)
qed (rule from_parts_ok)

text \<open>
  The text an endpoint is displayed as names one endpoint only: two checked endpoints
  that print alike are the same, IPv6 hosts and the scheme written without a separator
  included.
\<close>

lemma endpoint_fmt_inj:
  assumes "endpoint_ok e" "endpoint_ok f" "endpoint_fmt e = endpoint_fmt f"
  shows "e = f"
proof -
  let ?auth = "\<lambda>e. host_str (ep_host e) @ CHR '':'' # show_nat (unat (port_get (ep_port e)))"
  have path: "\<exists>r. path_str (ep_path x) = CHR ''/'' # r" if "endpoint_ok x" for x
    using that by (auto simp: endpoint_ok_def path_ok_def starts_with_iff)
  obtain r s where r: "path_str (ep_path e) = CHR ''/'' # r" and s: "path_str (ep_path f) = CHR ''/'' # s"
    using path assms(1,2) by blast
  have clean: "CHR ''/'' \<notin> set (?auth x)" if "endpoint_ok x" for x
    using that host_no_sep digit_text_no_sep by (auto simp: endpoint_ok_def)
  have "protocol_as_str (ep_protocol e) @ ?auth e @ CHR ''/'' # r
      = protocol_as_str (ep_protocol f) @ ?auth f @ CHR ''/'' # s"
    using assms(3) r s by (simp add: endpoint_fmt_def)
  then have same: "ep_protocol e = ep_protocol f \<and> ?auth e @ CHR ''/'' # r = ?auth f @ CHR ''/'' # s"
    by (cases "ep_protocol e"; cases "ep_protocol f") auto
  then have parts: "?auth e = ?auth f" "r = s"
    using split_unique [of "?auth e" "CHR ''/''" r "?auth f" s] clean assms(1,2) by auto
  then have hp: "host_str (ep_host e) = host_str (ep_host f)
      \<and> show_nat (unat (port_get (ep_port e))) = show_nat (unat (port_get (ep_port f)))"
    using rsplit_unique [of "host_str (ep_host e)" "CHR '':''"] digit_text_no_sep by blast
  then have "ep_port e = ep_port f"
    by (auto simp: show_nat_inj intro: port.expand unsigned_word_eqI)
  then show ?thesis
    using hp same parts(2) r s
    by (intro endpoint.equality) (simp_all add: host.expand abs_path.expand)
qed

end
