(* ===== verification/Periods.thy ===== *)
theory Periods
  imports Core_Id
begin

text \<open>
  What a request costs and what a scope may spend: \<open>crates/ip-core/src/timestamp.rs\<close>, \<open>limit.rs\<close>
  and \<open>usage.rs\<close>. A moment is its count of whole seconds since the unix epoch. The calendar
  comes from the \<open>chrono\<close> package and is a parameter, the record \<open>calendar\<close> of the calls the code
  makes to it.
\<close>

section \<open>Moments\<close>

datatype timestamp = Timestamp (unix_seconds: int)

record calendar =
  timestamp_opt :: "int \<Rightarrow> bool"
  with_day :: "nat \<Rightarrow> int \<Rightarrow> int option"
  with_midnight :: "int \<Rightarrow> int option"
  month_of :: "int \<Rightarrow> nat"
  year_of :: "int \<Rightarrow> int"
  with_month :: "nat \<Rightarrow> int \<Rightarrow> int option"
  with_year :: "int \<Rightarrow> int \<Rightarrow> int option"

definition from_unix_seconds :: "calendar \<Rightarrow> int \<Rightarrow> (core_error, timestamp) result" where
  "from_unix_seconds cal s = (if timestamp_opt cal s then Ok (Timestamp s) else Err (TimestampOutOfRange s))"

definition month_began :: "calendar \<Rightarrow> timestamp \<Rightarrow> timestamp" where
  "month_began cal t =
     Timestamp (unwrap_or (Option.bind (with_day cal 1 (unix_seconds t)) (with_midnight cal)) (unix_seconds t))"

definition next_month :: "calendar \<Rightarrow> timestamp \<Rightarrow> timestamp" where
  "next_month cal t =
     (let first = unix_seconds (month_began cal t);
          nxt = (if month_of cal first = 12
                 then Option.bind (with_year cal (year_of cal first + 1) first) (with_month cal 1)
                 else with_month cal (month_of cal first + 1) first)
      in Timestamp (unwrap_or nxt first))"

section \<open>Limits\<close>

definition MINUTE :: int where "MINUTE = 60"
definition HOUR :: int where "HOUR = 60 * MINUTE"
definition DAY :: int where "DAY = 24 * HOUR"

record limit_scope =
  ls_tenant :: tenant_id
  ls_user :: "user_id option"
  ls_api :: "api_id option"

definition of_tenant :: "tenant_id \<Rightarrow> limit_scope" where
  "of_tenant t = \<lparr>ls_tenant = t, ls_user = None, ls_api = None\<rparr>"

definition narrowed_to_user :: "limit_scope \<Rightarrow> user_id \<Rightarrow> limit_scope" where
  "narrowed_to_user s u = s\<lparr>ls_user := Some u\<rparr>"

definition narrowed_to_api :: "limit_scope \<Rightarrow> api_id \<Rightarrow> limit_scope" where
  "narrowed_to_api s a = s\<lparr>ls_api := Some a\<rparr>"

definition is_none_or :: "'a option \<Rightarrow> ('a \<Rightarrow> bool) \<Rightarrow> bool" where
  "is_none_or x P = (case x of None \<Rightarrow> True | Some a \<Rightarrow> P a)"

definition scope_holds :: "limit_scope \<Rightarrow> tenant_id \<Rightarrow> user_id \<Rightarrow> api_id \<Rightarrow> bool" where
  "scope_holds s t u a =
     (ls_tenant s = t \<and> is_none_or (ls_user s) (\<lambda>named. named = u) \<and> is_none_or (ls_api s) (\<lambda>named. named = a))"

definition narrowness :: "limit_scope \<Rightarrow> u8" where
  "narrowness s = of_bool (ls_user s \<noteq> None) * 2 + of_bool (ls_api s \<noteq> None)"

definition limit_scope_fmt :: "limit_scope \<Rightarrow> string" where
  "limit_scope_fmt s =
     tenant_str (ls_tenant s)
     @ (case ls_user s of Some u \<Rightarrow> ''/'' @ user_str u | None \<Rightarrow> ''/*'')
     @ (case ls_api s of Some a \<Rightarrow> ''/'' @ api_str a | None \<Rightarrow> ''/*'')"

datatype counted_what = Tokens | Requests

fun counted_name :: "counted_what \<Rightarrow> string" where
  "counted_name Tokens = ''tokens''"
| "counted_name Requests = ''requests''"

definition counted_named :: "string \<Rightarrow> (core_error, counted_what) result" where
  "counted_named name =
     (if name = ''tokens'' then Ok Tokens
      else if name = ''requests'' then Ok Requests
      else Err (UnknownCounted name))"

datatype period = Minute | Hour | Day | Month

fun period_name :: "period \<Rightarrow> string" where
  "period_name Minute = ''minute''"
| "period_name Hour = ''hour''"
| "period_name Day = ''day''"
| "period_name Month = ''month''"

definition period_named :: "string \<Rightarrow> (core_error, period) result" where
  "period_named name =
     (if name = ''minute'' then Ok Minute
      else if name = ''hour'' then Ok Hour
      else if name = ''day'' then Ok Day
      else if name = ''month'' then Ok Month
      else Err (UnknownPeriod name))"

text \<open>\<open>div_euclid\<close> by a positive divisor is \<open>div\<close> on integers.\<close>

definition began :: "calendar \<Rightarrow> period \<Rightarrow> timestamp \<Rightarrow> timestamp" where
  "began cal p at =
     (let seconds = unix_seconds at in
      case p of
        Minute \<Rightarrow> unwrap_or (ok (from_unix_seconds cal (seconds div MINUTE * MINUTE))) at
      | Hour \<Rightarrow> unwrap_or (ok (from_unix_seconds cal (seconds div HOUR * HOUR))) at
      | Day \<Rightarrow> unwrap_or (ok (from_unix_seconds cal (seconds div DAY * DAY))) at
      | Month \<Rightarrow> month_began cal at)"

definition ends :: "calendar \<Rightarrow> period \<Rightarrow> timestamp \<Rightarrow> timestamp" where
  "ends cal p at =
     (let b = began cal p at in
      case p of
        Minute \<Rightarrow> unwrap_or (ok (from_unix_seconds cal (unix_seconds b + MINUTE))) at
      | Hour \<Rightarrow> unwrap_or (ok (from_unix_seconds cal (unix_seconds b + HOUR))) at
      | Day \<Rightarrow> unwrap_or (ok (from_unix_seconds cal (unix_seconds b + DAY))) at
      | Month \<Rightarrow> next_month cal b)"

datatype allowance = Allowance (allowance_get: u64)

definition allowance_new :: "u64 \<Rightarrow> (core_error, allowance) result" where
  "allowance_new n = (if n = 0 then Err (Empty ''allowance'') else Ok (Allowance n))"

definition is_spent :: "allowance \<Rightarrow> u64 \<Rightarrow> bool" where
  "is_spent a spent = (allowance_get a \<le> spent)"

section \<open>Usage\<close>

datatype token_count = TokenCount (token_get: u32)

record tokens =
  tok_input :: token_count
  tok_output :: token_count

definition tokens_zero :: tokens where
  "tokens_zero = \<lparr>tok_input = TokenCount 0, tok_output = TokenCount 0\<rparr>"

definition tokens_total :: "tokens \<Rightarrow> u64" where
  "tokens_total t = ucast (token_get (tok_input t)) + ucast (token_get (tok_output t))"

datatype served = Upstream | FromCache

datatype latency = Latency (latency_millis: u32)

definition latency_from_millis :: "nat \<Rightarrow> latency" where
  "latency_from_millis ms = Latency (if ms < 2 ^ 32 then of_nat ms else - 1)"

section \<open>Names, sums and scopes\<close>

lemma counted_named_name [simp]: "counted_named (counted_name c) = Ok c"
  by (cases c) (simp_all add: counted_named_def)

lemma period_named_name [simp]: "period_named (period_name p) = Ok p"
  by (cases p) (simp_all add: period_named_def)

lemma counted_name_inj [simp]: "counted_name c = counted_name d \<longleftrightarrow> c = d"
  by (cases c; cases d) simp_all

lemma period_name_inj [simp]: "period_name p = period_name q \<longleftrightarrow> p = q"
  by (cases p; cases q) simp_all

lemma allowance_new_Ok_iff [simp]: "allowance_new n = Ok a \<longleftrightarrow> n \<noteq> 0 \<and> a = Allowance n"
  by (auto simp: allowance_new_def)

lemma unat_tokens_total:
  "unat (tokens_total t) = unat (token_get (tok_input t)) + unat (token_get (tok_output t))"
proof -
  have "unat (ucast (w :: u32) :: u64) = unat w" for w
    by (simp add: unsigned_ucast_eq take_bit_nat_eq_self_iff less_trans [OF unat_less [of w]])
  then show ?thesis
    using unat_less [of "token_get (tok_input t)"] unat_less [of "token_get (tok_output t)"]
    by (simp add: tokens_total_def unat_word_ariths)
qed

definition limit_scope_ok :: "limit_scope \<Rightarrow> bool" where
  "limit_scope_ok s =
     (id_ok (tenant_str (ls_tenant s))
      \<and> is_none_or (ls_user s) (\<lambda>u. id_ok (user_str u))
      \<and> is_none_or (ls_api s) (\<lambda>a. id_ok (api_str a)))"

section \<open>The civil calendar\<close>

text \<open>
  The Gregorian calendar \<open>chrono\<close> documents, as the number of days from the epoch to the first of
  a month, and what its calls answer for a moment \<open>t\<close>.
\<close>

definition leap :: "int \<Rightarrow> bool" where
  "leap y = (4 dvd y \<and> (\<not> 100 dvd y \<or> 400 dvd y))"

definition month_days :: "int \<Rightarrow> nat \<Rightarrow> int" where
  "month_days y m =
     (if m = 2 then (if leap y then 29 else 28) else if m \<in> {4, 6, 9, 11} then 30 else 31)"

definition year_start :: "int \<Rightarrow> int" where
  "year_start y = 365 * (y - 1970) + ((y - 1) div 4 - (y - 1) div 100 + (y - 1) div 400) - 477"

definition first_of :: "int \<Rightarrow> nat \<Rightarrow> int" where
  "first_of y m = year_start y + sum_list (map (month_days y) [1..<m])"

definition calendar_at :: "calendar \<Rightarrow> int \<Rightarrow> bool" where
  "calendar_at cal t =
     (let y = year_of cal t; m = month_of cal t in
      1 \<le> m \<and> m \<le> 12
      \<and> first_of y m * DAY \<le> t \<and> t < (first_of y m + month_days y m) * DAY
      \<and> with_day cal 1 t = Some (first_of y m * DAY + t mod DAY)
      \<and> with_midnight cal t = Some (t div DAY * DAY)
      \<and> (\<forall>k. 1 \<le> k \<and> k \<le> 12 \<longrightarrow> t = first_of y m * DAY \<longrightarrow> with_month cal k t = Some (first_of y k * DAY))
      \<and> (t = first_of y m * DAY \<longrightarrow> with_year cal (y + 1) t = Some (first_of (y + 1) m * DAY)))"

lemma div_pred:
  assumes "0 < (k :: int)"
  shows "y div k = (y - 1) div k + of_bool (k dvd y)"
proof (cases "k dvd y")
  case True
  then obtain q where q: "y = k * q" by blast
  have "(y - 1) div k = q - 1"
    by (rule int_div_pos_eq [where r = "k - 1"]) (use assms q in \<open>simp_all add: algebra_simps\<close>)
  then show ?thesis using q assms by simp
next
  case False
  then have "0 < y mod k" using assms by (simp add: dvd_eq_mod_eq_0 order.not_eq_order_implies_strict)
  moreover have "y mod k < k" using assms by simp
  ultimately have "(y - 1) div k = y div k"
    by (intro int_div_pos_eq [where r = "y mod k - 1"]) (simp_all add: algebra_simps)
  then show ?thesis using False by simp
qed

lemma year_start_next: "year_start (y + 1) = year_start y + (if leap y then 366 else 365)"
proof -
  have "4 dvd y" if "100 dvd y" using that by (rule dvd_trans [rotated]) simp
  moreover have "100 dvd y" if "400 dvd y" using that by (rule dvd_trans [rotated]) simp
  moreover define q where "q k z = z div k" for k z :: int
  have q: "q k y = q k (y - 1) + of_bool (k dvd y)" if "0 < k" for k
    unfolding q_def by (rule div_pred [OF that])
  have start: "year_start z = 365 * (z - 1970) + (q 4 (z - 1) - q 100 (z - 1) + q 400 (z - 1)) - 477" for z
    unfolding q_def year_start_def by (rule refl)
  ultimately show ?thesis
    using q [of 4] q [of 100] q [of 400] start [of y] start [of "y + 1"]
    by (cases "4 dvd y"; cases "100 dvd y"; cases "400 dvd y") (simp_all add: leap_def)
qed

lemma months_of_year: "first_of y 12 + month_days y 12 = year_start (y + 1)"
  by (simp add: first_of_def month_days_def year_start_next upt_rec)

lemma first_of_next: "1 \<le> m \<Longrightarrow> first_of y (m + 1) = first_of y m + month_days y m"
  by (simp add: first_of_def)

text \<open>Months counted from year zero, whose first days only ever grow.\<close>

definition month_start :: "int \<Rightarrow> int" where
  "month_start n = first_of (n div 12) (nat (n mod 12) + 1)"

lemma first_of_month_start: "1 \<le> m \<Longrightarrow> m \<le> 12 \<Longrightarrow> first_of y m = month_start (12 * y + int m - 1)"
proof -
  assume m: "1 \<le> m" "m \<le> 12"
  have "(12 * y + int m - 1) div 12 = y" "(12 * y + int m - 1) mod 12 = int m - 1"
    using m by (auto intro!: int_div_pos_eq [where r = "int m - 1"] int_mod_pos_eq [where q = y])
  moreover have "Suc (nat (int m - 1)) = m" using m by simp
  ultimately show ?thesis using m by (simp add: month_start_def)
qed

lemma first_of_end:
  assumes "1 \<le> m" "m \<le> 12"
  shows "first_of y m + month_days y m = month_start (12 * y + int m)"
proof (cases "m = 12")
  case True
  then show ?thesis
    using months_of_year [of y] first_of_month_start [of 1 "y + 1"] by (simp add: first_of_def algebra_simps)
next
  case False
  then show ?thesis
    using assms first_of_next [of m y] first_of_month_start [of "m + 1" y] by simp
qed

lemma month_start_Suc: "month_start n < month_start (n + 1)"
proof -
  let ?m = "nat (n mod 12) + 1"
  have m: "1 \<le> ?m" "?m \<le> 12" "12 * (n div 12) + int ?m = n + 1"
    by (simp_all add: nat_le_iff)
  have "0 < month_days (n div 12) ?m" by (simp add: month_days_def)
  then show ?thesis using first_of_end [OF m(1,2), of "n div 12"] m(3) by (simp add: month_start_def)
qed

lemma month_start_less: "i < j \<Longrightarrow> month_start i < month_start j"
  by (induction rule: int_gr_induct) (use month_start_Suc less_trans in blast)+

lemma month_unique:
  assumes "month_start i \<le> d" "d < month_start (i + 1)" "month_start j \<le> d" "d < month_start (j + 1)"
  shows "i = j"
proof (rule ccontr)
  assume "i \<noteq> j"
  then consider "i + 1 \<le> j" | "j + 1 \<le> i" by linarith
  then show False
  proof cases
    case 1
    then have "month_start (i + 1) \<le> month_start j"
      using month_start_less [of "i + 1" j] by (cases "i + 1 = j") auto
    then show ?thesis using assms by linarith
  next
    case 2
    then have "month_start (j + 1) \<le> month_start i"
      using month_start_less [of "j + 1" i] by (cases "j + 1 = i") auto
    then show ?thesis using assms by linarith
  qed
qed

text \<open>The day a moment falls on, for a moment the calendar answers for.\<close>

lemma le_div_iff_int: "0 < k \<Longrightarrow> (a :: int) \<le> t div k \<longleftrightarrow> a * k \<le> t"
proof
  assume k: "0 < k" and "a \<le> t div k"
  then have "a * k \<le> t div k * k" by (simp add: mult_right_mono)
  also have "\<dots> \<le> t" using div_mult_mod_eq [of t k] pos_mod_sign [OF k, of t] by linarith
  finally show "a * k \<le> t" .
next
  assume "0 < k" "a * k \<le> t"
  then show "a \<le> t div k" using zdiv_mono1 [of "a * k" t k] by simp
qed

lemma calendar_month:
  assumes "calendar_at cal t"
  shows "month_start (12 * year_of cal t + int (month_of cal t) - 1) \<le> t div DAY"
    and "t div DAY < month_start (12 * year_of cal t + int (month_of cal t) - 1 + 1)"
proof -
  have DAY: "0 < DAY" by (simp add: DAY_def HOUR_def MINUTE_def)
  have m: "1 \<le> month_of cal t" "month_of cal t \<le> 12"
    and lo: "first_of (year_of cal t) (month_of cal t) * DAY \<le> t"
    and hi: "t < (first_of (year_of cal t) (month_of cal t) + month_days (year_of cal t) (month_of cal t)) * DAY"
    using assms by (simp_all add: calendar_at_def Let_def)
  show "month_start (12 * year_of cal t + int (month_of cal t) - 1) \<le> t div DAY"
    using lo DAY by (simp add: first_of_month_start [OF m, symmetric] le_div_iff_int)
  show "t div DAY < month_start (12 * year_of cal t + int (month_of cal t) - 1 + 1)"
    using hi DAY by (simp add: first_of_end [OF m] le_div_iff_int flip: not_le)
qed

lemma month_split:
  "12 * y + int m - 1 = 12 * y' + int m' - 1 \<Longrightarrow> 1 \<le> m \<Longrightarrow> m \<le> 12 \<Longrightarrow> 1 \<le> m' \<Longrightarrow> m' \<le> 12 \<Longrightarrow> y = y' \<and> m = m'"
  by (cases y y' rule: linorder_cases) auto

lemma calendar_year:
  assumes "calendar_at cal (first_of y m * DAY)" "1 \<le> m" "m \<le> 12"
  shows "year_of cal (first_of y m * DAY) = y" and "month_of cal (first_of y m * DAY) = m"
proof -
  let ?t = "first_of y m * DAY"
  have DAY: "0 < DAY" by (simp add: DAY_def HOUR_def MINUTE_def)
  have m: "1 \<le> month_of cal ?t" "month_of cal ?t \<le> 12" using assms(1) by (simp_all add: calendar_at_def Let_def)
  have "12 * year_of cal ?t + int (month_of cal ?t) - 1 = 12 * y + int m - 1"
    using calendar_month [OF assms(1)] month_start_Suc [of "12 * y + int m - 1"] DAY
      first_of_month_start [OF assms(2,3), of y]
    by (intro month_unique [where d = "first_of y m"]) simp_all
  from month_split [OF this m assms(2,3)] show "year_of cal ?t = y" "month_of cal ?t = m" by simp_all
qed

section \<open>Properties\<close>

lemma clock_period:
  assumes "0 < k" "\<forall>s. at - k \<le> s \<and> s \<le> at + k \<longrightarrow> timestamp_opt cal s"
  shows "from_unix_seconds cal (at div k * k) = Ok (Timestamp (at div k * k))"
    and "from_unix_seconds cal (at div k * k + k) = Ok (Timestamp (at div k * k + k))"
    and "at div k * k \<le> at" and "at < at div k * k + k"
proof -
  show le: "at div k * k \<le> at" and lt: "at < at div k * k + k"
    using div_mult_mod_eq [of at k] pos_mod_sign [OF assms(1), of at] pos_mod_bound [OF assms(1), of at] by linarith+
  have "timestamp_opt cal (at div k * k)" using assms(2) [rule_format, of "at div k * k"] le lt by simp
  moreover have "timestamp_opt cal (at div k * k + k)"
    using assms(2) [rule_format, of "at div k * k + k"] le lt assms(1) by simp
  ultimately show "from_unix_seconds cal (at div k * k) = Ok (Timestamp (at div k * k))"
    and "from_unix_seconds cal (at div k * k + k) = Ok (Timestamp (at div k * k + k))"
    by (simp_all add: from_unix_seconds_def)
qed

lemma month_period:
  assumes at: "\<And>t. first_of (year_of cal at) (month_of cal at) * DAY \<le> t \<Longrightarrow> t \<le> at \<Longrightarrow> calendar_at cal t"
    and "calendar_at cal at" and dec: "calendar_at cal (first_of (year_of cal at + 1) 12 * DAY)"
  defines "n \<equiv> 12 * year_of cal at + int (month_of cal at) - 1"
  shows "began cal Month (Timestamp at) = Timestamp (month_start n * DAY)"
    and "ends cal Month (Timestamp at) = Timestamp (month_start (n + 1) * DAY)"
    and "month_start n * DAY \<le> at" and "at < month_start (n + 1) * DAY"
proof -
  let ?y = "year_of cal at" and ?m = "month_of cal at"
  have DAY: "0 < DAY" by (simp add: DAY_def HOUR_def MINUTE_def)
  have m: "1 \<le> ?m" "?m \<le> 12" using assms(2) by (simp_all add: calendar_at_def Let_def)
  have n: "first_of ?y ?m = month_start n" using first_of_month_start [OF m] by (simp add: n_def)
  show lo: "month_start n * DAY \<le> at" and hi: "at < month_start (n + 1) * DAY"
    using calendar_month [OF assms(2)] DAY by (simp_all add: n_def le_div_iff_int flip: not_le)
  have within: "0 \<le> at mod DAY" "at mod DAY < DAY" using DAY by simp_all
  have "month_start n * DAY + at mod DAY \<le> at"
  proof -
    have "month_start n * DAY \<le> at div DAY * DAY"
      using calendar_month(1) [OF assms(2)] DAY by (simp add: n_def mult_right_mono)
    then show ?thesis using div_mult_mod_eq [of at DAY] by linarith
  qed
  then have first: "calendar_at cal (month_start n * DAY + at mod DAY)" "calendar_at cal (month_start n * DAY)"
    using at n within(1) lo by simp_all
  have began: "month_began cal (Timestamp at) = Timestamp (month_start n * DAY)"
    using assms(2) first(1) n DAY within by (simp add: month_began_def calendar_at_def Let_def div_pos_pos_trivial)
  then show "began cal Month (Timestamp at) = Timestamp (month_start n * DAY)"
    by (simp add: began_def Let_def)
  let ?b = "month_start n * DAY"
  have same: "12 * year_of cal ?b + int (month_of cal ?b) - 1 = n"
    using calendar_month [OF first(2)] month_start_Suc [of n] DAY
    by (intro month_unique [where d = "month_start n"]) simp_all
  have mb: "1 \<le> month_of cal ?b" "month_of cal ?b \<le> 12" using first(2) by (simp_all add: calendar_at_def Let_def)
  then have eq: "year_of cal ?b = ?y" "month_of cal ?b = ?m"
    using month_split [of "year_of cal ?b" "month_of cal ?b" ?y ?m] same m by (simp_all add: n_def)
  have self: "month_began cal (Timestamp ?b) = Timestamp ?b"
    using first(2) n eq DAY by (simp add: month_began_def calendar_at_def Let_def)
  have "next_month cal (Timestamp ?b) = Timestamp (month_start (n + 1) * DAY)"
  proof (cases "?m = 12")
    case True
    have "year_of cal (first_of (?y + 1) 12 * DAY) = ?y + 1" "month_of cal (first_of (?y + 1) 12 * DAY) = 12"
      using calendar_year [OF dec] by simp_all
    then have "with_month cal 1 (first_of (?y + 1) 12 * DAY) = Some (first_of (?y + 1) 1 * DAY)"
      using dec by (simp add: calendar_at_def Let_def)
    moreover have "with_year cal (?y + 1) ?b = Some (first_of (?y + 1) 12 * DAY)"
      using first(2) n eq True by (simp add: calendar_at_def Let_def)
    moreover have "first_of (?y + 1) 1 = month_start (n + 1)"
      using first_of_month_start [of 1 "?y + 1"] True by (simp add: n_def algebra_simps)
    ultimately show ?thesis using self eq True by (simp add: next_month_def Let_def)
  next
    case False
    then have "with_month cal (?m + 1) ?b = Some (first_of ?y (?m + 1) * DAY)"
      using first(2) n eq m by (simp add: calendar_at_def Let_def)
    moreover have "first_of ?y (?m + 1) = month_start (n + 1)"
      using first_of_month_start [of "?m + 1" ?y] m False by (simp add: n_def algebra_simps)
    ultimately show ?thesis using self eq False by (simp add: next_month_def Let_def)
  qed
  then show "ends cal Month (Timestamp at) = Timestamp (month_start (n + 1) * DAY)"
    using began by (simp add: ends_def began_def Let_def)
qed


text \<open>A calendar that answers for January 1970 and for December 1971.\<close>

definition sample_calendar :: calendar where
  "sample_calendar =
     (let year = (\<lambda>t. if t < 31 * DAY then 1970 else 1971); month = (\<lambda>t. if t < 31 * DAY then 1 else 12) in
      \<lparr>timestamp_opt = \<lambda>_. True, with_day = \<lambda>_ t. Some (first_of (year t) (month t) * DAY + t mod DAY),
       with_midnight = \<lambda>t. Some (t div DAY * DAY), month_of = month, year_of = year,
       with_month = \<lambda>k t. Some (first_of (year t) k * DAY), with_year = \<lambda>y t. Some (first_of y (month t) * DAY)\<rparr>)"


end
