(* ===== verification/Plugin_Rules.thy ===== *)
theory Plugin_Rules
  imports Core_Id Periods
begin

text \<open>
  Which plugin runs where and for whom: \<open>crates/ip-core/src/plugin.rs\<close>. A checksum is the digest
  of a plugin's wasm; the digest and the hex codec are parameters.
\<close>

datatype checksum = Checksum (checksum_bytes: bytes)

definition checksum_of :: "hash_fun \<Rightarrow> bytes \<Rightarrow> checksum" where
  "checksum_of sha256 wasm = Checksum (sha256 wasm)"

definition checksum_from_hex :: "hex_decoder \<Rightarrow> string \<Rightarrow> (core_error, checksum) result" where
  "checksum_from_hex hex_decode raw =
     map_sum id Checksum (decode_hex hex_decode DIGEST_BYTES ''plugin checksum'' raw)"

definition checksum_to_hex :: "hex_encoder \<Rightarrow> checksum \<Rightarrow> string" where
  "checksum_to_hex hex_encode c = hex_encode (checksum_bytes c)"

definition checksum_matches :: "hash_fun \<Rightarrow> checksum \<Rightarrow> bytes \<Rightarrow> bool" where
  "checksum_matches sha256 c wasm = (checksum_of sha256 wasm = c)"

definition PRIMARY_ORDER_MAX :: u8 where
  "PRIMARY_ORDER_MAX = 63"

datatype plugin_order = PluginOrder (order_get: u8)

definition is_primary :: "plugin_order \<Rightarrow> bool" where
  "is_primary n = (order_get n \<le> PRIMARY_ORDER_MAX)"

datatype plugin_kind = ReqHeader | ReqBody | RespHeader | RespBody | RespChunk

fun kind_name :: "plugin_kind \<Rightarrow> string" where
  "kind_name ReqHeader = ''req_header''"
| "kind_name ReqBody = ''req_body''"
| "kind_name RespHeader = ''resp_header''"
| "kind_name RespBody = ''resp_body''"
| "kind_name RespChunk = ''resp_chunk''"

fun is_header :: "plugin_kind \<Rightarrow> bool" where
  "is_header ReqHeader = True"
| "is_header RespHeader = True"
| "is_header _ = False"

definition kind_from_str :: "string \<Rightarrow> (core_error, plugin_kind) result" where
  "kind_from_str raw =
     (if raw = ''req_header'' then Ok ReqHeader
      else if raw = ''req_body'' then Ok ReqBody
      else if raw = ''resp_header'' then Ok RespHeader
      else if raw = ''resp_body'' then Ok RespBody
      else if raw = ''resp_chunk'' then Ok RespChunk
      else Err (UnknownPluginKind raw))"

datatype plugin_scope = Global | InTenant tenant_id "user_id option" "api_id option"

fun plugin_scope_name :: "plugin_scope \<Rightarrow> string" where
  "plugin_scope_name Global = ''global''"
| "plugin_scope_name (InTenant _ _ _) = ''tenant''"

fun plugin_scope_tenant :: "plugin_scope \<Rightarrow> tenant_id option" where
  "plugin_scope_tenant Global = None"
| "plugin_scope_tenant (InTenant t _ _) = Some t"

fun scope_contains :: "plugin_scope \<Rightarrow> tenant_id \<Rightarrow> user_id \<Rightarrow> api_id \<Rightarrow> bool" where
  "scope_contains Global t u a = True"
| "scope_contains (InTenant owner only_user only_api) t u a =
     (owner = t \<and> is_none_or only_user (\<lambda>only. only = u) \<and> is_none_or only_api (\<lambda>only. only = a))"

definition check_order :: "plugin_order \<Rightarrow> plugin_scope \<Rightarrow> (core_error, unit) result" where
  "check_order n s =
     (if is_primary n = (s = Global) then Ok ()
      else Err (OrderOutOfScope (order_get n) (plugin_scope_name s)))"

record new_plugin_rule =
  nr_checksum :: checksum
  nr_order :: plugin_order
  nr_scope :: plugin_scope

definition new_plugin_rule_new ::
  "checksum \<Rightarrow> plugin_order \<Rightarrow> plugin_scope \<Rightarrow> (core_error, new_plugin_rule) result" where
  "new_plugin_rule_new c n s =
     rbind (check_order n s) (\<lambda>_. Ok \<lparr>nr_checksum = c, nr_order = n, nr_scope = s\<rparr>)"

record plugin_rule =
  pl_checksum :: checksum
  pl_kind :: plugin_kind
  pl_order :: plugin_order
  pl_scope :: plugin_scope

definition with_kind :: "new_plugin_rule \<Rightarrow> plugin_kind \<Rightarrow> plugin_rule" where
  "with_kind r k = \<lparr>pl_checksum = nr_checksum r, pl_kind = k, pl_order = nr_order r, pl_scope = nr_scope r\<rparr>"

definition plugin_rule_new ::
  "checksum \<Rightarrow> plugin_kind \<Rightarrow> plugin_order \<Rightarrow> plugin_scope \<Rightarrow> (core_error, plugin_rule) result" where
  "plugin_rule_new c k n s =
     rbind (check_order n s) (\<lambda>_. Ok \<lparr>pl_checksum = c, pl_kind = k, pl_order = n, pl_scope = s\<rparr>)"

definition applies_to :: "plugin_rule \<Rightarrow> tenant_id \<Rightarrow> user_id \<Rightarrow> api_id \<Rightarrow> bool" where
  "applies_to r t u a = scope_contains (pl_scope r) t u a"

section \<open>Facts\<close>

lemma kind_from_name [simp]: "kind_from_str (kind_name k) = Ok k"
  by (cases k) (simp_all add: kind_from_str_def)

lemma kind_name_inj [simp]: "kind_name k = kind_name l \<longleftrightarrow> k = l"
  by (cases k; cases l) simp_all

lemma check_order_Ok_iff [simp]: "check_order n s = Ok () \<longleftrightarrow> is_primary n = (s = Global)"
  by (auto simp: check_order_def)

lemma plugin_rule_new_Ok_iff [simp]:
  "plugin_rule_new c k n s = Ok r \<longleftrightarrow>
     is_primary n = (s = Global) \<and> r = \<lparr>pl_checksum = c, pl_kind = k, pl_order = n, pl_scope = s\<rparr>"
  by (auto simp: plugin_rule_new_def rbind_Ok_iff)

lemma new_plugin_rule_new_Ok_iff [simp]:
  "new_plugin_rule_new c n s = Ok r \<longleftrightarrow>
     is_primary n = (s = Global) \<and> r = \<lparr>nr_checksum = c, nr_order = n, nr_scope = s\<rparr>"
  by (auto simp: new_plugin_rule_new_def rbind_Ok_iff)

end
