(* ===== verification/Store_Types.thy ===== *)
theory Store_Types
  imports Capabilities Routes Plugin_Rules "HOL-Library.List_Lexorder" "HOL-Library.Char_ord"
begin

text \<open>
  The records every storage backend reads and writes and how their values are spelled in
  columns: \<open>crates/ip-storage/src/model.rs\<close>, \<open>error.rs\<close>, \<open>codec.rs\<close>, \<open>limit.rs\<close>, \<open>usage.rs\<close>,
  \<open>list.rs\<close>, \<open>plugin.rs\<close> and \<open>revision.rs\<close>. Surrogate keys are integers. The explanatory text of a
  malformed row is not carried.
\<close>

section \<open>The packages the code calls\<close>

record crates =
  sha256 :: hash_fun
  hex_encode :: hex_encoder
  hex_decode :: hex_decoder
  cal :: calendar

text \<open>What \<open>sha2\<close> and \<open>hex\<close> document of themselves.\<close>

definition crates_ok :: "crates \<Rightarrow> bool" where
  "crates_ok c =
     ((\<forall>b. length (sha256 c b) = DIGEST_BYTES)
      \<and> (\<forall>b. hex_decode c (hex_encode c b) = Some b \<and> length (hex_encode c b) = 2 * length b))"

section \<open>Errors\<close>

datatype entity =
  EntTenant | EntUser | EntMembership | EntGrant | EntRoute | EntPlugin | EntPluginRule
| EntRuleRevision | EntUsage | EntLimit

datatype storage_error =
    NotFound entity string
  | Conflict entity string
  | InUse entity string
  | ValueError core_error
  | Malformed entity
  | Backend

abbreviation value_of_type :: "core_error + 'a \<Rightarrow> storage_error + 'a" where
  "value_of_type \<equiv> map_err ValueError"

section \<open>Records\<close>

datatype account_kind = SystemAdministrator | Regular
datatype standing = Owner | OrdinaryMember

record tenant =
  tenant_row_id :: int
  tenant_name :: tenant_id
  tenant_key :: tn_key
  tenant_created :: timestamp

record new_tenant =
  nt_id :: tenant_id
  nt_key :: tn_key

record user =
  user_row_id :: int
  user_name :: user_id
  user_passphrase :: passphrase_hash
  user_kind :: account_kind
  user_created :: timestamp

record new_user =
  nu_id :: user_id
  nu_passphrase :: passphrase_hash
  nu_kind :: account_kind

record membership =
  mb_user :: user_id
  mb_tenant :: tenant_id
  mb_standing :: standing

record tenant_with_owner =
  two_tenant :: tenant
  two_owner :: user
  two_membership :: membership

record user_with_membership =
  uwm_user :: user
  uwm_membership :: membership

record member_removed =
  mr_membership :: membership
  mr_revoked :: nat

record limit =
  lm_scope :: limit_scope
  lm_counted :: counted_what
  lm_period :: period
  lm_allowance :: allowance
  lm_created :: timestamp

record new_limit =
  nl_scope :: limit_scope
  nl_counted :: counted_what
  nl_period :: period
  nl_allowance :: allowance

record new_usage =
  nu_trace :: trace_id
  nu_turn :: "turn_id option"
  nu_tenant :: tenant_id
  nu_user :: user_id
  nu_api :: api_id
  nu_model :: "model_name option"
  nu_tokens :: tokens
  nu_served :: served
  nu_served_by :: "replica option"
  nu_latency :: latency

record usage =
  us_row_id :: int
  us_spent :: new_usage
  us_created :: timestamp

record usage_filter =
  uf_tenant :: "tenant_id option"
  uf_user :: "user_id option"
  uf_api :: "api_id option"

record plugin_record =
  plr_row_id :: int
  plr_checksum :: checksum
  plr_kind :: plugin_kind
  plr_size :: nat
  plr_created :: timestamp

record stored_plugin =
  sp_record :: plugin_record
  sp_wasm :: bytes

datatype plugin_owner = OwnerGlobal | OwnerTenant tenant_id

fun owner_tenant :: "plugin_owner \<Rightarrow> tenant_id option" where
  "owner_tenant OwnerGlobal = None"
| "owner_tenant (OwnerTenant t) = Some t"

definition owner_of_scope :: "plugin_scope \<Rightarrow> plugin_owner" where
  "owner_of_scope s = (case plugin_scope_tenant s of Some t \<Rightarrow> OwnerTenant t | None \<Rightarrow> OwnerGlobal)"

record new_plugin =
  np_kind :: plugin_kind
  np_wasm :: bytes
  np_owner :: plugin_owner

record plugin_uploaded =
  pu_plugin :: plugin_record
  pu_owned_at :: timestamp

record plugin_disowned =
  pd_plugin :: plugin_record
  pd_swept :: bool

datatype rule_revision = RuleRevision (revision_get: u64)

record rule_set =
  rs_revision :: rule_revision
  rs_routes :: "route_rule list"
  rs_rules :: "plugin_rule list"
  rs_limits :: "limit list"

section \<open>Pages\<close>

definition DEFAULT_PAGE_LIMIT :: u32 where "DEFAULT_PAGE_LIMIT = 20"
definition MAX_PAGE_LIMIT :: u32 where "MAX_PAGE_LIMIT = 100"

record page =
  pg_limit :: u32
  pg_offset :: u32
  pg_after :: "timestamp option"

definition page_new :: "u32 \<Rightarrow> u32 \<Rightarrow> timestamp option \<Rightarrow> page" where
  "page_new limit offset after =
     \<lparr>pg_limit = max 1 (min MAX_PAGE_LIMIT limit), pg_offset = offset, pg_after = after\<rparr>"

definition page_default :: page where
  "page_default = page_new DEFAULT_PAGE_LIMIT 0 None"

definition after_seconds :: "page \<Rightarrow> int" where
  "after_seconds p = (case pg_after p of Some t \<Rightarrow> unix_seconds t | None \<Rightarrow> - (2 ^ 63))"

record 'a listed =
  li_item :: 'a
  li_created :: timestamp

section \<open>Columns\<close>

definition tenant_key_read :: "bytes \<Rightarrow> (storage_error, tn_key) result" where
  "tenant_key_read b = (if length b = TN_KEY_BYTES then Ok (TnKey b) else Err (Malformed EntTenant))"

fun account_kind_name :: "account_kind \<Rightarrow> string" where
  "account_kind_name SystemAdministrator = ''sysadmin''"
| "account_kind_name Regular = ''regular''"

definition account_kind_read :: "string \<Rightarrow> (storage_error, account_kind) result" where
  "account_kind_read name =
     (if name = ''sysadmin'' then Ok SystemAdministrator
      else if name = ''regular'' then Ok Regular
      else Err (Malformed EntUser))"

fun standing_name :: "standing \<Rightarrow> string" where
  "standing_name Owner = ''owner''"
| "standing_name OrdinaryMember = ''member''"

definition standing_read :: "string \<Rightarrow> (storage_error, standing) result" where
  "standing_read name =
     (if name = ''owner'' then Ok Owner
      else if name = ''member'' then Ok OrdinaryMember
      else Err (Malformed EntMembership))"

fun capability_name :: "capability \<Rightarrow> string" where
  "capability_name TenantMgr = ''tenant_mgr''"
| "capability_name UserMgr = ''user_mgr''"
| "capability_name ApiAccess = ''api_access''"
| "capability_name ApiAdvMgr = ''api_adv_mgr''"
| "capability_name LimitMgr = ''limit_mgr''"
| "capability_name SysAgent = ''sys_agent''"
| "capability_name Observer = ''observer''"

definition capability_read :: "string \<Rightarrow> (storage_error, capability) result" where
  "capability_read name =
     (if name = ''tenant_mgr'' then Ok TenantMgr
      else if name = ''user_mgr'' then Ok UserMgr
      else if name = ''api_access'' then Ok ApiAccess
      else if name = ''api_adv_mgr'' then Ok ApiAdvMgr
      else if name = ''limit_mgr'' then Ok LimitMgr
      else if name = ''sys_agent'' then Ok SysAgent
      else if name = ''observer'' then Ok Observer
      else Err (Malformed EntGrant))"

fun scope_read :: "user_id \<Rightarrow> string option \<Rightarrow> string option \<Rightarrow> (storage_error, capability_scope) result" where
  "scope_read user None None = Ok (AtUser user)"
| "scope_read user (Some t) None =
     rbind (value_of_type (tenant_id_new t)) (\<lambda>tenant. Ok (AtTenant user tenant))"
| "scope_read user (Some t) (Some a) =
     rbind (value_of_type (tenant_id_new t)) (\<lambda>tenant.
     rbind (value_of_type (api_id_new a)) (\<lambda>api. Ok (AtApi user tenant api)))"
| "scope_read user None (Some a) = Err (Malformed EntGrant)"

text \<open>\<open>Option::transpose\<close> after \<open>map\<close>.\<close>

definition opt_read :: "('a \<Rightarrow> 'e + 'b) \<Rightarrow> 'a option \<Rightarrow> 'e + 'b option" where
  "opt_read f x = (case x of None \<Rightarrow> Ok None | Some a \<Rightarrow> map_sum id Some (f a))"

definition plugin_order_read :: "int \<Rightarrow> (storage_error, plugin_order) result" where
  "plugin_order_read pos =
     (if 0 \<le> pos \<and> pos < 256 then Ok (PluginOrder (of_int pos)) else Err (Malformed EntPluginRule))"

definition plugin_scope_read ::
  "string option \<Rightarrow> string option \<Rightarrow> string option \<Rightarrow> (storage_error, plugin_scope) result" where
  "plugin_scope_read tenant usr api =
     (case tenant of
        None \<Rightarrow> if usr \<noteq> None \<or> api \<noteq> None then Err (Malformed EntPluginRule) else Ok Global
      | Some t \<Rightarrow>
          rbind (value_of_type (tenant_id_new t)) (\<lambda>tenant.
          rbind (value_of_type (opt_read user_id_new usr)) (\<lambda>usr.
          rbind (value_of_type (opt_read api_id_new api)) (\<lambda>api. Ok (InTenant tenant usr api)))))"

fun served_name :: "served \<Rightarrow> string" where
  "served_name Upstream = ''upstream''"
| "served_name FromCache = ''cache''"

definition served_read :: "string \<Rightarrow> (storage_error, served) result" where
  "served_read name =
     (if name = ''upstream'' then Ok Upstream
      else if name = ''cache'' then Ok FromCache
      else Err (Malformed EntUsage))"

definition token_count_read :: "int \<Rightarrow> (storage_error, token_count) result" where
  "token_count_read n =
     (if 0 \<le> n \<and> n < 2 ^ 32 then Ok (TokenCount (of_int n)) else Err (Malformed EntUsage))"

definition latency_read :: "int \<Rightarrow> (storage_error, latency) result" where
  "latency_read ms = (if 0 \<le> ms then Ok (latency_from_millis (nat ms)) else Err (Malformed EntUsage))"

section \<open>Every column reads back what was written\<close>

lemma column_roundtrips [simp]:
  "account_kind_read (account_kind_name k) = Ok k"
  "standing_read (standing_name st) = Ok st"
  "capability_read (capability_name c) = Ok c"
  "served_read (served_name sv) = Ok sv"
  by (cases k, simp_all add: account_kind_read_def, cases st, simp_all add: standing_read_def,
      cases c, simp_all add: capability_read_def, cases sv, simp_all add: served_read_def)

lemma capability_name_inj [simp]: "capability_name c = capability_name d \<longleftrightarrow> c = d"
  by (metis column_roundtrips(3) sum.inject(2))

lemma opt_read_simps [simp]:
  "opt_read f None = Ok None" "opt_read f (Some a) = map_sum id Some (f a)"
  by (simp_all add: opt_read_def)

lemma scope_read_scope:
  "scope_user s = u \<Longrightarrow> is_none_or (scope_tenant s) (\<lambda>t. id_ok (tenant_str t))
   \<Longrightarrow> is_none_or (scope_api s) (\<lambda>a. id_ok (api_str a))
   \<Longrightarrow> scope_read u (map_option tenant_str (scope_tenant s)) (map_option api_str (scope_api s)) = Ok s"
  by (cases s) (auto simp: is_none_or_def rbind_Ok_iff map_err_Ok_iff)

lemma page_bounds: "1 \<le> pg_limit (page_new l off after)" "pg_limit (page_new l off after) \<le> 100"
  by (simp_all add: page_new_def MAX_PAGE_LIMIT_def min_def max_def word_le_nat_alt)

end
