(* ===== verification/Schema.thy ===== *)
theory Schema
  imports Store_Types
begin

text \<open>
  The sqlite database the standalone store keeps: the tables of
  \<open>crates/ip-storage/migrations/sqlite\<close>, and what a statement does to them. A table is the list of
  its rows in the order they were written. A new row's key is one past the largest in the table,
  which is how sqlite numbers an \<open>INTEGER PRIMARY KEY\<close>; \<open>usage\<close> alone is \<open>AUTOINCREMENT\<close>. Foreign
  keys are on, deletes cascade, and the triggers of \<open>0006_rule_revision.sql\<close> and
  \<open>0008_limits.sql\<close> move the revision on once for every row changed.
\<close>

section \<open>Tables\<close>

record tenant_row =
  t_row :: int
  t_id :: string
  t_key :: bytes
  t_created :: int

record user_row =
  u_row :: int
  u_id :: string
  u_passphrase :: string
  u_kind :: string
  u_created :: int

record member_row =
  m_tenant :: int
  m_user :: int
  m_standing :: string
  m_created :: int

record grant_row =
  g_row :: int
  g_user :: int
  g_tenant :: "int option"
  g_api :: "string option"
  g_cap :: string
  g_created :: int

record route_row =
  ro_row :: int
  ro_api :: string
  ro_protocol :: string
  ro_host :: string
  ro_port :: int
  ro_path :: string
  ro_strategy :: string
  ro_created :: int

record target_row =
  rt_row :: int
  rt_route :: int
  rt_position :: int
  rt_protocol :: string
  rt_host :: string
  rt_port :: int
  rt_path :: string
  rt_weight :: int

record plugin_row =
  p_row :: int
  p_checksum :: string
  p_kind :: string
  p_wasm :: bytes
  p_created :: int

record rule_row =
  pr_row :: int
  pr_plugin :: int
  pr_tenant :: "int option"
  pr_user :: "int option"
  pr_api :: "string option"
  pr_kind :: string
  pr_position :: int
  pr_created :: int

record owner_row =
  ow_plugin :: int
  ow_tenant :: "int option"
  ow_created :: int

record usage_row =
  us_row :: int
  us_trace :: string
  us_turn :: "string option"
  us_tenant :: string
  us_user :: string
  us_api :: string
  us_model :: "string option"
  us_input :: int
  us_output :: int
  us_served :: string
  us_host :: "string option"
  us_port :: "int option"
  us_latency :: int
  us_at :: int

record limit_row =
  l_row :: int
  l_tenant :: int
  l_user :: "int option"
  l_api :: "string option"
  l_counted :: string
  l_period :: string
  l_allowance :: int
  l_created :: int

record db =
  tenants :: "tenant_row list"
  users :: "user_row list"
  memberships :: "member_row list"
  grants_tbl :: "grant_row list"
  routes_tbl :: "route_row list"
  targets_tbl :: "target_row list"
  plugins_tbl :: "plugin_row list"
  rules_tbl :: "rule_row list"
  owners_tbl :: "owner_row list"
  limits_tbl :: "limit_row list"
  revision :: int
  usage_tbl :: "usage_row list"
  usage_seq :: int

definition fresh_db :: db where
  "fresh_db =
     \<lparr>tenants = [], users = [], memberships = [], grants_tbl = [], routes_tbl = [], targets_tbl = [],
      plugins_tbl = [], rules_tbl = [], owners_tbl = [], limits_tbl = [], revision = 0,
      usage_tbl = [], usage_seq = 0\<rparr>"

section \<open>Statements\<close>

definition lookup :: "('r \<Rightarrow> 'k) \<Rightarrow> 'k \<Rightarrow> 'r list \<Rightarrow> 'r option" where
  "lookup f k rows = List.find (\<lambda>r. f r = k) rows"

definition next_row :: "int list \<Rightarrow> int" where
  "next_row ids = fold max ids 0 + 1"

definition has_row :: "('r \<Rightarrow> 'k) \<Rightarrow> 'k \<Rightarrow> 'r list \<Rightarrow> bool" where
  "has_row f k rows = list_ex (\<lambda>r. f r = k) rows"

definition bump :: "nat \<Rightarrow> db \<Rightarrow> db" where
  "bump n d = d\<lparr>revision := revision d + int n\<rparr>"

text \<open>Delete the rows of a table the revision is kept for, moving it on once for each.\<close>

definition drop_rules :: "(rule_row \<Rightarrow> bool) \<Rightarrow> db \<Rightarrow> db" where
  "drop_rules P d =
     bump (length (filter P (rules_tbl d))) (d\<lparr>rules_tbl := filter (\<lambda>r. \<not> P r) (rules_tbl d)\<rparr>)"

definition drop_limits :: "(limit_row \<Rightarrow> bool) \<Rightarrow> db \<Rightarrow> db" where
  "drop_limits P d =
     bump (length (filter P (limits_tbl d))) (d\<lparr>limits_tbl := filter (\<lambda>r. \<not> P r) (limits_tbl d)\<rparr>)"

definition drop_targets :: "(target_row \<Rightarrow> bool) \<Rightarrow> db \<Rightarrow> db" where
  "drop_targets P d =
     bump (length (filter P (targets_tbl d))) (d\<lparr>targets_tbl := filter (\<lambda>r. \<not> P r) (targets_tbl d)\<rparr>)"

text \<open>\<open>DELETE FROM tenants\<close>, \<open>users\<close>, \<open>routes\<close> and \<open>plugins\<close>, by key, with what cascades.\<close>

definition delete_tenant_row :: "int \<Rightarrow> db \<Rightarrow> db" where
  "delete_tenant_row k d =
     drop_limits (\<lambda>r. l_tenant r = k)
       (drop_rules (\<lambda>r. pr_tenant r = Some k)
         (d\<lparr>tenants := filter (\<lambda>r. t_row r \<noteq> k) (tenants d),
            memberships := filter (\<lambda>r. m_tenant r \<noteq> k) (memberships d),
            grants_tbl := filter (\<lambda>r. g_tenant r \<noteq> Some k) (grants_tbl d),
            owners_tbl := filter (\<lambda>r. ow_tenant r \<noteq> Some k) (owners_tbl d)\<rparr>))"

definition delete_user_row :: "int \<Rightarrow> db \<Rightarrow> db" where
  "delete_user_row k d =
     drop_limits (\<lambda>r. l_user r = Some k)
       (drop_rules (\<lambda>r. pr_user r = Some k)
         (d\<lparr>users := filter (\<lambda>r. u_row r \<noteq> k) (users d),
            memberships := filter (\<lambda>r. m_user r \<noteq> k) (memberships d),
            grants_tbl := filter (\<lambda>r. g_user r \<noteq> k) (grants_tbl d)\<rparr>))"

definition delete_route_rows :: "(route_row \<Rightarrow> bool) \<Rightarrow> db \<Rightarrow> db" where
  "delete_route_rows P d =
     (let gone = filter P (routes_tbl d) in
      drop_targets (\<lambda>t. rt_route t \<in> ro_row ` set gone)
        (bump (length gone) (d\<lparr>routes_tbl := filter (\<lambda>r. \<not> P r) (routes_tbl d)\<rparr>)))"

text \<open>A plugin some rule still runs may not go: \<open>ON DELETE NO ACTION\<close>.\<close>

definition delete_plugin_row :: "int \<Rightarrow> db \<Rightarrow> db option" where
  "delete_plugin_row k d =
     (if has_row pr_plugin k (rules_tbl d) then None
      else Some (d\<lparr>plugins_tbl := filter (\<lambda>r. p_row r \<noteq> k) (plugins_tbl d),
                   owners_tbl := filter (\<lambda>r. ow_plugin r \<noteq> k) (owners_tbl d)\<rparr>))"

definition null_or_row :: "('r \<Rightarrow> 'k) \<Rightarrow> 'k option \<Rightarrow> 'r list \<Rightarrow> bool" where
  "null_or_row f k rows = (case k of None \<Rightarrow> True | Some k \<Rightarrow> has_row f k rows)"

section \<open>Looking rows up\<close>

lemma lookup_None_iff: "lookup f k rows = None \<longleftrightarrow> k \<notin> f ` set rows"
  by (auto simp: lookup_def find_None_iff)

lemma lookup_SomeD: "lookup f k rows = Some r \<Longrightarrow> r \<in> set rows \<and> f r = k"
  by (auto simp: lookup_def find_Some_iff)

lemma lookup_Some_iff:
  "distinct (map f rows) \<Longrightarrow> lookup f k rows = Some r \<longleftrightarrow> r \<in> set rows \<and> f r = k"
proof
  assume d: "distinct (map f rows)" and r: "r \<in> set rows \<and> f r = k"
  then obtain r' where r': "lookup f k rows = Some r'"
    by (cases "lookup f k rows") (auto simp: lookup_None_iff)
  have "r' = r" using d r lookup_SomeD [OF r'] by (auto simp: distinct_map inj_on_def)
  then show "lookup f k rows = Some r" using r' by simp
qed (rule lookup_SomeD)

lemma lookup_append: "lookup f k (xs @ ys) = (case lookup f k xs of Some r \<Rightarrow> Some r | None \<Rightarrow> lookup f k ys)"
  by (induction xs) (auto simp: lookup_def)

lemma lookup_single [simp]: "lookup f k [r] = (if f r = k then Some r else None)"
  by (simp add: lookup_def)

lemma lookup_Nil [simp]: "lookup f k [] = None"
  by (simp add: lookup_def)

lemma has_row_iff: "has_row f k rows \<longleftrightarrow> k \<in> f ` set rows"
  by (auto simp: has_row_def list_ex_iff)

lemma lookup_filter:
  "distinct (map f rows) \<Longrightarrow>
   lookup f k (filter P rows) = (case lookup f k rows of Some r \<Rightarrow> if P r then Some r else None | None \<Rightarrow> None)"
proof -
  assume d: "distinct (map f rows)"
  then have d': "distinct (map f (filter P rows))" by (simp add: distinct_map_filter)
  show ?thesis
  proof (cases "lookup f k rows")
    case None
    then have "lookup f k (filter P rows) = None" by (auto simp: lookup_None_iff)
    then show ?thesis using None by simp
  next
    case (Some r)
    have "lookup f k (filter P rows) = None" if "\<not> P r"
      using that d lookup_SomeD [OF Some] by (auto simp: lookup_None_iff distinct_map dest: inj_onD)
    moreover have "lookup f k (filter P rows) = Some r" if "P r"
      using that lookup_Some_iff [OF d'] lookup_SomeD [OF Some] by simp
    ultimately show ?thesis using Some by simp
  qed
qed

lemma fold_max_ge: "(a :: int) \<le> fold max xs a" "x \<in> set xs \<Longrightarrow> x \<le> fold max xs a"
proof (induction xs arbitrary: a)
  case (Cons y ys)
  { case 1
    show ?case using Cons.IH(1) [of "max y a"] by simp
  next
    case 2
    then show ?case using Cons.IH(1) [of "max y a"] Cons.IH(2) [of "max y a"] by auto }
qed simp_all

lemma next_row_fresh: "1 \<le> next_row ids" "next_row ids \<notin> set ids"
  using fold_max_ge(1) [of 0 ids] fold_max_ge(2) [of _ ids 0] by (force simp: next_row_def)+

lemma bump_fields [simp]:
  "tenants (bump n d) = tenants d" "users (bump n d) = users d" "memberships (bump n d) = memberships d"
  "grants_tbl (bump n d) = grants_tbl d" "routes_tbl (bump n d) = routes_tbl d"
  "targets_tbl (bump n d) = targets_tbl d" "plugins_tbl (bump n d) = plugins_tbl d"
  "rules_tbl (bump n d) = rules_tbl d" "owners_tbl (bump n d) = owners_tbl d"
  "limits_tbl (bump n d) = limits_tbl d" "revision (bump n d) = revision d + int n"
  "usage_tbl (bump n d) = usage_tbl d" "usage_seq (bump n d) = usage_seq d"
  by (simp_all add: bump_def)

end
