(* ===== verification/Store_Identity.thy ===== *)
theory Store_Identity
  imports Schema
begin

text \<open>
  Tenants, users, memberships and grants in sqlite, and the transactions over them:
  \<open>crates/ip-storage/src/sqlite/identity.rs\<close> and \<open>transaction/user_create.rs\<close>, \<open>member_add.rs\<close>,
  \<open>member_remove.rs\<close>. A write gives back its value and the database it leaves; an error leaves
  the database as it was, which for the transactions is their rollback. \<open>now\<close> is the clock.
\<close>

section \<open>Statements\<close>

definition insert_tenant :: "new_tenant \<Rightarrow> timestamp \<Rightarrow> db \<Rightarrow> (storage_error, tenant \<times> db) result" where
  "insert_tenant new now d =
     (if has_row t_id (tenant_str (nt_id new)) (tenants d)
      then Err (Conflict EntTenant (tenant_str (nt_id new)))
      else
        let k = next_row (map t_row (tenants d)) in
        Ok (\<lparr>tenant_row_id = k, tenant_name = nt_id new, tenant_key = nt_key new, tenant_created = now\<rparr>,
            d\<lparr>tenants := tenants d @
                [\<lparr>t_row = k, t_id = tenant_str (nt_id new), t_key = tn_bytes (nt_key new),
                  t_created = unix_seconds now\<rparr>]\<rparr>))"

definition insert_user :: "new_user \<Rightarrow> timestamp \<Rightarrow> db \<Rightarrow> (storage_error, user \<times> db) result" where
  "insert_user new now d =
     (if has_row u_id (user_str (nu_id new)) (users d)
      then Err (Conflict EntUser (user_str (nu_id new)))
      else
        let k = next_row (map u_row (users d)) in
        Ok (\<lparr>user_row_id = k, user_name = nu_id new, user_passphrase = nu_passphrase new,
             user_kind = nu_kind new, user_created = now\<rparr>,
            d\<lparr>users := users d @
                [\<lparr>u_row = k, u_id = user_str (nu_id new), u_passphrase = phc_str (nu_passphrase new),
                  u_kind = account_kind_name (nu_kind new), u_created = unix_seconds now\<rparr>]\<rparr>))"

definition tenant_row_id_of :: "tenant_id \<Rightarrow> db \<Rightarrow> (storage_error, int) result" where
  "tenant_row_id_of ident d =
     ok_or (map_option t_row (lookup t_id (tenant_str ident) (tenants d))) (NotFound EntTenant (tenant_str ident))"

definition user_row_id_of :: "user_id \<Rightarrow> db \<Rightarrow> (storage_error, int) result" where
  "user_row_id_of ident d =
     ok_or (map_option u_row (lookup u_id (user_str ident) (users d))) (NotFound EntUser (user_str ident))"

definition upsert_membership :: "int \<Rightarrow> int \<Rightarrow> standing \<Rightarrow> timestamp \<Rightarrow> db \<Rightarrow> db" where
  "upsert_membership tk uk st now d =
     (if list_ex (\<lambda>r. m_tenant r = tk \<and> m_user r = uk) (memberships d)
      then d\<lparr>memberships := map (\<lambda>r. if m_tenant r = tk \<and> m_user r = uk
                                     then r\<lparr>m_standing := standing_name st\<rparr> else r) (memberships d)\<rparr>
      else d\<lparr>memberships := memberships d @
               [\<lparr>m_tenant = tk, m_user = uk, m_standing = standing_name st, m_created = unix_seconds now\<rparr>]\<rparr>)"

definition insert_membership :: "membership \<Rightarrow> timestamp \<Rightarrow> db \<Rightarrow> (storage_error, db) result" where
  "insert_membership m now d =
     rbind (tenant_row_id_of (mb_tenant m) d) (\<lambda>tk.
     rbind (user_row_id_of (mb_user m) d) (\<lambda>uk.
     Ok (upsert_membership tk uk (mb_standing m) now d)))"

text \<open>A subselect that finds no row is null, which equals nothing.\<close>

definition in_scope_of :: "user_id \<Rightarrow> tenant_id \<Rightarrow> db \<Rightarrow> int \<Rightarrow> int \<Rightarrow> bool" where
  "in_scope_of u t d uk tk =
     (map_option u_row (lookup u_id (user_str u) (users d)) = Some uk
      \<and> map_option t_row (lookup t_id (tenant_str t) (tenants d)) = Some tk)"

definition delete_membership ::
  "user_id \<Rightarrow> tenant_id \<Rightarrow> db \<Rightarrow> (storage_error, membership \<times> db) result" where
  "delete_membership u t d =
     (let here = (\<lambda>r. in_scope_of u t d (m_user r) (m_tenant r)) in
      case List.find here (memberships d) of
        None \<Rightarrow> Err (NotFound EntMembership (user_str u @ ''@'' @ tenant_str t))
      | Some r \<Rightarrow>
          rbind (standing_read (m_standing r)) (\<lambda>st.
          Ok (\<lparr>mb_user = u, mb_tenant = t, mb_standing = st\<rparr>,
              d\<lparr>memberships := filter (\<lambda>r. \<not> here r) (memberships d)\<rparr>)))"

definition delete_grants_in_tenant ::
  "user_id \<Rightarrow> tenant_id \<Rightarrow> db \<Rightarrow> (storage_error, nat \<times> db) result" where
  "delete_grants_in_tenant u t d =
     (let here = (\<lambda>r. case g_tenant r of None \<Rightarrow> False | Some tk \<Rightarrow> in_scope_of u t d (g_user r) tk) in
      Ok (length (filter here (grants_tbl d)), d\<lparr>grants_tbl := filter (\<lambda>r. \<not> here r) (grants_tbl d)\<rparr>))"

section \<open>Tenants and users\<close>

definition store_tenant :: "crates \<Rightarrow> tenant_id \<Rightarrow> db \<Rightarrow> (storage_error, tenant option) result" where
  "store_tenant c ident d =
     (case lookup t_id (tenant_str ident) (tenants d) of
        None \<Rightarrow> Ok None
      | Some r \<Rightarrow>
          rbind (tenant_key_read (t_key r)) (\<lambda>key.
          rbind (value_of_type (from_unix_seconds (cal c) (t_created r))) (\<lambda>at.
          Ok (Some \<lparr>tenant_row_id = t_row r, tenant_name = ident, tenant_key = key, tenant_created = at\<rparr>))))"

definition delete_tenant :: "tenant_id \<Rightarrow> db \<Rightarrow> (storage_error, db) result" where
  "delete_tenant ident d =
     (case lookup t_id (tenant_str ident) (tenants d) of
        None \<Rightarrow> Err (NotFound EntTenant (tenant_str ident))
      | Some r \<Rightarrow> Ok (delete_tenant_row (t_row r) d))"

definition store_user :: "crates \<Rightarrow> user_id \<Rightarrow> db \<Rightarrow> (storage_error, user option) result" where
  "store_user c ident d =
     (case lookup u_id (user_str ident) (users d) of
        None \<Rightarrow> Ok None
      | Some r \<Rightarrow>
          rbind (value_of_type (passphrase_hash_new (u_passphrase r))) (\<lambda>hash.
          rbind (account_kind_read (u_kind r)) (\<lambda>kind.
          rbind (value_of_type (from_unix_seconds (cal c) (u_created r))) (\<lambda>at.
          Ok (Some \<lparr>user_row_id = u_row r, user_name = ident, user_passphrase = hash, user_kind = kind,
                    user_created = at\<rparr>)))))"

definition set_passphrase :: "user_id \<Rightarrow> passphrase_hash \<Rightarrow> db \<Rightarrow> (storage_error, db) result" where
  "set_passphrase ident hash d =
     (if has_row u_id (user_str ident) (users d)
      then Ok (d\<lparr>users := map (\<lambda>r. if u_id r = user_str ident then r\<lparr>u_passphrase := phc_str hash\<rparr> else r) (users d)\<rparr>)
      else Err (NotFound EntUser (user_str ident)))"

definition delete_user :: "user_id \<Rightarrow> db \<Rightarrow> (storage_error, db) result" where
  "delete_user ident d =
     (case lookup u_id (user_str ident) (users d) of
        None \<Rightarrow> Err (NotFound EntUser (user_str ident))
      | Some r \<Rightarrow> Ok (delete_user_row (u_row r) d))"

section \<open>Memberships\<close>

definition member_join :: "db \<Rightarrow> (member_row \<times> tenant_row \<times> user_row) list" where
  "member_join d =
     [(m, t, u). m \<leftarrow> memberships d, t \<leftarrow> tenants d, t_row t = m_tenant m, u \<leftarrow> users d, u_row u = m_user m]"

definition store_membership ::
  "user_id \<Rightarrow> tenant_id \<Rightarrow> db \<Rightarrow> (storage_error, membership option) result" where
  "store_membership user tenant d =
     (case List.find (\<lambda>(m, t, u). t_id t = tenant_str tenant \<and> u_id u = user_str user) (member_join d) of
        None \<Rightarrow> Ok None
      | Some (m, t, u) \<Rightarrow>
          rbind (standing_read (m_standing m)) (\<lambda>st.
          Ok (Some \<lparr>mb_user = user, mb_tenant = tenant, mb_standing = st\<rparr>)))"

definition memberships_of_user :: "user_id \<Rightarrow> db \<Rightarrow> (storage_error, membership list) result" where
  "memberships_of_user user d =
     collect_results (map (\<lambda>(m, t, u).
         rbind (value_of_type (tenant_id_new (t_id t))) (\<lambda>tenant.
         rbind (standing_read (m_standing m)) (\<lambda>st.
         Ok \<lparr>mb_user = user, mb_tenant = tenant, mb_standing = st\<rparr>)))
       (sort_key (\<lambda>(m, t, u). t_id t) (filter (\<lambda>(m, t, u). u_id u = user_str user) (member_join d))))"

definition members_of_tenant :: "tenant_id \<Rightarrow> db \<Rightarrow> (storage_error, membership list) result" where
  "members_of_tenant tenant d =
     collect_results (map (\<lambda>(m, t, u).
         rbind (value_of_type (user_id_new (u_id u))) (\<lambda>user.
         rbind (standing_read (m_standing m)) (\<lambda>st.
         Ok \<lparr>mb_user = user, mb_tenant = tenant, mb_standing = st\<rparr>)))
       (sort_key (\<lambda>(m, t, u). u_id u) (filter (\<lambda>(m, t, u). t_id t = tenant_str tenant) (member_join d))))"

section \<open>Grants\<close>

text \<open>The rows a grant names, read in statements of their own before it is written.\<close>

definition grant_keys :: "grant \<Rightarrow> db \<Rightarrow> (storage_error, int \<times> int option) result" where
  "grant_keys g d =
     rbind (user_row_id_of (scope_user (g_scope g)) d) (\<lambda>uk.
     case scope_tenant (g_scope g) of
       None \<Rightarrow> Ok (uk, None)
     | Some t \<Rightarrow> rbind (tenant_row_id_of t d) (\<lambda>tk. Ok (uk, Some tk)))"

text \<open>The \<open>grants_scope\<close> index takes a missing tenant for 0 and a missing api for the empty text.\<close>

definition same_grant :: "int \<Rightarrow> int option \<Rightarrow> string option \<Rightarrow> string \<Rightarrow> grant_row \<Rightarrow> bool" where
  "same_grant uk tk api cap r =
     (g_user r = uk \<and> unwrap_or (g_tenant r) 0 = unwrap_or tk 0
      \<and> unwrap_or (g_api r) [] = unwrap_or api [] \<and> g_cap r = cap)"

definition insert_grant ::
  "int \<Rightarrow> int option \<Rightarrow> grant \<Rightarrow> timestamp \<Rightarrow> db \<Rightarrow> (storage_error, db) result" where
  "insert_grant uk tk g now d =
     (let api = map_option api_str (scope_api (g_scope g)); cap = capability_name (g_capability g) in
      if list_ex (same_grant uk tk api cap) (grants_tbl d) then Ok d
      else if \<not> has_row u_row uk (users d) \<or> \<not> null_or_row t_row tk (tenants d) then Err Backend
      else Ok (d\<lparr>grants_tbl := grants_tbl d @
                 [\<lparr>g_row = next_row (map g_row (grants_tbl d)), g_user = uk, g_tenant = tk, g_api = api,
                   g_cap = cap, g_created = unix_seconds now\<rparr>]\<rparr>))"

definition store_grant :: "grant \<Rightarrow> timestamp \<Rightarrow> db \<Rightarrow> (storage_error, db) result" where
  "store_grant g now d = rbind (grant_keys g d) (\<lambda>(uk, tk). insert_grant uk tk g now d)"

fun capability_debug :: "capability \<Rightarrow> string" where
  "capability_debug TenantMgr = ''TenantMgr''"
| "capability_debug UserMgr = ''UserMgr''"
| "capability_debug ApiAccess = ''ApiAccess''"
| "capability_debug ApiAdvMgr = ''ApiAdvMgr''"
| "capability_debug LimitMgr = ''LimitMgr''"
| "capability_debug SysAgent = ''SysAgent''"
| "capability_debug Observer = ''Observer''"

definition store_revoke :: "grant \<Rightarrow> db \<Rightarrow> (storage_error, db) result" where
  "store_revoke g d =
     rbind (grant_keys g d) (\<lambda>(uk, tk).
       let here = (\<lambda>r. g_user r = uk \<and> g_tenant r = tk
                     \<and> g_api r = map_option api_str (scope_api (g_scope g))
                     \<and> g_cap r = capability_name (g_capability g)) in
       if list_ex here (grants_tbl d)
       then Ok (d\<lparr>grants_tbl := filter (\<lambda>r. \<not> here r) (grants_tbl d)\<rparr>)
       else Err (NotFound EntGrant (capability_debug (g_capability g))))"

definition grant_read :: "user_id \<Rightarrow> string option \<Rightarrow> grant_row \<Rightarrow> (storage_error, grant) result" where
  "grant_read user tenant r =
     rbind (scope_read user tenant (g_api r)) (\<lambda>scope.
     rbind (capability_read (g_cap r)) (\<lambda>cap. value_of_type (grant_new cap scope)))"

definition grant_tenant :: "db \<Rightarrow> grant_row \<Rightarrow> string option" where
  "grant_tenant d r = Option.bind (g_tenant r) (\<lambda>k. map_option t_id (lookup t_row k (tenants d)))"

definition grants_join :: "user_id \<Rightarrow> db \<Rightarrow> grant_row list" where
  "grants_join user d = [g. g \<leftarrow> grants_tbl d, u \<leftarrow> users d, u_row u = g_user g, u_id u = user_str user]"

definition grants_of :: "user_id \<Rightarrow> db \<Rightarrow> (storage_error, grants) result" where
  "grants_of user d =
     map_sum id set (collect_results (map (\<lambda>r. grant_read user (grant_tenant d r) r) (grants_join user d)))"

definition grants_in_tenant :: "user_id \<Rightarrow> tenant_id \<Rightarrow> db \<Rightarrow> (storage_error, grants) result" where
  "grants_in_tenant user tenant d =
     map_sum id set (collect_results (map (\<lambda>r. grant_read user (grant_tenant d r) r)
       (filter (\<lambda>r. grant_tenant d r = Some (tenant_str tenant)) (grants_join user d))))"

section \<open>Transactions\<close>

definition user_create ::
  "new_tenant \<Rightarrow> new_user \<Rightarrow> standing \<Rightarrow> timestamp \<Rightarrow> db \<Rightarrow> (storage_error, tenant_with_owner \<times> db) result" where
  "user_create nt nu st now d =
     rbind (insert_tenant nt now d) (\<lambda>(tenant, d).
     rbind (insert_user nu now d) (\<lambda>(owner, d).
       let m = \<lparr>mb_user = user_name owner, mb_tenant = tenant_name tenant, mb_standing = st\<rparr> in
       rbind (insert_membership m now d) (\<lambda>d.
       Ok (\<lparr>two_tenant = tenant, two_owner = owner, two_membership = m\<rparr>, d))))"

definition member_add ::
  "new_user \<Rightarrow> tenant_id \<Rightarrow> standing \<Rightarrow> timestamp \<Rightarrow> db \<Rightarrow> (storage_error, user_with_membership \<times> db) result" where
  "member_add nu t st now d =
     rbind (insert_user nu now d) (\<lambda>(usr, d).
       let m = \<lparr>mb_user = user_name usr, mb_tenant = t, mb_standing = st\<rparr> in
       rbind (insert_membership m now d) (\<lambda>d.
       Ok (\<lparr>uwm_user = usr, uwm_membership = m\<rparr>, d)))"

definition member_remove ::
  "user_id \<Rightarrow> tenant_id \<Rightarrow> db \<Rightarrow> (storage_error, member_removed \<times> db) result" where
  "member_remove u t d =
     rbind (delete_membership u t d) (\<lambda>(m, d).
     rbind (delete_grants_in_tenant (mb_user m) (mb_tenant m) d) (\<lambda>(revoked, d).
     Ok (\<lparr>mr_membership = m, mr_revoked = revoked\<rparr>, d)))"

section \<open>Well-formed tables\<close>

definition keys_ok :: "('r \<Rightarrow> int) \<Rightarrow> 'r list \<Rightarrow> bool" where
  "keys_ok f rows = (distinct (map f rows) \<and> (\<forall>r\<in>set rows. 1 \<le> f r))"

definition tenants_ok :: "crates \<Rightarrow> tenant_row list \<Rightarrow> bool" where
  "tenants_ok c ts =
     (keys_ok t_row ts \<and> distinct (map t_id ts)
      \<and> (\<forall>r\<in>set ts. id_ok (t_id r) \<and> length (t_key r) = TN_KEY_BYTES \<and> timestamp_opt (cal c) (t_created r)))"

definition users_ok :: "crates \<Rightarrow> user_row list \<Rightarrow> bool" where
  "users_ok c us =
     (keys_ok u_row us \<and> distinct (map u_id us)
      \<and> (\<forall>r\<in>set us. id_ok (u_id r) \<and> is_ok (passphrase_hash_new (u_passphrase r))
            \<and> (\<exists>k. u_kind r = account_kind_name k) \<and> timestamp_opt (cal c) (u_created r)))"

definition members_ok :: "tenant_row list \<Rightarrow> user_row list \<Rightarrow> member_row list \<Rightarrow> bool" where
  "members_ok ts us ms =
     (distinct (map (\<lambda>r. (m_tenant r, m_user r)) ms)
      \<and> (\<forall>r\<in>set ms. m_tenant r \<in> t_row ` set ts \<and> m_user r \<in> u_row ` set us \<and> (\<exists>st. m_standing r = standing_name st)))"

fun shape_of :: "int option \<Rightarrow> string option \<Rightarrow> scope_kind option" where
  "shape_of None None = Some UserScope"
| "shape_of (Some _) None = Some TenantScope"
| "shape_of (Some _) (Some _) = Some ApiScope"
| "shape_of None (Some _) = None"

definition grant_rows_ok :: "tenant_row list \<Rightarrow> user_row list \<Rightarrow> grant_row list \<Rightarrow> bool" where
  "grant_rows_ok ts us gs =
     (keys_ok g_row gs \<and> distinct (map (\<lambda>r. (g_user r, g_tenant r, g_api r, g_cap r)) gs)
      \<and> (\<forall>r\<in>set gs. g_user r \<in> u_row ` set us \<and> (\<forall>k. g_tenant r = Some k \<longrightarrow> k \<in> t_row ` set ts)
            \<and> (\<forall>a. g_api r = Some a \<longrightarrow> id_ok a)
            \<and> (\<exists>cap. g_cap r = capability_name cap \<and> shape_of (g_tenant r) (g_api r) = Some (scope_kind cap))))"

definition identity_ok :: "crates \<Rightarrow> db \<Rightarrow> bool" where
  "identity_ok c d =
     (tenants_ok c (tenants d) \<and> users_ok c (users d) \<and> members_ok (tenants d) (users d) (memberships d)
      \<and> grant_rows_ok (tenants d) (users d) (grants_tbl d))"

section \<open>What the tables say\<close>

record identity =
  i_tenants :: "tenant_id \<rightharpoonup> tn_key"
  i_users :: "user_id \<rightharpoonup> passphrase_hash \<times> account_kind"
  i_members :: "user_id \<times> tenant_id \<rightharpoonup> standing"
  i_grants :: grants

abbreviation tenant_at :: "db \<Rightarrow> tenant_id \<Rightarrow> tenant_row option" where
  "tenant_at d t \<equiv> lookup t_id (tenant_str t) (tenants d)"

abbreviation user_at :: "db \<Rightarrow> user_id \<Rightarrow> user_row option" where
  "user_at d u \<equiv> lookup u_id (user_str u) (users d)"

definition row_grants :: "db \<Rightarrow> grant_row \<Rightarrow> grant \<Rightarrow> bool" where
  "row_grants d r g =
     (map_option u_row (user_at d (scope_user (g_scope g))) = Some (g_user r)
      \<and> (case scope_tenant (g_scope g) of
            None \<Rightarrow> g_tenant r = None
          | Some t \<Rightarrow> tenant_at d t \<noteq> None \<and> g_tenant r = map_option t_row (tenant_at d t))
      \<and> g_api r = map_option api_str (scope_api (g_scope g))
      \<and> g_cap r = capability_name (g_capability g))"

definition member_at :: "db \<Rightarrow> user_id \<Rightarrow> tenant_id \<Rightarrow> member_row option" where
  "member_at d u t =
     Option.bind (user_at d u) (\<lambda>ur. Option.bind (tenant_at d t) (\<lambda>tr.
       lookup (\<lambda>m. (m_tenant m, m_user m)) (t_row tr, u_row ur) (memberships d)))"

definition identity_of :: "db \<Rightarrow> identity" where
  "identity_of d =
     \<lparr>i_tenants = (\<lambda>t. map_option (TnKey \<circ> t_key) (tenant_at d t)),
      i_users = (\<lambda>u. Option.bind (user_at d u) (\<lambda>r.
        map_option (Pair (PassphraseHash (u_passphrase r))) (ok (account_kind_read (u_kind r))))),
      i_members = (\<lambda>(u, t). Option.bind (member_at d u t) (\<lambda>m. ok (standing_read (m_standing m)))),
      i_grants = {g. \<exists>r\<in>set (grants_tbl d). row_grants d r g}\<rparr>"

lemma passphrase_hash_new_Ok_iff: "passphrase_hash_new raw = Ok h \<longleftrightarrow> validate_hash raw = Ok () \<and> h = PassphraseHash raw"
  by (auto simp: passphrase_hash_new_def rbind_Ok_iff)

lemma store_tenant_reads:
  assumes "identity_ok c d"
  shows "\<exists>r. store_tenant c t d = Ok r \<and> map_option tenant_key r = i_tenants (identity_of d) t
    \<and> (\<forall>x. r = Some x \<longrightarrow> tenant_name x = t)"
proof (cases "tenant_at d t")
  case (Some r)
  then have "r \<in> set (tenants d)" using lookup_SomeD by fast
  then show ?thesis
    using assms Some
    by (auto simp: identity_ok_def tenants_ok_def store_tenant_def tenant_key_read_def from_unix_seconds_def
        identity_of_def)
qed (simp add: store_tenant_def identity_of_def)

lemma store_user_reads:
  assumes "identity_ok c d"
  shows "\<exists>r. store_user c u d = Ok r \<and> map_option (\<lambda>x. (user_passphrase x, user_kind x)) r = i_users (identity_of d) u
    \<and> (\<forall>x. r = Some x \<longrightarrow> user_name x = u)"
proof (cases "user_at d u")
  case (Some r)
  then have "r \<in> set (users d)" using lookup_SomeD by fast
  then obtain k where "u_kind r = account_kind_name k" "timestamp_opt (cal c) (u_created r)"
    and hash: "is_ok (passphrase_hash_new (u_passphrase r))"
    using assms by (auto simp: identity_ok_def users_ok_def)
  moreover have "passphrase_hash_new (u_passphrase r) = Ok (PassphraseHash (u_passphrase r))"
    using hash by (auto simp: is_ok_iff passphrase_hash_new_Ok_iff)
  ultimately show ?thesis
    using Some by (auto simp: store_user_def from_unix_seconds_def identity_of_def)
qed (simp add: store_user_def identity_of_def)

lemma member_at_Some_iff:
  assumes "identity_ok c d"
  shows "member_at d u t = Some m \<longleftrightarrow>
    (\<exists>ur tr. user_at d u = Some ur \<and> tenant_at d t = Some tr \<and> m \<in> set (memberships d)
       \<and> m_tenant m = t_row tr \<and> m_user m = u_row ur)"
proof -
  have "distinct (map (\<lambda>m. (m_tenant m, m_user m)) (memberships d))"
    using assms by (simp add: identity_ok_def members_ok_def)
  from lookup_Some_iff [OF this] show ?thesis
    by (auto simp: member_at_def bind_eq_Some_conv)
qed

lemma identity_lookups:
  assumes "identity_ok c d"
  shows "tenant_at d t = Some tr \<longleftrightarrow> tr \<in> set (tenants d) \<and> t_id tr = tenant_str t"
    and "user_at d u = Some ur \<longleftrightarrow> ur \<in> set (users d) \<and> u_id ur = user_str u"
    and "lookup t_row k (tenants d) = Some tr \<longleftrightarrow> tr \<in> set (tenants d) \<and> t_row tr = k"
    and "lookup u_row k (users d) = Some ur \<longleftrightarrow> ur \<in> set (users d) \<and> u_row ur = k"
  using assms by (simp_all add: identity_ok_def tenants_ok_def users_ok_def keys_ok_def lookup_Some_iff)

lemma rows_inj:
  assumes "identity_ok c d"
  shows "a \<in> set (tenants d) \<Longrightarrow> b \<in> set (tenants d) \<Longrightarrow> t_row a = t_row b \<longleftrightarrow> a = b"
    and "a \<in> set (tenants d) \<Longrightarrow> b \<in> set (tenants d) \<Longrightarrow> t_id a = t_id b \<longleftrightarrow> a = b"
    and "x \<in> set (users d) \<Longrightarrow> y \<in> set (users d) \<Longrightarrow> u_row x = u_row y \<longleftrightarrow> x = y"
    and "x \<in> set (users d) \<Longrightarrow> y \<in> set (users d) \<Longrightarrow> u_id x = u_id y \<longleftrightarrow> x = y"
  using assms by (auto simp: identity_ok_def tenants_ok_def users_ok_def keys_ok_def distinct_map dest: inj_onD)

lemma find_unique:
  assumes "\<And>x y. x \<in> set xs \<Longrightarrow> y \<in> set xs \<Longrightarrow> P x \<Longrightarrow> P y \<Longrightarrow> x = y"
  shows "List.find P xs = Some x \<longleftrightarrow> x \<in> set xs \<and> P x"
proof
  assume x: "x \<in> set xs \<and> P x"
  then obtain y where y: "List.find P xs = Some y"
    by (cases "List.find P xs") (auto simp: find_None_iff)
  then show "List.find P xs = Some x" using find_member [OF y] assms [of y x] x by simp
qed (auto dest: find_member)

lemma member_join_iff:
  "(m, t, u) \<in> set (member_join d) \<longleftrightarrow>
     m \<in> set (memberships d) \<and> t \<in> set (tenants d) \<and> t_row t = m_tenant m \<and> u \<in> set (users d) \<and> u_row u = m_user m"
  by (auto simp: member_join_def)

lemma member_join_find:
  assumes ok: "identity_ok c d"
  shows "List.find (\<lambda>(m, t', u'). t_id t' = tenant_str t \<and> u_id u' = user_str u) (member_join d)
    = map_option (\<lambda>m. (m, the (tenant_at d t), the (user_at d u))) (member_at d u t)" (is "List.find ?P _ = _")
proof -
  have uniq: "x = y" if "x \<in> set (member_join d)" "y \<in> set (member_join d)" "?P x" "?P y" for x y
  proof -
    obtain m1 t1 u1 m2 t2 u2 where xy: "x = (m1, t1, u1)" "y = (m2, t2, u2)" by (cases x; cases y) auto
    have "t1 = t2" "u1 = u2"
      using that xy rows_inj(2) [OF ok, of t1 t2] rows_inj(4) [OF ok, of u1 u2] by (auto simp: member_join_iff)
    moreover have "inj_on (\<lambda>m. (m_tenant m, m_user m)) (set (memberships d))"
      using ok by (simp add: identity_ok_def members_ok_def distinct_map)
    then have "m1 = m2" using that xy calculation by (auto simp: member_join_iff elim!: inj_onD)
    ultimately show ?thesis using xy by simp
  qed
  note find = find_unique [of "member_join d" ?P, OF uniq]
  show ?thesis
  proof (cases "member_at d u t")
    case None
    have "List.find ?P (member_join d) = None"
    proof (rule ccontr)
      assume "\<not> ?thesis"
      then obtain m t' u' where "List.find ?P (member_join d) = Some (m, t', u')" by auto
      then have "member_at d u t = Some m"
        by (auto simp: find member_join_iff member_at_Some_iff [OF ok] identity_lookups [OF ok]
            intro!: exI [of _ u'] exI [of _ t'])
      then show False using None by simp
    qed
    then show ?thesis using None by simp
  next
    case (Some m)
    then obtain ur tr where "user_at d u = Some ur" "tenant_at d t = Some tr" "m \<in> set (memberships d)"
      "m_tenant m = t_row tr" "m_user m = u_row ur"
      by (auto simp: member_at_Some_iff [OF ok])
    moreover from this have "List.find ?P (member_join d) = Some (m, tr, ur)"
      by (simp add: find member_join_iff identity_lookups [OF ok])
    ultimately show ?thesis using Some by simp
  qed
qed

lemma store_membership_reads:
  assumes ok: "identity_ok c d"
  shows "store_membership u t d =
    Ok (map_option (\<lambda>st. \<lparr>mb_user = u, mb_tenant = t, mb_standing = st\<rparr>) (i_members (identity_of d) (u, t)))"
proof (cases "member_at d u t")
  case (Some m)
  then obtain st where "m_standing m = standing_name st"
    using ok by (auto simp: member_at_Some_iff [OF ok] identity_ok_def members_ok_def)
  then show ?thesis
    using Some by (simp add: store_membership_def member_join_find [OF ok] identity_of_def)
qed (simp add: store_membership_def member_join_find [OF ok] identity_of_def)

lemma collect_map_Ok: "(\<And>x. x \<in> set xs \<Longrightarrow> f x = Ok (g x)) \<Longrightarrow> collect_results (map f xs) = Ok (map g xs)"
  by (simp add: collect_results_Ok_iff)

lemma grants_join_iff:
  "r \<in> set (grants_join u d) \<longleftrightarrow> r \<in> set (grants_tbl d) \<and> (\<exists>ur\<in>set (users d). u_row ur = g_user r \<and> u_id ur = user_str u)"
  by (auto simp: grants_join_def)

lemma tenant_id_eq: "s = tenant_str t \<longleftrightarrow> TenantId s = t"
  by (cases t) simp

lemma grant_row_reads:
  assumes ok: "identity_ok c d" and r: "r \<in> set (grants_join u d)"
  shows "\<exists>g. grant_read u (grant_tenant d r) r = Ok g \<and> scope_user (g_scope g) = u
    \<and> (\<forall>h. row_grants d r h \<and> scope_user (g_scope h) = u \<longleftrightarrow> h = g)
    \<and> (\<forall>t. grant_tenant d r = Some (tenant_str t) \<longleftrightarrow> scope_tenant (g_scope g) = Some t)"
proof -
  obtain ur where ur: "user_at d u = Some ur" "u_row ur = g_user r"
    using r by (auto simp: grants_join_iff identity_lookups [OF ok])
  have row: "r \<in> set (grants_tbl d)" using r by (simp add: grants_join_iff)
  then obtain cap where cap: "g_cap r = capability_name cap"
    "shape_of (g_tenant r) (g_api r) = Some (scope_kind cap)"
    using ok by (auto simp: identity_ok_def grant_rows_ok_def)
  have api: "id_ok a" if "g_api r = Some a" for a
    using row ok that by (auto simp: identity_ok_def grant_rows_ok_def)
  have user: "map_option u_row (user_at d u) = Some (g_user r)" using ur by simp
  show ?thesis
  proof (cases "g_tenant r")
    case None
    then have none: "g_api r = None" "scope_kind cap = UserScope" using cap(2) by (cases "g_api r"; simp)+
    let ?g = "\<lparr>g_capability = cap, g_scope = AtUser u\<rparr>"
    have "grant_read u (grant_tenant d r) r = Ok ?g"
      using None none cap(1) by (simp add: grant_read_def grant_tenant_def map_err_Ok_iff)
    moreover have "row_grants d r h \<and> scope_user (g_scope h) = u \<longleftrightarrow> h = ?g" for h
      using None none cap(1) user by (cases h; cases "g_scope h") (auto simp: row_grants_def)
    ultimately show ?thesis using None by (auto simp: grant_tenant_def)
  next
    case (Some k)
    then have "k \<in> t_row ` set (tenants d)"
      using row ok by (simp add: identity_ok_def grant_rows_ok_def)
    then obtain tr where tr: "tr \<in> set (tenants d)" "t_row tr = k" by blast
    have id: "id_ok (t_id tr)" using tr(1) ok by (simp add: identity_ok_def tenants_ok_def)
    have gt: "grant_tenant d r = Some (t_id tr)"
      using tr Some identity_lookups(3) [OF ok, of k tr] by (simp add: grant_tenant_def)
    have at: "tenant_at d t \<noteq> None \<and> Some k = map_option t_row (tenant_at d t) \<longleftrightarrow> t = TenantId (t_id tr)" for t
    proof
      assume "tenant_at d t \<noteq> None \<and> Some k = map_option t_row (tenant_at d t)"
      then obtain y where y: "tenant_at d t = Some y" "t_row y = k" by auto
      then have "y = tr" using tr rows_inj(1) [OF ok, of y tr] by (simp add: identity_lookups [OF ok])
      then show "t = TenantId (t_id tr)" using lookup_SomeD [OF y(1)] by (cases t) simp
    next
      assume "t = TenantId (t_id tr)"
      then have "tenant_at d t = Some tr" using tr identity_lookups(1) [OF ok, of t tr] by simp
      then show "tenant_at d t \<noteq> None \<and> Some k = map_option t_row (tenant_at d t)" using tr by simp
    qed
    show ?thesis
    proof (cases "g_api r")
      case None
      then have kind: "scope_kind cap = TenantScope" using cap(2) Some by simp
      let ?g = "\<lparr>g_capability = cap, g_scope = AtTenant u (TenantId (t_id tr))\<rparr>"
      have "grant_read u (grant_tenant d r) r = Ok ?g"
        using None kind cap(1) gt id by (simp add: grant_read_def map_err_Ok_iff rbind_Ok_iff)
      moreover have "row_grants d r h \<and> scope_user (g_scope h) = u \<longleftrightarrow> h = ?g" for h
        using None cap(1) user Some at by (cases h; cases "g_scope h") (auto simp: row_grants_def api_id.expand)
      ultimately show ?thesis by (intro exI [of _ ?g]) (simp add: gt tenant_id_eq)
    next
      case api': (Some a)
      then have kind: "scope_kind cap = ApiScope" using cap(2) Some by simp
      let ?g = "\<lparr>g_capability = cap, g_scope = AtApi u (TenantId (t_id tr)) (ApiId a)\<rparr>"
      have "grant_read u (grant_tenant d r) r = Ok ?g"
        using api' kind cap(1) gt id api by (simp add: grant_read_def map_err_Ok_iff rbind_Ok_iff)
      moreover have "row_grants d r h \<and> scope_user (g_scope h) = u \<longleftrightarrow> h = ?g" for h
        using api' cap(1) user Some at by (cases h; cases "g_scope h") (auto simp: row_grants_def api_id.expand)
      ultimately show ?thesis by (intro exI [of _ ?g]) (simp add: gt tenant_id_eq)
    qed
  qed
qed

lemma grants_of_reads:
  assumes ok: "identity_ok c d"
  shows "grants_of u d = Ok {g \<in> i_grants (identity_of d). scope_user (g_scope g) = u}"
    and "grants_in_tenant u t d =
      Ok {g \<in> i_grants (identity_of d). scope_user (g_scope g) = u \<and> scope_tenant (g_scope g) = Some t}"
proof -
  let ?read = "\<lambda>r. grant_read u (grant_tenant d r) r"
  define G where "G r = (THE g. ?read r = Ok g)" for r
  have G: "?read r = Ok (G r)" and scope: "scope_user (g_scope (G r)) = u"
    and only: "\<And>h. row_grants d r h \<and> scope_user (g_scope h) = u \<longleftrightarrow> h = G r"
    and tenant: "\<And>t. grant_tenant d r = Some (tenant_str t) \<longleftrightarrow> scope_tenant (g_scope (G r)) = Some t"
    if "r \<in> set (grants_join u d)" for r
  proof -
    note r = that
    obtain g where g: "?read r = Ok g" "scope_user (g_scope g) = u"
      "\<forall>h. row_grants d r h \<and> scope_user (g_scope h) = u \<longleftrightarrow> h = g"
      "\<forall>t. grant_tenant d r = Some (tenant_str t) \<longleftrightarrow> scope_tenant (g_scope g) = Some t"
      using grant_row_reads [OF ok r] by blast
    then have "G r = g" by (simp add: G_def)
    then show "?read r = Ok (G r)" "scope_user (g_scope (G r)) = u"
      "\<And>h. row_grants d r h \<and> scope_user (g_scope h) = u \<longleftrightarrow> h = G r"
      "\<And>t. grant_tenant d r = Some (tenant_str t) \<longleftrightarrow> scope_tenant (g_scope (G r)) = Some t"
      using g by simp_all
  qed
  have join: "r \<in> set (grants_join u d)" if "r \<in> set (grants_tbl d)" "row_grants d r g" "scope_user (g_scope g) = u" for r g
  proof -
    note r = that
    obtain ur where "user_at d u = Some ur" "u_row ur = g_user r" using r(2,3) by (auto simp: row_grants_def)
    then show ?thesis using r(1) lookup_SomeD [of u_id "user_str u" "users d" ur] by (auto simp: grants_join_iff)
  qed
  have held: "{g \<in> i_grants (identity_of d). scope_user (g_scope g) = u} = G ` set (grants_join u d)"
  proof (intro equalityI subsetI)
    fix g assume "g \<in> {g \<in> i_grants (identity_of d). scope_user (g_scope g) = u}"
    then obtain r where r: "r \<in> set (grants_tbl d)" "row_grants d r g" "scope_user (g_scope g) = u"
      by (auto simp: identity_of_def)
    then show "g \<in> G ` set (grants_join u d)" using join [OF r] only [OF join [OF r], of g] by blast
  next
    fix g assume "g \<in> G ` set (grants_join u d)"
    then obtain r where r: "r \<in> set (grants_join u d)" "g = G r" by blast
    then have "row_grants d r g" using only [OF r(1), of g] by simp
    then show "g \<in> {g \<in> i_grants (identity_of d). scope_user (g_scope g) = u}"
      using r scope [OF r(1)] by (auto simp: identity_of_def grants_join_iff)
  qed
  show "grants_of u d = Ok {g \<in> i_grants (identity_of d). scope_user (g_scope g) = u}"
    using collect_map_Ok [of "grants_join u d" ?read G] G by (simp add: grants_of_def held)
  have "G ` {r \<in> set (grants_join u d). grant_tenant d r = Some (tenant_str t)}
      = {g \<in> G ` set (grants_join u d). scope_tenant (g_scope g) = Some t}"
    using tenant by auto
  also have "\<dots> = {g \<in> i_grants (identity_of d). scope_user (g_scope g) = u \<and> scope_tenant (g_scope g) = Some t}"
    unfolding held [symmetric] by auto
  finally have held': "G ` {r \<in> set (grants_join u d). grant_tenant d r = Some (tenant_str t)} = \<dots>" .
  have "collect_results (map ?read (filter (\<lambda>r. grant_tenant d r = Some (tenant_str t)) (grants_join u d)))
      = Ok (map G (filter (\<lambda>r. grant_tenant d r = Some (tenant_str t)) (grants_join u d)))"
    by (rule collect_map_Ok, rule G) simp
  then show "grants_in_tenant u t d =
      Ok {g \<in> i_grants (identity_of d). scope_user (g_scope g) = u \<and> scope_tenant (g_scope g) = Some t}"
    by (simp add: grants_in_tenant_def held')
qed

section \<open>What every write does to it\<close>

lemma keys_ok_append: "keys_ok f rows \<Longrightarrow> f r = next_row (map f rows) \<Longrightarrow> keys_ok f (rows @ [r])"
  using next_row_fresh [of "map f rows"] by (auto simp: keys_ok_def)

lemma keys_ok_filter: "keys_ok f rows \<Longrightarrow> keys_ok f (filter P rows)"
  by (auto simp: keys_ok_def distinct_map_filter)

lemma has_row_lookup: "has_row f k rows \<longleftrightarrow> lookup f k rows \<noteq> None"
  by (auto simp: has_row_iff lookup_None_iff)

lemma identity_rows:
  assumes "identity_ok c d"
  shows "m \<in> set (memberships d) \<Longrightarrow> m_tenant m \<in> t_row ` set (tenants d) \<and> m_user m \<in> u_row ` set (users d)"
    and "r \<in> set (grants_tbl d) \<Longrightarrow> g_user r \<in> u_row ` set (users d)"
    and "r \<in> set (grants_tbl d) \<Longrightarrow> g_tenant r = Some k \<Longrightarrow> k \<in> t_row ` set (tenants d)"
  using assms by (auto simp: identity_ok_def members_ok_def grant_rows_ok_def)

lemma insert_tenant_refines:
  assumes ok: "identity_ok c d" and new: "id_ok (tenant_str (nt_id new))" "tn_key_ok (nt_key new)"
    "timestamp_opt (cal c) (unix_seconds now)"
  shows "(case insert_tenant new now d of
      Err e \<Rightarrow> i_tenants (identity_of d) (nt_id new) \<noteq> None \<and> e = Conflict EntTenant (tenant_str (nt_id new))
    | Ok (x, d') \<Rightarrow> i_tenants (identity_of d) (nt_id new) = None \<and> identity_ok c d'
        \<and> tenant_name x = nt_id new \<and> tenant_key x = nt_key new
        \<and> identity_of d' = (identity_of d)\<lparr>i_tenants := (i_tenants (identity_of d))(nt_id new \<mapsto> nt_key new)\<rparr>)"
proof (cases "tenant_at d (nt_id new)")
  case (Some r)
  then show ?thesis by (simp add: insert_tenant_def has_row_lookup identity_of_def)
next
  case None
  let ?k = "next_row (map t_row (tenants d))"
  let ?r = "\<lparr>t_row = ?k, t_id = tenant_str (nt_id new), t_key = tn_bytes (nt_key new), t_created = unix_seconds now\<rparr>"
  let ?d = "d\<lparr>tenants := tenants d @ [?r]\<rparr>"
  have fresh: "?k \<notin> t_row ` set (tenants d)" using next_row_fresh(2) [of "map t_row (tenants d)"] by simp
  have at: "lookup t_id (tenant_str t) (tenants d @ [?r]) = (if t = nt_id new then Some ?r else tenant_at d t)" for t
    using None by (cases t; cases "nt_id new") (auto simp: lookup_append split: option.splits)
  have "identity_ok c ?d"
    using ok new None keys_ok_append [of t_row "tenants d" ?r]
    by (auto simp: identity_ok_def tenants_ok_def members_ok_def grant_rows_ok_def tn_key_ok_def lookup_None_iff)
  moreover have "member_at ?d u t = member_at d u t" for u t
  proof (cases "t = nt_id new")
    case True
    have "lookup (\<lambda>m. (m_tenant m, m_user m)) (?k, x) (memberships d) = None" for x
      using identity_rows(1) [OF ok] fresh by (auto simp: lookup_None_iff)
    then show ?thesis using True None by (auto simp: member_at_def at split: bind_splits)
  qed (simp add: member_at_def at)
  moreover have "row_grants ?d r g \<longleftrightarrow> row_grants d r g" if "r \<in> set (grants_tbl d)" for r g
    using identity_rows(3) [OF ok that] fresh None
    by (cases "scope_tenant (g_scope g)") (auto simp: row_grants_def at)
  ultimately show ?thesis
    using None by (auto simp: insert_tenant_def has_row_lookup identity_of_def Let_def at fun_eq_iff)
qed

lemma insert_user_refines:
  assumes ok: "identity_ok c d" and new: "id_ok (user_str (nu_id new))"
    "is_ok (passphrase_hash_new (phc_str (nu_passphrase new)))" "timestamp_opt (cal c) (unix_seconds now)"
  shows "(case insert_user new now d of
      Err e \<Rightarrow> i_users (identity_of d) (nu_id new) \<noteq> None \<and> e = Conflict EntUser (user_str (nu_id new))
    | Ok (x, d') \<Rightarrow> i_users (identity_of d) (nu_id new) = None \<and> identity_ok c d' \<and> user_name x = nu_id new
        \<and> identity_of d' = (identity_of d)
            \<lparr>i_users := (i_users (identity_of d))(nu_id new \<mapsto> (nu_passphrase new, nu_kind new))\<rparr>)"
proof (cases "user_at d (nu_id new)")
  case (Some r)
  then have "r \<in> set (users d)" using lookup_SomeD by fast
  then obtain k where "u_kind r = account_kind_name k" using ok by (auto simp: identity_ok_def users_ok_def)
  then show ?thesis using Some by (simp add: insert_user_def has_row_lookup identity_of_def)
next
  case None
  let ?k = "next_row (map u_row (users d))"
  let ?r = "\<lparr>u_row = ?k, u_id = user_str (nu_id new), u_passphrase = phc_str (nu_passphrase new),
              u_kind = account_kind_name (nu_kind new), u_created = unix_seconds now\<rparr>"
  let ?d = "d\<lparr>users := users d @ [?r]\<rparr>"
  have fresh: "?k \<notin> u_row ` set (users d)" using next_row_fresh(2) [of "map u_row (users d)"] by simp
  have at: "lookup u_id (user_str u) (users d @ [?r]) = (if u = nu_id new then Some ?r else user_at d u)" for u
    using None by (cases u; cases "nu_id new") (auto simp: lookup_append split: option.splits)
  have "identity_ok c ?d"
    using ok new None keys_ok_append [of u_row "users d" ?r]
    by (auto simp: identity_ok_def users_ok_def members_ok_def grant_rows_ok_def lookup_None_iff)
  moreover have "member_at ?d u t = member_at d u t" for u t
  proof (cases "u = nu_id new")
    case True
    have "lookup (\<lambda>m. (m_tenant m, m_user m)) (x, ?k) (memberships d) = None" for x
      using identity_rows(1) [OF ok] fresh by (auto simp: lookup_None_iff)
    then show ?thesis using True None by (auto simp: member_at_def at split: bind_splits)
  qed (simp add: member_at_def at)
  moreover have "row_grants ?d r g \<longleftrightarrow> row_grants d r g" if "r \<in> set (grants_tbl d)" for r g
    using identity_rows(2) [OF ok that] fresh None
    by (cases "scope_user (g_scope g) = nu_id new"; cases "scope_tenant (g_scope g)")
      (auto simp: row_grants_def at)
  moreover have "PassphraseHash (phc_str (nu_passphrase new)) = nu_passphrase new" by simp
  ultimately show ?thesis
    using None by (auto simp: insert_user_def has_row_lookup identity_of_def Let_def at fun_eq_iff)
qed

lemma row_id_of_iff:
  "tenant_row_id_of t d = Ok k \<longleftrightarrow> (\<exists>tr. tenant_at d t = Some tr \<and> t_row tr = k)"
  "user_row_id_of u d = Ok k \<longleftrightarrow> (\<exists>ur. user_at d u = Some ur \<and> u_row ur = k)"
  "tenant_row_id_of t d = Err e \<longleftrightarrow> tenant_at d t = None \<and> e = NotFound EntTenant (tenant_str t)"
  "user_row_id_of u d = Err e \<longleftrightarrow> user_at d u = None \<and> e = NotFound EntUser (user_str u)"
  by (auto simp: tenant_row_id_of_def user_row_id_of_def ok_or_Ok_iff; cases "tenant_at d t"; cases "user_at d u"; auto)+

lemma at_same_row:
  assumes ok: "identity_ok c d"
  shows "tenant_at d t = Some a \<Longrightarrow> tenant_at d s = Some b \<Longrightarrow> t_row a = t_row b \<longleftrightarrow> t = s"
    and "user_at d u = Some x \<Longrightarrow> user_at d v = Some y \<Longrightarrow> u_row x = u_row y \<longleftrightarrow> u = v"
  using rows_inj(1) [OF ok, of a b] lookup_SomeD [of t_id "tenant_str t" "tenants d" a]
    lookup_SomeD [of t_id "tenant_str s" "tenants d" b]
  by (cases t; cases s; auto)
    (use rows_inj(3) [OF ok, of x y] lookup_SomeD [of u_id "user_str u" "users d" x]
      lookup_SomeD [of u_id "user_str v" "users d" y] in \<open>cases u; cases v; auto\<close>)

lemma identity_members:
  "i_members (identity_of d) (u, t) =
     Option.bind (user_at d u) (\<lambda>ur. Option.bind (tenant_at d t) (\<lambda>tr.
       Option.bind (map_option m_standing (lookup (\<lambda>m. (m_tenant m, m_user m)) (t_row tr, u_row ur) (memberships d)))
         (\<lambda>st. ok (standing_read st))))"
  by (auto simp: identity_of_def member_at_def bind_map_option comp_def split: bind_splits)

lemma lookup_map: "(\<And>r. f (h r) = f r) \<Longrightarrow> lookup f k (map h rows) = map_option h (lookup f k rows)"
  by (induction rows) (simp_all add: lookup_def)

lemma upsert_lookup:
  "map_option m_standing (lookup (\<lambda>m. (m_tenant m, m_user m)) k (memberships (upsert_membership tk uk st now d))) =
     (if k = (tk, uk) then Some (standing_name st)
      else map_option m_standing (lookup (\<lambda>m. (m_tenant m, m_user m)) k (memberships d)))"
proof (cases "list_ex (\<lambda>r. m_tenant r = tk \<and> m_user r = uk) (memberships d)")
  case True
  let ?h = "\<lambda>r. if m_tenant r = tk \<and> m_user r = uk then r\<lparr>m_standing := standing_name st\<rparr> else r"
  have "lookup (\<lambda>m. (m_tenant m, m_user m)) k (map ?h (memberships d))
      = map_option ?h (lookup (\<lambda>m. (m_tenant m, m_user m)) k (memberships d))"
    by (rule lookup_map) simp
  moreover have "lookup (\<lambda>m. (m_tenant m, m_user m)) (tk, uk) (memberships d) \<noteq> None"
    using True by (auto simp: lookup_None_iff list_ex_iff)
  ultimately show ?thesis
    using True lookup_SomeD [of "\<lambda>m. (m_tenant m, m_user m)" k "memberships d"]
    by (cases "lookup (\<lambda>m. (m_tenant m, m_user m)) k (memberships d)") (auto simp: upsert_membership_def)
next
  case False
  then have "lookup (\<lambda>m. (m_tenant m, m_user m)) (tk, uk) (memberships d) = None"
    by (auto simp: lookup_None_iff list_ex_iff)
  then show ?thesis
    using False by (auto simp: upsert_membership_def lookup_append split: option.splits)
qed

lemma upsert_members_ok:
  assumes "members_ok ts us (memberships d)" "tk \<in> t_row ` set ts" "uk \<in> u_row ` set us"
  shows "members_ok ts us (memberships (upsert_membership tk uk st now d))"
proof (cases "list_ex (\<lambda>r. m_tenant r = tk \<and> m_user r = uk) (memberships d)")
  case True
  let ?h = "\<lambda>r. if m_tenant r = tk \<and> m_user r = uk then r\<lparr>m_standing := standing_name st\<rparr> else r"
  have ms: "memberships (upsert_membership tk uk st now d) = map ?h (memberships d)"
    using True by (simp add: upsert_membership_def)
  have keys: "map (\<lambda>r. (m_tenant r, m_user r)) (map ?h (memberships d)) = map (\<lambda>r. (m_tenant r, m_user r)) (memberships d)"
    by simp
  show ?thesis unfolding ms members_ok_def keys using assms by (auto simp: members_ok_def)
next
  case False
  then show ?thesis using assms by (auto simp: members_ok_def upsert_membership_def list_ex_iff)
qed

lemma row_grants_cong:
  "tenants d' = tenants d \<Longrightarrow> users d' = users d \<Longrightarrow> row_grants d' r g = row_grants d r g"
  by (cases "scope_tenant (g_scope g)") (simp_all add: row_grants_def)

lemma identity_frame:
  assumes "tenants d' = tenants d" "users d' = users d"
  shows "i_tenants (identity_of d') = i_tenants (identity_of d)" "i_users (identity_of d') = i_users (identity_of d)"
    and "i_grants (identity_of d') = {g. \<exists>r\<in>set (grants_tbl d'). row_grants d r g}"
  using assms by (simp_all add: identity_of_def row_grants_cong [of d' d])

lemma identity_grants: "i_grants (identity_of d) = {g. \<exists>r\<in>set (grants_tbl d). row_grants d r g}"
  by (simp add: identity_of_def)

lemma insert_membership_refines:
  assumes ok: "identity_ok c d"
  shows "(case insert_membership m now d of
      Err e \<Rightarrow> i_tenants (identity_of d) (mb_tenant m) = None \<or> i_users (identity_of d) (mb_user m) = None
    | Ok d' \<Rightarrow> identity_ok c d'
        \<and> i_tenants (identity_of d) (mb_tenant m) \<noteq> None \<and> i_users (identity_of d) (mb_user m) \<noteq> None
        \<and> identity_of d' = (identity_of d)
            \<lparr>i_members := (i_members (identity_of d))((mb_user m, mb_tenant m) \<mapsto> mb_standing m)\<rparr>)"
proof (cases "tenant_at d (mb_tenant m) = None \<or> user_at d (mb_user m) = None")
  case True
  then show ?thesis
    by (cases "tenant_at d (mb_tenant m)") (auto simp: insert_membership_def tenant_row_id_of_def user_row_id_of_def identity_of_def)
next
  case False
  then obtain tr ur where at: "tenant_at d (mb_tenant m) = Some tr" "user_at d (mb_user m) = Some ur" by auto
  let ?key = "\<lambda>r. (m_tenant r, m_user r)" and ?tk = "t_row tr" and ?uk = "u_row ur"
  let ?d = "upsert_membership ?tk ?uk (mb_standing m) now d"
  have d': "insert_membership m now d = Ok ?d"
    using at by (simp add: insert_membership_def tenant_row_id_of_def user_row_id_of_def)
  have same: "tenants ?d = tenants d" "users ?d = users d" "grants_tbl ?d = grants_tbl d"
    by (simp_all add: upsert_membership_def)
  have inv: "identity_ok c ?d"
    using ok upsert_members_ok [of "tenants d" "users d" d ?tk ?uk] at
    by (auto simp: identity_ok_def same dest!: lookup_SomeD)
  have "i_members (identity_of ?d) (u, t) =
      (if u = mb_user m \<and> t = mb_tenant m then Some (mb_standing m) else i_members (identity_of d) (u, t))" for u t
  proof (cases "user_at d u"; cases "tenant_at d t")
    fix ur' tr' assume "user_at d u = Some ur'" "tenant_at d t = Some tr'"
    moreover from this have "(t_row tr', u_row ur') = (?tk, ?uk) \<longleftrightarrow> u = mb_user m \<and> t = mb_tenant m"
      using at at_same_row [OF ok] by auto
    ultimately show ?thesis by (simp only: identity_members same upsert_lookup) simp
  qed (use at in \<open>auto simp: identity_members same\<close>)
  then have "i_members (identity_of ?d) = (i_members (identity_of d))((mb_user m, mb_tenant m) \<mapsto> mb_standing m)"
    by (auto simp: fun_eq_iff)
  then have "identity_of ?d = (identity_of d)
      \<lparr>i_members := (i_members (identity_of d))((mb_user m, mb_tenant m) \<mapsto> mb_standing m)\<rparr>"
    by (intro identity.equality) (simp_all add: identity_frame [OF same(1,2)] same(3) identity_grants [of d])
  moreover obtain k where "u_kind ur = account_kind_name k"
    using at(2) ok lookup_SomeD [OF at(2)] by (auto simp: identity_ok_def users_ok_def)
  ultimately show ?thesis using d' inv at by (simp add: identity_of_def)
qed

lemma drop_fields [simp]:
  "tenants (drop_rules P d) = tenants d" "users (drop_rules P d) = users d"
  "memberships (drop_rules P d) = memberships d" "grants_tbl (drop_rules P d) = grants_tbl d"
  "tenants (drop_limits Q d) = tenants d" "users (drop_limits Q d) = users d"
  "memberships (drop_limits Q d) = memberships d" "grants_tbl (drop_limits Q d) = grants_tbl d"
  by (simp_all add: drop_rules_def drop_limits_def)

lemma image_filter_ne: "f ` {x \<in> A. f x \<noteq> k} = f ` A - {k}"
  by auto

lemma members_lookup_filter:
  "lookup (\<lambda>m. (m_tenant m, m_user m)) (x, y) (filter (\<lambda>r. m_tenant r \<noteq> k) ms)
     = (if x = k then None else lookup (\<lambda>m. (m_tenant m, m_user m)) (x, y) ms)"
  "lookup (\<lambda>m. (m_tenant m, m_user m)) (x, y) (filter (\<lambda>r. m_user r \<noteq> k) ms)
     = (if y = k then None else lookup (\<lambda>m. (m_tenant m, m_user m)) (x, y) ms)"
  by (induction ms) (auto simp: lookup_def)

lemma delete_tenant_refines:
  assumes ok: "identity_ok c d"
  shows "(case delete_tenant t d of
      Err e \<Rightarrow> i_tenants (identity_of d) t = None \<and> e = NotFound EntTenant (tenant_str t)
    | Ok d' \<Rightarrow> identity_ok c d' \<and> i_tenants (identity_of d) t \<noteq> None
        \<and> identity_of d' = (identity_of d)
            \<lparr>i_tenants := (i_tenants (identity_of d))(t := None),
             i_members := (\<lambda>(u, s). if s = t then None else i_members (identity_of d) (u, s)),
             i_grants := {g \<in> i_grants (identity_of d). scope_tenant (g_scope g) \<noteq> Some t}\<rparr>)"
proof (cases "tenant_at d t")
  case None
  then show ?thesis by (simp add: delete_tenant_def identity_of_def)
next
  case (Some tr)
  let ?k = "t_row tr" let ?d = "delete_tenant_row ?k d"
  have fields: "tenants ?d = filter (\<lambda>r. t_row r \<noteq> ?k) (tenants d)" "users ?d = users d"
    "memberships ?d = filter (\<lambda>r. m_tenant r \<noteq> ?k) (memberships d)"
    "grants_tbl ?d = filter (\<lambda>r. g_tenant r \<noteq> Some ?k) (grants_tbl d)"
    by (simp_all add: delete_tenant_row_def)
  have ids: "distinct (map t_id (tenants d))" using ok by (simp add: identity_ok_def tenants_ok_def)
  have at: "tenant_at ?d s = (if s = t then None else tenant_at d s)" for s
    using Some at_same_row(1) [OF ok, of s _ t tr] by (auto simp: fields lookup_filter [OF ids] split: option.splits)
  have inv: "identity_ok c ?d"
    using ok unfolding identity_ok_def fields tenants_ok_def members_ok_def grant_rows_ok_def
    by (auto simp: keys_ok_filter distinct_map_filter image_filter_ne)
  have mem: "lookup (\<lambda>m. (m_tenant m, m_user m)) (x, y) (memberships ?d)
      = (if x = ?k then None else lookup (\<lambda>m. (m_tenant m, m_user m)) (x, y) (memberships d))" for x y
    unfolding fields by (rule members_lookup_filter)
  have members: "i_members (identity_of ?d) (u, s) = (if s = t then None else i_members (identity_of d) (u, s))" for u s
    using Some at_same_row(1) [OF ok, of s _ t tr]
    by (auto simp: identity_members at mem fields(2) split: bind_splits)
  have grants: "row_grants ?d r g \<longleftrightarrow> row_grants d r g \<and> scope_tenant (g_scope g) \<noteq> Some t"
    if "g_tenant r \<noteq> Some ?k" for r g
    using that Some by (cases "scope_tenant (g_scope g)") (auto simp: row_grants_def at fields(2))
  have gone: "scope_tenant (g_scope g) = Some t" if "row_grants d r g" "g_tenant r = Some ?k" for r g
  proof (cases "scope_tenant (g_scope g)")
    case None
    then show ?thesis using that by (simp add: row_grants_def)
  next
    case at: (Some s)
    with that have "\<exists>y. tenant_at d s = Some y \<and> t_row y = ?k" by (auto simp: row_grants_def)
    then obtain y where "tenant_at d s = Some y" "t_row y = ?k" by blast
    then show ?thesis using at at_same_row(1) [OF ok, of s y t tr] Some by simp
  qed
  have "i_grants (identity_of ?d) = {g \<in> i_grants (identity_of d). scope_tenant (g_scope g) \<noteq> Some t}"
    unfolding identity_grants fields(4) using grants gone by fastforce
  then have "identity_of ?d = (identity_of d)
      \<lparr>i_tenants := (i_tenants (identity_of d))(t := None),
       i_members := (\<lambda>(u, s). if s = t then None else i_members (identity_of d) (u, s)),
       i_grants := {g \<in> i_grants (identity_of d). scope_tenant (g_scope g) \<noteq> Some t}\<rparr>"
    using members by (intro identity.equality) (auto simp: fun_eq_iff identity_of_def at fields(2))
  then show ?thesis using Some inv by (simp add: delete_tenant_def) (simp add: identity_of_def)
qed

lemma user_known:
  assumes "identity_ok c d"
  shows "i_users (identity_of d) u = None \<longleftrightarrow> user_at d u = None"
    and "i_tenants (identity_of d) t = None \<longleftrightarrow> tenant_at d t = None"
proof -
  have "\<exists>k. u_kind r = account_kind_name k" if "user_at d u = Some r" for r
    using assms lookup_SomeD [OF that] by (auto simp: identity_ok_def users_ok_def)
  then show "i_users (identity_of d) u = None \<longleftrightarrow> user_at d u = None"
    by (cases "user_at d u") (auto simp: identity_of_def)
qed (simp add: identity_of_def)

lemma delete_user_refines:
  assumes ok: "identity_ok c d"
  shows "(case delete_user v d of
      Err e \<Rightarrow> i_users (identity_of d) v = None \<and> e = NotFound EntUser (user_str v)
    | Ok d' \<Rightarrow> identity_ok c d' \<and> i_users (identity_of d) v \<noteq> None
        \<and> identity_of d' = (identity_of d)
            \<lparr>i_users := (i_users (identity_of d))(v := None),
             i_members := (\<lambda>(u, s). if u = v then None else i_members (identity_of d) (u, s)),
             i_grants := {g \<in> i_grants (identity_of d). scope_user (g_scope g) \<noteq> v}\<rparr>)"
proof (cases "user_at d v")
  case None
  then show ?thesis using user_known(1) [OF ok] by (simp add: delete_user_def)
next
  case (Some ur)
  let ?k = "u_row ur" let ?d = "delete_user_row ?k d"
  have fields: "users ?d = filter (\<lambda>r. u_row r \<noteq> ?k) (users d)" "tenants ?d = tenants d"
    "memberships ?d = filter (\<lambda>r. m_user r \<noteq> ?k) (memberships d)"
    "grants_tbl ?d = filter (\<lambda>r. g_user r \<noteq> ?k) (grants_tbl d)"
    by (simp_all add: delete_user_row_def)
  have ids: "distinct (map u_id (users d))" using ok by (simp add: identity_ok_def users_ok_def)
  have at: "user_at ?d s = (if s = v then None else user_at d s)" for s
    using Some at_same_row(2) [OF ok, of s _ v ur] by (auto simp: fields lookup_filter [OF ids] split: option.splits)
  have inv: "identity_ok c ?d"
    using ok unfolding identity_ok_def fields users_ok_def members_ok_def grant_rows_ok_def
    by (auto simp: keys_ok_filter distinct_map_filter image_filter_ne)
  have mem: "lookup (\<lambda>m. (m_tenant m, m_user m)) (x, y) (memberships ?d)
      = (if y = ?k then None else lookup (\<lambda>m. (m_tenant m, m_user m)) (x, y) (memberships d))" for x y
    unfolding fields by (rule members_lookup_filter)
  have members: "i_members (identity_of ?d) (u, s) = (if u = v then None else i_members (identity_of d) (u, s))" for u s
    using Some at_same_row(2) [OF ok, of u _ v ur]
    by (auto simp: identity_members at mem fields(2) split: bind_splits)
  have grants: "row_grants ?d r g \<longleftrightarrow> row_grants d r g \<and> scope_user (g_scope g) \<noteq> v" if "g_user r \<noteq> ?k" for r g
    using that Some by (cases "scope_tenant (g_scope g)") (auto simp: row_grants_def at fields(2))
  have gone: "scope_user (g_scope g) = v" if "row_grants d r g" "g_user r = ?k" for r g
    using that Some at_same_row(2) [OF ok, of "scope_user (g_scope g)" _ v ur] by (auto simp: row_grants_def)
  have "i_grants (identity_of ?d) = {g \<in> i_grants (identity_of d). scope_user (g_scope g) \<noteq> v}"
    unfolding identity_grants fields(4) using grants gone by fastforce
  then have "identity_of ?d = (identity_of d)
      \<lparr>i_users := (i_users (identity_of d))(v := None),
       i_members := (\<lambda>(u, s). if u = v then None else i_members (identity_of d) (u, s)),
       i_grants := {g \<in> i_grants (identity_of d). scope_user (g_scope g) \<noteq> v}\<rparr>"
    using members by (intro identity.equality) (auto simp: fun_eq_iff identity_of_def at fields(2))
  then show ?thesis using Some inv user_known(1) [OF ok] by (simp add: delete_user_def)
qed

lemma set_passphrase_refines:
  assumes ok: "identity_ok c d" and hash: "is_ok (passphrase_hash_new (phc_str h))"
  shows "(case set_passphrase v h d of
      Err e \<Rightarrow> i_users (identity_of d) v = None \<and> e = NotFound EntUser (user_str v)
    | Ok d' \<Rightarrow> identity_ok c d'
        \<and> (\<exists>old kind. i_users (identity_of d) v = Some (old, kind)
          \<and> identity_of d' = (identity_of d)\<lparr>i_users := (i_users (identity_of d))(v \<mapsto> (h, kind))\<rparr>))"
proof (cases "user_at d v")
  case None
  then show ?thesis using user_known(1) [OF ok] by (simp add: set_passphrase_def has_row_lookup)
next
  case (Some ur)
  let ?h = "\<lambda>r. if u_id r = user_str v then r\<lparr>u_passphrase := phc_str h\<rparr> else r"
  let ?d = "d\<lparr>users := map ?h (users d)\<rparr>"
  obtain kind where kind: "u_kind ur = account_kind_name kind"
    using ok lookup_SomeD [OF Some] by (auto simp: identity_ok_def users_ok_def)
  have keys: "map u_row (map ?h us) = map u_row us" "map u_id (map ?h us) = map u_id us" for us
    by simp_all
  have img: "u_row ` set (map ?h us) = u_row ` set us" for us
    using keys(1) [of us] by (metis list.set_map)
  have inv: "identity_ok c ?d"
    using ok hash unfolding identity_ok_def users_ok_def members_ok_def grant_rows_ok_def
    by (simp add: keys img keys_ok_def del: map_map set_map) auto
  have at: "lookup u_id (user_str u) (map ?h (users d)) = map_option ?h (user_at d u)" for u
    by (rule lookup_map) simp
  have user_at: "lookup u_id (user_str u) (map ?h (users d))
      = (if u = v then Some (ur\<lparr>u_passphrase := phc_str h\<rparr>) else user_at d u)" for u
    using Some lookup_SomeD [of u_id "user_str u" "users d"] unfolding at
    by (cases "user_at d u"; cases u; cases v) auto
  then have row: "map_option u_row (lookup u_id (user_str u) (map ?h (users d))) = map_option u_row (user_at d u)" for u
    using Some by simp
  have "i_users (identity_of ?d) = (i_users (identity_of d))(v \<mapsto> (h, kind))"
    using kind by (simp add: identity_of_def user_at fun_eq_iff)
  moreover have "i_members (identity_of ?d) = i_members (identity_of d)"
    using Some by (auto simp: identity_members user_at fun_eq_iff)
  moreover have "row_grants ?d r g = row_grants d r g" for r g
    by (cases "scope_tenant (g_scope g)") (simp_all add: row_grants_def row)
  then have "i_grants (identity_of ?d) = i_grants (identity_of d)" by (simp add: identity_grants)
  ultimately have "identity_of ?d = (identity_of d)\<lparr>i_users := (i_users (identity_of d))(v \<mapsto> (h, kind))\<rparr>"
    by (intro identity.equality) (simp_all add: identity_of_def)
  moreover have "i_users (identity_of d) v = Some (PassphraseHash (u_passphrase ur), kind)"
    using Some kind by (simp add: identity_of_def)
  ultimately show ?thesis using inv Some by (simp add: set_passphrase_def has_row_lookup)
qed

lemma find_in_scope:
  assumes ok: "identity_ok c d"
  shows "List.find (\<lambda>r. in_scope_of u t d (m_user r) (m_tenant r)) (memberships d) = member_at d u t"
proof (cases "user_at d u"; cases "tenant_at d t")
  fix ur tr assume "user_at d u = Some ur" "tenant_at d t = Some tr"
  then show ?thesis
    by (simp add: in_scope_of_def member_at_def lookup_def) (metis (mono_tags) )
qed (simp_all add: in_scope_of_def member_at_def find_None_iff)

lemma row_grants_scope:
  assumes ok: "identity_ok c d" and r: "row_grants d r g"
  shows "(case g_tenant r of None \<Rightarrow> False | Some tk \<Rightarrow> in_scope_of u t d (g_user r) tk)
    \<longleftrightarrow> scope_user (g_scope g) = u \<and> scope_tenant (g_scope g) = Some t"
proof -
  obtain ur where ur: "user_at d (scope_user (g_scope g)) = Some ur" "u_row ur = g_user r"
    using r by (auto simp: row_grants_def)
  show ?thesis
  proof (cases "scope_tenant (g_scope g)")
    case None
    then show ?thesis using r by (simp add: row_grants_def)
  next
    case (Some s)
    then obtain tr where tr: "tenant_at d s = Some tr" "g_tenant r = Some (t_row tr)"
      using r by (auto simp: row_grants_def)
    show ?thesis
      using tr ur Some at_same_row(1) [OF ok tr(1), of t] at_same_row(2) [OF ok ur(1), of u]
      by (auto simp: in_scope_of_def)
  qed
qed

lemma row_grants_inj:
  assumes "identity_ok c d" "r \<in> set (grants_tbl d)" "s \<in> set (grants_tbl d)" "row_grants d r g" "row_grants d s g"
  shows "r = s"
proof -
  have "inj_on (\<lambda>r. (g_user r, g_tenant r, g_api r, g_cap r)) (set (grants_tbl d))"
    using assms(1) by (simp add: identity_ok_def grant_rows_ok_def distinct_map)
  moreover have "(g_user r, g_tenant r, g_api r, g_cap r) = (g_user s, g_tenant s, g_api s, g_cap s)"
    using assms(4,5) by (cases "scope_tenant (g_scope g)") (auto simp: row_grants_def)
  ultimately show ?thesis using assms(2,3) by (rule inj_onD)
qed

lemma row_has_grant:
  assumes ok: "identity_ok c d" and r: "r \<in> set (grants_tbl d)"
  shows "\<exists>g. row_grants d r g \<and> (\<forall>h. row_grants d r h \<longrightarrow> h = g)"
proof -
  have "g_user r \<in> u_row ` set (users d)" using identity_rows(2) [OF ok r] .
  then obtain ur where ur: "ur \<in> set (users d)" "u_row ur = g_user r" by auto
  let ?u = "UserId (u_id ur)"
  have at: "user_at d ?u = Some ur" using ur(1) identity_lookups(2) [OF ok, of ?u ur] by simp
  have "r \<in> set (grants_join ?u d)" using r ur by (auto simp: grants_join_iff)
  then obtain g where g: "\<forall>h. row_grants d r h \<and> scope_user (g_scope h) = ?u \<longleftrightarrow> h = g"
    using grant_row_reads [OF ok] by blast
  have "scope_user (g_scope h) = ?u" if "row_grants d r h" for h
    using that at ur(2) at_same_row(2) [OF ok _ at, of "scope_user (g_scope h)"] by (auto simp: row_grants_def)
  then show ?thesis using g by blast
qed

lemma card_row_grants:
  assumes ok: "identity_ok c d" and P: "\<And>r g. r \<in> set (grants_tbl d) \<Longrightarrow> row_grants d r g \<Longrightarrow> P r \<longleftrightarrow> Q g"
  shows "length (filter P (grants_tbl d)) = card {g \<in> i_grants (identity_of d). Q g}"
proof -
  define G where "G r = (THE g. row_grants d r g)" for r
  have G: "row_grants d r g \<longleftrightarrow> g = G r" if "r \<in> set (grants_tbl d)" for r g
  proof -
    obtain x where x: "row_grants d r x" "\<And>h. row_grants d r h \<Longrightarrow> h = x"
      using row_has_grant [OF ok \<open>r \<in> set (grants_tbl d)\<close>] by blast
    then have "G r = x" unfolding G_def by (rule the_equality)
    then show ?thesis using x by blast
  qed
  have "inj_on G {r \<in> set (grants_tbl d). P r}"
    by (intro inj_onI row_grants_inj [OF ok]) (auto simp: G)
  moreover have "{g \<in> i_grants (identity_of d). Q g} = G ` {r \<in> set (grants_tbl d). P r}"
    using P by (auto simp: identity_grants G)
  moreover have "distinct (filter P (grants_tbl d))"
    using ok by (simp add: identity_ok_def grant_rows_ok_def keys_ok_def distinct_map)
  ultimately show ?thesis
    by (simp add: card_image distinct_card [symmetric])
qed

lemma member_remove_refines:
  assumes ok: "identity_ok c d"
  shows "(case member_remove u t d of
      Err e \<Rightarrow> i_members (identity_of d) (u, t) = None \<and> e = NotFound EntMembership (user_str u @ ''@'' @ tenant_str t)
    | Ok (x, d') \<Rightarrow> identity_ok c d'
        \<and> i_members (identity_of d) (u, t) = Some (mb_standing (mr_membership x))
        \<and> mr_revoked x = card {g \<in> i_grants (identity_of d). scope_user (g_scope g) = u \<and> scope_tenant (g_scope g) = Some t}
        \<and> identity_of d' = (identity_of d)
            \<lparr>i_members := (i_members (identity_of d))((u, t) := None),
             i_grants := {g \<in> i_grants (identity_of d). \<not> (scope_user (g_scope g) = u \<and> scope_tenant (g_scope g) = Some t)}\<rparr>)"
proof (cases "member_at d u t")
  case None
  then show ?thesis by (simp add: member_remove_def delete_membership_def find_in_scope [OF ok] identity_of_def)
next
  case (Some m)
  then obtain ur tr st where at: "user_at d u = Some ur" "tenant_at d t = Some tr" "m \<in> set (memberships d)"
    "m_tenant m = t_row tr" "m_user m = u_row ur" "m_standing m = standing_name st"
    using ok by (auto simp: member_at_Some_iff [OF ok] identity_ok_def members_ok_def)
  let ?in = "in_scope_of u t d" and ?key = "\<lambda>m. (m_tenant m, m_user m)"
  let ?here = "\<lambda>r. case g_tenant r of None \<Rightarrow> False | Some tk \<Rightarrow> ?in (g_user r) tk"
  let ?d1 = "d\<lparr>memberships := filter (\<lambda>r. \<not> ?in (m_user r) (m_tenant r)) (memberships d)\<rparr>"
  let ?d = "?d1\<lparr>grants_tbl := filter (\<lambda>r. \<not> ?here r) (grants_tbl d)\<rparr>"
  have scope: "in_scope_of u t ?d1 = ?in" by (simp add: in_scope_of_def fun_eq_iff)
  have res: "member_remove u t d = Ok (\<lparr>mr_membership = \<lparr>mb_user = u, mb_tenant = t, mb_standing = st\<rparr>,
      mr_revoked = length (filter ?here (grants_tbl d))\<rparr>, ?d)"
    using Some at(6)
    by (simp add: member_remove_def delete_membership_def find_in_scope [OF ok] delete_grants_in_tenant_def Let_def scope
        cong: option.case_cong)
  have inv: "identity_ok c ?d"
    using ok by (auto simp: identity_ok_def members_ok_def grant_rows_ok_def keys_ok_filter distinct_map_filter)
  have pair: "?in x y \<longleftrightarrow> (y, x) = (t_row tr, u_row ur)" for x y using at by (auto simp: in_scope_of_def)
  have drop: "lookup ?key k (filter (\<lambda>r. \<not> ?in (m_user r) (m_tenant r)) ms)
      = (if k = (t_row tr, u_row ur) then None else lookup ?key k ms)" for k and ms :: "member_row list"
    unfolding pair by (induction ms) (auto simp: lookup_def)
  have fields: "tenants ?d = tenants d" "users ?d = users d"
    "memberships ?d = filter (\<lambda>r. \<not> ?in (m_user r) (m_tenant r)) (memberships d)" by simp_all
  have "i_members (identity_of ?d) (v, s) = (if v = u \<and> s = t then None else i_members (identity_of d) (v, s))" for v s
  proof (cases "user_at d v"; cases "tenant_at d s")
    fix ur' tr' assume "user_at d v = Some ur'" "tenant_at d s = Some tr'"
    moreover from this have "(t_row tr', u_row ur') = (t_row tr, u_row ur) \<longleftrightarrow> v = u \<and> s = t"
      using at at_same_row [OF ok] by auto
    ultimately show ?thesis by (simp only: identity_members fields drop) simp
  qed (use at in \<open>auto simp: identity_members\<close>)
  then have members: "i_members (identity_of ?d) = (i_members (identity_of d))((u, t) := None)" by (auto simp: fun_eq_iff)
  have grants: "i_grants (identity_of ?d) =
      {g \<in> i_grants (identity_of d). \<not> (scope_user (g_scope g) = u \<and> scope_tenant (g_scope g) = Some t)}"
    using row_grants_scope [OF ok, of _ _ u t] row_grants_cong [of ?d d] by (auto simp: identity_grants)
  have "identity_of ?d = (identity_of d)
      \<lparr>i_members := (i_members (identity_of d))((u, t) := None),
       i_grants := {g \<in> i_grants (identity_of d). \<not> (scope_user (g_scope g) = u \<and> scope_tenant (g_scope g) = Some t)}\<rparr>"
    using members grants identity_frame(1,2) [of ?d d] by (intro identity.equality) simp_all
  moreover have "i_members (identity_of d) (u, t) = Some st" using Some at(6) by (simp add: identity_of_def)
  moreover have "length (filter ?here (grants_tbl d)) =
      card {g \<in> i_grants (identity_of d). scope_user (g_scope g) = u \<and> scope_tenant (g_scope g) = Some t}"
    by (rule card_row_grants [OF ok]) (rule row_grants_scope [OF ok])
  ultimately show ?thesis using res inv by simp
qed

definition grant_wf :: "grant \<Rightarrow> bool" where
  "grant_wf g = (scope_kind (g_capability g) = kind_of (g_scope g)
     \<and> is_none_or (scope_api (g_scope g)) (\<lambda>a. id_ok (api_str a)))"

lemma row_grants_keys:
  "row_grants d r g \<longleftrightarrow> grant_keys g d = Ok (g_user r, g_tenant r)
     \<and> g_api r = map_option api_str (scope_api (g_scope g)) \<and> g_cap r = capability_name (g_capability g)"
  by (cases "scope_tenant (g_scope g)")
    (auto simp: row_grants_def grant_keys_def rbind_Ok_iff row_id_of_iff)

lemma grant_keys_rows:
  assumes ok: "identity_ok c d" and k: "grant_keys g d = Ok (uk, tk)"
  shows "uk \<in> u_row ` set (users d)" "tk = Some x \<Longrightarrow> x \<in> t_row ` set (tenants d)"
    and "(tk = None) = (scope_tenant (g_scope g) = None)"
  using k by (auto simp: grant_keys_def rbind_Ok_iff row_id_of_iff split: option.splits dest!: lookup_SomeD)

lemma tenant_rows_pos: "identity_ok c d \<Longrightarrow> k \<in> t_row ` set (tenants d) \<Longrightarrow> 1 \<le> k"
  by (auto simp: identity_ok_def tenants_ok_def keys_ok_def)

lemma same_grant_row:
  assumes ok: "identity_ok c d" and k: "grant_keys g d = Ok (uk, tk)" and wf: "grant_wf g" and r: "r \<in> set (grants_tbl d)"
  shows "same_grant uk tk (map_option api_str (scope_api (g_scope g))) (capability_name (g_capability g)) r
    \<longleftrightarrow> row_grants d r g"
proof -
  have "unwrap_or (g_tenant r) 0 = unwrap_or tk 0 \<longleftrightarrow> g_tenant r = tk"
    using identity_rows(3) [OF ok r] grant_keys_rows(2) [OF ok k] tenant_rows_pos [OF ok]
    by (cases "g_tenant r"; cases tk) force+
  moreover have "g_api r = Some a \<Longrightarrow> a \<noteq> []" for a
    using ok r by (auto simp: identity_ok_def grant_rows_ok_def id_ok_def)
  then have "unwrap_or (g_api r) [] = unwrap_or (map_option api_str (scope_api (g_scope g))) []
      \<longleftrightarrow> g_api r = map_option api_str (scope_api (g_scope g))"
    using wf by (cases "g_api r"; cases "scope_api (g_scope g)") (auto simp: grant_wf_def is_none_or_def id_ok_def)
  ultimately show ?thesis
    using k by (auto simp: same_grant_def row_grants_keys)
qed

lemma identity_of_grants:
  "identity_of (d\<lparr>grants_tbl := gs\<rparr>) = (identity_of d)\<lparr>i_grants := {g. \<exists>r\<in>set gs. row_grants d r g}\<rparr>"
  by (simp add: identity_of_def member_at_def row_grants_cong [of "d\<lparr>grants_tbl := gs\<rparr>" d])

lemma grant_keys_Err:
  assumes ok: "identity_ok c d" and "grant_keys g d = Err e"
  shows "i_users (identity_of d) (scope_user (g_scope g)) = None
    \<or> (\<exists>t. scope_tenant (g_scope g) = Some t \<and> i_tenants (identity_of d) t = None)"
  using assms(2) user_known [OF ok]
  by (auto simp: grant_keys_def rbind_Err_iff row_id_of_iff split: option.splits)

lemma store_grant_refines:
  assumes ok: "identity_ok c d" and wf: "grant_wf g"
  shows "(case store_grant g now d of
      Err e \<Rightarrow> i_users (identity_of d) (scope_user (g_scope g)) = None
        \<or> (\<exists>t. scope_tenant (g_scope g) = Some t \<and> i_tenants (identity_of d) t = None)
    | Ok d' \<Rightarrow> identity_ok c d' \<and> identity_of d' = (identity_of d)\<lparr>i_grants := insert g (i_grants (identity_of d))\<rparr>)"
proof (cases "grant_keys g d")
  case (Inl e)
  then show ?thesis using grant_keys_Err [OF ok] by (simp add: store_grant_def)
next
  case (Inr p)
  obtain uk tk where p: "p = (uk, tk)" by (cases p)
  then have k: "grant_keys g d = Ok (uk, tk)" using Inr by simp
  let ?api = "map_option api_str (scope_api (g_scope g))" and ?cap = "capability_name (g_capability g)"
  have same: "list_ex (same_grant uk tk ?api ?cap) (grants_tbl d) \<longleftrightarrow> g \<in> i_grants (identity_of d)"
    using same_grant_row [OF ok k wf] by (auto simp: list_ex_iff identity_grants)
  show ?thesis
  proof (cases "g \<in> i_grants (identity_of d)")
    case True
    then have "insert g (i_grants (identity_of d)) = i_grants (identity_of d)" by blast
    then show ?thesis using True same k ok by (simp add: store_grant_def insert_grant_def Let_def)
  next
    case False
    let ?r = "\<lparr>g_row = next_row (map g_row (grants_tbl d)), g_user = uk, g_tenant = tk, g_api = ?api,
                g_cap = ?cap, g_created = unix_seconds now\<rparr>"
    let ?d = "d\<lparr>grants_tbl := grants_tbl d @ [?r]\<rparr>"
    note rows = grant_keys_rows [OF ok k]
    have fk: "has_row u_row uk (users d)" "null_or_row t_row tk (tenants d)"
      using rows by (auto simp: has_row_iff null_or_row_def split: option.splits)
    have "(uk, tk, ?api, ?cap) \<notin> (\<lambda>r. (g_user r, g_tenant r, g_api r, g_cap r)) ` set (grants_tbl d)"
      using False k by (auto simp: identity_grants row_grants_keys)
    moreover have "shape_of tk ?api = Some (scope_kind (g_capability g))"
      using wf rows(3) by (cases "g_scope g"; cases tk) (auto simp: grant_wf_def)
    moreover have "is_none_or ?api id_ok" using wf by (auto simp: grant_wf_def is_none_or_def split: option.splits)
    ultimately have inv: "identity_ok c ?d"
      using ok rows(1,2) keys_ok_append [of g_row "grants_tbl d" ?r]
      by (auto simp: identity_ok_def grant_rows_ok_def is_none_or_def)
    have "row_grants ?d ?r g" using k by (simp add: row_grants_keys grant_keys_def tenant_row_id_of_def user_row_id_of_def cong: option.case_cong)
    then have "row_grants d ?r g" by (simp add: row_grants_cong [of ?d d])
    moreover have "h = g" if "row_grants d ?r h" for h
      using row_has_grant [OF inv, of ?r] \<open>row_grants ?d ?r g\<close> that row_grants_cong [of ?d d ?r h] by auto
    ultimately have "{h. \<exists>r\<in>set (grants_tbl d @ [?r]). row_grants d r h} = insert g (i_grants (identity_of d))"
      by (auto simp: identity_grants)
    then have "identity_of ?d = (identity_of d)\<lparr>i_grants := insert g (i_grants (identity_of d))\<rparr>"
      by (simp only: identity_of_grants)
    then show ?thesis using False same k inv fk by (simp add: store_grant_def insert_grant_def Let_def)
  qed
qed

lemma store_revoke_refines:
  assumes ok: "identity_ok c d"
  shows "(case store_revoke g d of
      Err e \<Rightarrow> g \<notin> i_grants (identity_of d)
    | Ok d' \<Rightarrow> identity_ok c d' \<and> g \<in> i_grants (identity_of d)
        \<and> identity_of d' = (identity_of d)\<lparr>i_grants := i_grants (identity_of d) - {g}\<rparr>)"
proof (cases "grant_keys g d")
  case (Inl e)
  then show ?thesis by (auto simp: store_revoke_def identity_grants row_grants_keys)
next
  case (Inr p)
  obtain uk tk where p: "p = (uk, tk)" by (cases p)
  let ?here = "\<lambda>r. g_user r = uk \<and> g_tenant r = tk \<and> g_api r = map_option api_str (scope_api (g_scope g))
      \<and> g_cap r = capability_name (g_capability g)"
  let ?d = "d\<lparr>grants_tbl := filter (\<lambda>r. \<not> ?here r) (grants_tbl d)\<rparr>"
  have here: "?here r \<longleftrightarrow> row_grants d r g" for r using Inr p by (auto simp: row_grants_keys)
  have ex: "list_ex ?here (grants_tbl d) \<longleftrightarrow> g \<in> i_grants (identity_of d)"
    unfolding here by (auto simp: list_ex_iff identity_grants)
  have inv: "identity_ok c ?d"
    using ok by (auto simp: identity_ok_def grant_rows_ok_def keys_ok_filter distinct_map_filter)
  have "h = g" if "r \<in> set (grants_tbl d)" "row_grants d r g" "row_grants d r h" for r h
    using row_has_grant [OF ok that(1)] that by blast
  then have "{h. \<exists>r\<in>set (filter (\<lambda>r. \<not> ?here r) (grants_tbl d)). row_grants d r h} = i_grants (identity_of d) - {g}"
    unfolding here by (auto simp: identity_grants)
  then have "identity_of ?d = (identity_of d)\<lparr>i_grants := i_grants (identity_of d) - {g}\<rparr>"
    by (simp only: identity_of_grants)
  then show ?thesis using inv ex Inr p by (simp add: store_revoke_def Let_def)
qed

end
