(* ===== verification/Identity_Spec.thy ===== *)
theory Identity_Spec
  imports Store_Identity Net
begin

text \<open>
  What the identity store promises, without its tables: the traits of
  \<open>crates/ip-storage/src/store.rs\<close> and the transactions of \<open>src/transaction\<close> as operations on the
  tenants, users, memberships and grants there are, and that the sqlite statements carry them out.
\<close>

section \<open>Operations\<close>

datatype identity_op =
    CreateTenant new_tenant
  | CreateUser new_user
  | DeleteTenant tenant_id
  | DeleteUser user_id
  | SetPassphrase user_id passphrase_hash
  | Attach membership
  | AddGrant grant
  | Revoke grant
  | UserCreate new_tenant new_user standing
  | MemberAdd new_user tenant_id standing
  | MemberRemove user_id tenant_id

fun run_op :: "timestamp \<Rightarrow> identity_op \<Rightarrow> db \<Rightarrow> (storage_error, db) result" where
  "run_op now (CreateTenant new) d = map_sum id snd (insert_tenant new now d)"
| "run_op now (CreateUser new) d = map_sum id snd (insert_user new now d)"
| "run_op now (DeleteTenant t) d = delete_tenant t d"
| "run_op now (DeleteUser u) d = delete_user u d"
| "run_op now (SetPassphrase u h) d = set_passphrase u h d"
| "run_op now (Attach m) d = insert_membership m now d"
| "run_op now (AddGrant g) d = store_grant g now d"
| "run_op now (Revoke g) d = store_revoke g d"
| "run_op now (UserCreate nt nu st) d = map_sum id snd (user_create nt nu st now d)"
| "run_op now (MemberAdd nu t st) d = map_sum id snd (member_add nu t st now d)"
| "run_op now (MemberRemove u t) d = map_sum id snd (member_remove u t d)"

definition known_scope :: "identity \<Rightarrow> grant \<Rightarrow> bool" where
  "known_scope i g =
     (i_users i (scope_user (g_scope g)) \<noteq> None
      \<and> (\<forall>t. scope_tenant (g_scope g) = Some t \<longrightarrow> i_tenants i t \<noteq> None))"

text \<open>What an operation does, or nothing where it is refused.\<close>

definition spec_create_tenant :: "new_tenant \<Rightarrow> identity \<Rightarrow> identity option" where
  "spec_create_tenant new i =
     (if i_tenants i (nt_id new) \<noteq> None then None
      else Some (i\<lparr>i_tenants := (i_tenants i)(nt_id new \<mapsto> nt_key new)\<rparr>))"

definition spec_create_user :: "new_user \<Rightarrow> identity \<Rightarrow> identity option" where
  "spec_create_user new i =
     (if i_users i (nu_id new) \<noteq> None then None
      else Some (i\<lparr>i_users := (i_users i)(nu_id new \<mapsto> (nu_passphrase new, nu_kind new))\<rparr>))"

definition spec_attach :: "user_id \<Rightarrow> tenant_id \<Rightarrow> standing \<Rightarrow> identity \<Rightarrow> identity option" where
  "spec_attach u t st i =
     (if i_tenants i t = None \<or> i_users i u = None then None
      else Some (i\<lparr>i_members := (i_members i)((u, t) \<mapsto> st)\<rparr>))"

fun spec_op :: "identity_op \<Rightarrow> identity \<Rightarrow> identity option" where
  "spec_op (CreateTenant new) i = spec_create_tenant new i"
| "spec_op (CreateUser new) i = spec_create_user new i"
| "spec_op (DeleteTenant t) i =
     (if i_tenants i t = None then None
      else Some (i\<lparr>i_tenants := (i_tenants i)(t := None),
                   i_members := (\<lambda>(u, s). if s = t then None else i_members i (u, s)),
                   i_grants := {g \<in> i_grants i. scope_tenant (g_scope g) \<noteq> Some t}\<rparr>))"
| "spec_op (DeleteUser v) i =
     (if i_users i v = None then None
      else Some (i\<lparr>i_users := (i_users i)(v := None),
                   i_members := (\<lambda>(u, s). if u = v then None else i_members i (u, s)),
                   i_grants := {g \<in> i_grants i. scope_user (g_scope g) \<noteq> v}\<rparr>))"
| "spec_op (SetPassphrase u h) i =
     (case i_users i u of
        None \<Rightarrow> None
      | Some (_, kd) \<Rightarrow> Some (i\<lparr>i_users := (i_users i)(u \<mapsto> (h, kd))\<rparr>))"
| "spec_op (Attach m) i = spec_attach (mb_user m) (mb_tenant m) (mb_standing m) i"
| "spec_op (AddGrant g) i =
     (if known_scope i g then Some (i\<lparr>i_grants := insert g (i_grants i)\<rparr>) else None)"
| "spec_op (Revoke g) i = (if g \<in> i_grants i then Some (i\<lparr>i_grants := i_grants i - {g}\<rparr>) else None)"
| "spec_op (UserCreate nt nu st) i =
     Option.bind (spec_create_tenant nt i) (\<lambda>i.
     Option.bind (spec_create_user nu i) (spec_attach (nu_id nu) (nt_id nt) st))"
| "spec_op (MemberAdd nu t st) i = Option.bind (spec_create_user nu i) (spec_attach (nu_id nu) t st)"
| "spec_op (MemberRemove u t) i =
     (if i_members i (u, t) = None then None
      else Some (i\<lparr>i_members := (i_members i)((u, t) := None),
                   i_grants := {g \<in> i_grants i. \<not> (scope_user (g_scope g) = u \<and> scope_tenant (g_scope g) = Some t)}\<rparr>))"

text \<open>What the types of the code guarantee of the values an operation carries.\<close>

definition new_tenant_ok :: "new_tenant \<Rightarrow> bool" where
  "new_tenant_ok nt = (id_ok (tenant_str (nt_id nt)) \<and> tn_key_ok (nt_key nt))"

definition new_user_ok :: "new_user \<Rightarrow> bool" where
  "new_user_ok nu = (id_ok (user_str (nu_id nu)) \<and> is_ok (passphrase_hash_new (phc_str (nu_passphrase nu))))"

fun op_ok :: "identity_op \<Rightarrow> bool" where
  "op_ok (CreateTenant nt) = new_tenant_ok nt"
| "op_ok (CreateUser nu) = new_user_ok nu"
| "op_ok (SetPassphrase _ h) = is_ok (passphrase_hash_new (phc_str h))"
| "op_ok (AddGrant g) = grant_wf g"
| "op_ok (UserCreate nt nu _) = (new_tenant_ok nt \<and> new_user_ok nu)"
| "op_ok (MemberAdd nu _ _) = new_user_ok nu"
| "op_ok _ = True"

section \<open>The statements carry them out\<close>

definition refines :: "crates \<Rightarrow> timestamp \<Rightarrow> identity_op \<Rightarrow> db \<Rightarrow> bool" where
  "refines c now op d =
     (case run_op now op d of
        Err e \<Rightarrow> spec_op op (identity_of d) = None
      | Ok d' \<Rightarrow> identity_ok c d' \<and> spec_op op (identity_of d) = Some (identity_of d'))"

lemma create_refines:
  assumes "identity_ok c d" "timestamp_opt (cal c) (unix_seconds now)"
  shows "new_tenant_ok nt \<Longrightarrow> refines c now (CreateTenant nt) d"
    and "new_user_ok nu \<Longrightarrow> refines c now (CreateUser nu) d"
  using insert_tenant_refines [OF assms(1), of nt now] insert_user_refines [OF assms(1), of nu now] assms(2)
  by (auto simp: refines_def new_tenant_ok_def new_user_ok_def spec_create_tenant_def spec_create_user_def
      split: sum.splits)

lemma attach_refines: "identity_ok c d \<Longrightarrow> refines c now (Attach m) d"
  using insert_membership_refines [of c d m now] by (auto simp: refines_def spec_attach_def split: sum.splits)

lemma grant_refines:
  assumes ok: "identity_ok c d" and wf: "grant_wf g"
  shows "refines c now (AddGrant g) d"
proof (cases "store_grant g now d")
  case (Inl e)
  then show ?thesis
    using store_grant_refines [OF assms, of now] by (auto simp: refines_def known_scope_def)
next
  case (Inr d')
  have "known_scope (identity_of d) g"
  proof -
    obtain uk tk where "grant_keys g d = Ok (uk, tk)"
      using Inr by (cases "grant_keys g d") (auto simp: store_grant_def)
    then show ?thesis
      using user_known [OF ok]
      by (auto simp: known_scope_def grant_keys_def rbind_Ok_iff row_id_of_iff split: option.splits)
  qed
  then show ?thesis using Inr store_grant_refines [OF assms, of now] by (simp add: refines_def)
qed

text \<open>A transaction is its steps in order.\<close>

lemma refines_Ok: "refines c now op d \<Longrightarrow> run_op now op d = Ok d' \<Longrightarrow> identity_ok c d' \<and> spec_op op (identity_of d) = Some (identity_of d')"
  and refines_Err: "refines c now op d \<Longrightarrow> run_op now op d = Err e \<Longrightarrow> spec_op op (identity_of d) = None"
  by (simp_all add: refines_def)

lemma insert_names:
  "insert_tenant nt now d = Ok (x, d') \<Longrightarrow> tenant_name x = nt_id nt"
  "insert_user nu now d = Ok (y, d') \<Longrightarrow> user_name y = nu_id nu"
  by (auto simp: insert_tenant_def insert_user_def Let_def split: if_splits)

lemma map_snd_rbind: "map_sum id snd (rbind r (\<lambda>d. Ok (f d, d))) = r"
  by (cases r) simp_all

lemma member_add_refines:
  assumes ok: "identity_ok c d" "timestamp_opt (cal c) (unix_seconds now)" and new: "new_user_ok nu"
  shows "refines c now (MemberAdd nu t st) d"
proof (cases "insert_user nu now d")
  case (Inl e)
  then show ?thesis
    using refines_Err [OF create_refines(2) [OF ok new], of e] by (simp add: refines_def member_add_def)
next
  case (Inr p)
  obtain y d1 where p: "insert_user nu now d = Ok (y, d1)" using Inr by (cases p) auto
  let ?m = "\<lparr>mb_user = nu_id nu, mb_tenant = t, mb_standing = st\<rparr>"
  have d1: "identity_ok c d1" "spec_op (CreateUser nu) (identity_of d) = Some (identity_of d1)"
    using refines_Ok [OF create_refines(2) [OF ok new], of d1] p by simp_all
  have run: "run_op now (MemberAdd nu t st) d = run_op now (Attach ?m) d1"
    using p insert_names(2) [OF p] by (cases "insert_membership ?m now d1") (simp_all add: member_add_def)
  show ?thesis
    using attach_refines [OF d1(1), of now ?m] d1(2) unfolding refines_def run by (simp split: sum.splits)
qed

lemma user_create_refines:
  assumes ok: "identity_ok c d" "timestamp_opt (cal c) (unix_seconds now)" and new: "new_tenant_ok nt" "new_user_ok nu"
  shows "refines c now (UserCreate nt nu st) d"
proof (cases "insert_tenant nt now d")
  case (Inl e)
  then show ?thesis
    using refines_Err [OF create_refines(1) [OF ok new(1)], of e] by (simp add: refines_def user_create_def)
next
  case (Inr p)
  obtain x d1 where p: "insert_tenant nt now d = Ok (x, d1)" using Inr by (cases p) auto
  have d1: "identity_ok c d1" "spec_op (CreateTenant nt) (identity_of d) = Some (identity_of d1)"
    using refines_Ok [OF create_refines(1) [OF ok new(1)], of d1] p by simp_all
  have "run_op now (UserCreate nt nu st) d = run_op now (MemberAdd nu (nt_id nt) st) d1"
    using p insert_names(1) [OF p]
    by (cases "insert_user nu now d1") (auto simp: user_create_def member_add_def Let_def map_snd_rbind)
  then show ?thesis
    using member_add_refines [OF d1(1) ok(2) new(2), of "nt_id nt" st] d1(2) unfolding refines_def by (simp split: sum.splits)
qed

lemma op_refines:
  assumes "identity_ok c d" "timestamp_opt (cal c) (unix_seconds now)" "op_ok op"
  shows "refines c now op d"
proof (cases op)
  case (DeleteTenant t)
  then show ?thesis using delete_tenant_refines [OF assms(1), of t] by (auto simp: refines_def split: sum.splits)
next
  case (DeleteUser u)
  then show ?thesis using delete_user_refines [OF assms(1), of u] by (auto simp: refines_def split: sum.splits)
next
  case (SetPassphrase u h)
  then show ?thesis
    using set_passphrase_refines [OF assms(1), of h u] assms(3) by (auto simp: refines_def split: sum.splits)
next
  case (Revoke g)
  then show ?thesis using store_revoke_refines [OF assms(1), of g] by (auto simp: refines_def split: sum.splits)
next
  case (MemberRemove u t)
  then show ?thesis using member_remove_refines [OF assms(1), of u t] by (auto simp: refines_def split: sum.splits)
qed (use assms create_refines attach_refines grant_refines user_create_refines member_add_refines in auto)

lemma fresh_identity_ok: "identity_ok c fresh_db"
  by (simp add: identity_ok_def fresh_db_def tenants_ok_def users_ok_def members_ok_def grant_rows_ok_def keys_ok_def)

section \<open>Reading it back\<close>

text \<open>
  The reads of the trait \<open>Storage\<close>, as the table of functions behind an \<open>Arc<dyn Storage>\<close>, and the
  contract its clients rely on.
\<close>

record 's storage_ops =
  find_user :: "user_id \<Rightarrow> 's \<Rightarrow> (storage_error, user option) result"
  find_tenant :: "tenant_id \<Rightarrow> 's \<Rightarrow> (storage_error, tenant option) result"
  find_membership :: "user_id \<Rightarrow> tenant_id \<Rightarrow> 's \<Rightarrow> (storage_error, membership option) result"
  find_grants :: "user_id \<Rightarrow> 's \<Rightarrow> (storage_error, grants) result"

definition sqlite_ops :: "crates \<Rightarrow> db storage_ops" where
  "sqlite_ops c = \<lparr>find_user = store_user c, find_tenant = store_tenant c, find_membership = store_membership,
     find_grants = grants_of\<rparr>"

locale identity_store =
  fixes store_ok :: "'s \<Rightarrow> bool"
    and identity :: "'s \<Rightarrow> identity"
    and S :: "'s storage_ops"
  assumes user_law: "store_ok s \<Longrightarrow> \<exists>r. find_user S u s = Ok r
      \<and> map_option (\<lambda>x. (user_passphrase x, user_kind x)) r = i_users (identity s) u \<and> (\<forall>x. r = Some x \<longrightarrow> user_name x = u)"
    and tenant_law: "store_ok s \<Longrightarrow> \<exists>r. find_tenant S t s = Ok r
      \<and> map_option tenant_key r = i_tenants (identity s) t \<and> (\<forall>x. r = Some x \<longrightarrow> tenant_name x = t)"
    and membership_law: "store_ok s \<Longrightarrow> find_membership S u t s =
      Ok (map_option (\<lambda>st. \<lparr>mb_user = u, mb_tenant = t, mb_standing = st\<rparr>) (i_members (identity s) (u, t)))"
    and grants_law: "store_ok s \<Longrightarrow> find_grants S u s = Ok {g \<in> i_grants (identity s). scope_user (g_scope g) = u}"
begin

lemma user_cases:
  assumes "store_ok s"
  obtains "find_user S u s = Ok None" "i_users (identity s) u = None"
  | x where "find_user S u s = Ok (Some x)" "user_name x = u" "i_users (identity s) u = Some (user_passphrase x, user_kind x)"
proof -
  obtain r where r: "find_user S u s = Ok r" "\<forall>x. r = Some x \<longrightarrow> user_name x = u"
    "map_option (\<lambda>x. (user_passphrase x, user_kind x)) r = i_users (identity s) u"
    using user_law [OF assms] by blast
  show thesis
    using that r by (cases r) auto
qed

lemma tenant_cases:
  assumes "store_ok s"
  obtains "find_tenant S t s = Ok None" "i_tenants (identity s) t = None"
  | x where "find_tenant S t s = Ok (Some x)" "tenant_name x = t" "i_tenants (identity s) t = Some (tenant_key x)"
proof -
  obtain r where r: "find_tenant S t s = Ok r" "\<forall>x. r = Some x \<longrightarrow> tenant_name x = t"
    "map_option tenant_key r = i_tenants (identity s) t"
    using tenant_law [OF assms] by blast
  show thesis
    using that r by (cases r) auto
qed

end

interpretation sqlite: identity_store "identity_ok c" identity_of "sqlite_ops c"
proof
  fix s u t assume ok: "identity_ok c s"
  show "\<exists>r. find_user (sqlite_ops c) u s = Ok r
      \<and> map_option (\<lambda>x. (user_passphrase x, user_kind x)) r = i_users (identity_of s) u \<and> (\<forall>x. r = Some x \<longrightarrow> user_name x = u)"
    using store_user_reads [OF ok] by (simp add: sqlite_ops_def)
  show "\<exists>r. find_tenant (sqlite_ops c) t s = Ok r
      \<and> map_option tenant_key r = i_tenants (identity_of s) t \<and> (\<forall>x. r = Some x \<longrightarrow> tenant_name x = t)"
    using store_tenant_reads [OF ok] by (simp add: sqlite_ops_def)
  show "find_membership (sqlite_ops c) u t s =
      Ok (map_option (\<lambda>st. \<lparr>mb_user = u, mb_tenant = t, mb_standing = st\<rparr>) (i_members (identity_of s) (u, t)))"
    using store_membership_reads [OF ok] by (simp add: sqlite_ops_def)
  show "find_grants (sqlite_ops c) u s = Ok {g \<in> i_grants (identity_of s). scope_user (g_scope g) = u}"
    using grants_of_reads(1) [OF ok] by (simp add: sqlite_ops_def)
qed

section \<open>Sequences of operations\<close>

fun run_ops :: "(timestamp \<times> identity_op) list \<Rightarrow> db \<Rightarrow> db" where
  "run_ops [] d = d"
| "run_ops ((now, op) # ops) d = run_ops ops (case run_op now op d of Ok d' \<Rightarrow> d' | Err _ \<Rightarrow> d)"

fun spec_ops :: "(timestamp \<times> identity_op) list \<Rightarrow> identity \<Rightarrow> identity" where
  "spec_ops [] i = i"
| "spec_ops ((now, op) # ops) i = spec_ops ops (case spec_op op i of Some i' \<Rightarrow> i' | None \<Rightarrow> i)"

definition no_identity :: identity where
  "no_identity = \<lparr>i_tenants = Map.empty, i_users = Map.empty, i_members = Map.empty, i_grants = {}\<rparr>"

lemma identity_of_fresh: "identity_of fresh_db = no_identity"
  by (simp add: identity_of_def fresh_db_def no_identity_def member_at_def fun_eq_iff)

lemma run_ops_refine:
  "identity_ok c d \<Longrightarrow> (\<And>now op. (now, op) \<in> set ops \<Longrightarrow> op_ok op \<and> timestamp_opt (cal c) (unix_seconds now))
   \<Longrightarrow> identity_ok c (run_ops ops d) \<and> identity_of (run_ops ops d) = spec_ops ops (identity_of d)"
proof (induction ops arbitrary: d)
  case (Cons p ops)
  obtain now op where p: "p = (now, op)" by (cases p)
  have "refines c now op d" using Cons.prems p by (intro op_refines) auto
  then show ?case
    using Cons.IH [of d] Cons.IH [of "case run_op now op d of Ok d' \<Rightarrow> d' | Err _ \<Rightarrow> d"] Cons.prems p
    by (cases "run_op now op d") (auto simp: refines_def)
qed simp

section \<open>Properties\<close>

text \<open>A concrete tenant, its owner and a member, for the witnesses.\<close>

definition hexc :: "nat \<Rightarrow> char" where
  "hexc n = (if n < 10 then char_of (48 + n) else char_of (87 + n))"

definition sample_hex :: "bytes \<Rightarrow> string" where
  "sample_hex b = concat (map (\<lambda>w. [hexc (unat w div 16), hexc (unat w mod 16)]) b)"

fun sample_unhex :: "string \<Rightarrow> bytes option" where
  "sample_unhex [] = Some []"
| "sample_unhex [_] = None"
| "sample_unhex (a # b # r) = map_option ((#) (of_nat (hex_value a * 16 + hex_value b))) (sample_unhex r)"

lemma code_char_of: "n < 256 \<Longrightarrow> code (char_of n) = n"
  by (simp add: code_def)

lemma hexc_facts: "n < 16 \<Longrightarrow> hex_digit (hexc n)" "n < 16 \<Longrightarrow> hex_value (hexc n) = n"
  by (auto simp: hexc_def hex_digit_def hex_value_def ascii_digit_def code_char_of)

lemma sample_hex_facts: "sample_unhex (sample_hex b) = Some b" "length (sample_hex b) = 2 * length b"
  "list_all hex_digit (sample_hex b)"
proof -
  have byte: "unat w div 16 < 16" "of_nat (unat w div 16 * 16 + unat w mod 16) = w" for w :: byte
    using unsigned_less [of w, where 'a = nat] by simp_all
  show "sample_unhex (sample_hex b) = Some b"
    by (induction b) (simp_all add: sample_hex_def hexc_facts byte del: of_nat_add of_nat_mult)
  show "length (sample_hex b) = 2 * length b" "list_all hex_digit (sample_hex b)"
    by (induction b) (simp_all add: sample_hex_def hexc_facts byte)
qed

definition sample_crates :: crates where
  "sample_crates = \<lparr>sha256 = \<lambda>b. take 32 (b @ replicate 32 0), hex_encode = sample_hex, hex_decode = sample_unhex,
     cal = sample_calendar\<rparr>"

definition sample_tenant :: "string \<Rightarrow> new_tenant" where
  "sample_tenant t = \<lparr>nt_id = TenantId t, nt_key = TnKey (replicate 16 7)\<rparr>"

definition sample_user :: "string \<Rightarrow> new_user" where
  "sample_user u = \<lparr>nu_id = UserId u, nu_passphrase = PassphraseHash ''$x'', nu_kind = Regular\<rparr>"

definition sample_ops :: "(timestamp \<times> identity_op) list" where
  "sample_ops =
     [(Timestamp 5, UserCreate (sample_tenant ''a'') (sample_user ''o'') Owner),
      (Timestamp 6, MemberAdd (sample_user ''m'') (TenantId ''a'') OrdinaryMember),
      (Timestamp 7, AddGrant \<lparr>g_capability = UserMgr, g_scope = AtTenant (UserId ''m'') (TenantId ''a'')\<rparr>)]"

lemma sample_hash_ok [simp]: "is_ok (passphrase_hash_new ''$x'')"
proof -
  have "first_bad ascii_graphic ''$x'' = None"
    using first_bad_None_iff [of ascii_graphic "''$x''"] by (simp add: ascii_graphic_def code_def)
  then show ?thesis
    by (simp add: is_ok_iff passphrase_hash_new_def rbind_Ok_iff validate_hash_def id_limits starts_with_iff)
qed

lemma sample_ops_ok:
  "(now, op) \<in> set sample_ops \<Longrightarrow> op_ok op \<and> timestamp_opt (cal sample_crates) (unix_seconds now)"
  by (auto simp: sample_ops_def new_tenant_ok_def new_user_ok_def sample_tenant_def sample_user_def grant_wf_def
      is_none_or_def id_ok_def id_char_def code_def ascii_alphanumeric_def ascii_lower_def ascii_upper_def ascii_digit_def
      tn_key_ok_def TN_KEY_BYTES_def sample_crates_def sample_calendar_def Let_def)

text \<open>
  C20: whatever operations are run on a fresh database, in whatever order and with whatever
  refusals, the sqlite tables say exactly what the operations on tenants, users, memberships and
  grants say, and reading a membership or a user's grants gives that back.
\<close>

theorem store_refines:
  fixes c :: crates
  assumes "\<forall>(now, op)\<in>set ops. op_ok op \<and> timestamp_opt (cal c) (unix_seconds now)"
  shows "identity_of (run_ops ops fresh_db) = spec_ops ops no_identity
    \<and> store_membership u t (run_ops ops fresh_db) =
        Ok (map_option (\<lambda>st. \<lparr>mb_user = u, mb_tenant = t, mb_standing = st\<rparr>) (i_members (spec_ops ops no_identity) (u, t)))
    \<and> grants_of u (run_ops ops fresh_db) = Ok {g \<in> i_grants (spec_ops ops no_identity). scope_user (g_scope g) = u}"
proof -
  have "identity_ok c (run_ops ops fresh_db)" "identity_of (run_ops ops fresh_db) = spec_ops ops no_identity"
    using run_ops_refine [OF fresh_identity_ok, of ops c] assms identity_of_fresh by fastforce+
  then show ?thesis
    using store_membership_reads grants_of_reads(1) by metis
qed

theorem store_refines_witness:
  "store_membership (UserId ''m'') (TenantId ''a'') (run_ops sample_ops fresh_db) =
     Ok (Some \<lparr>mb_user = UserId ''m'', mb_tenant = TenantId ''a'', mb_standing = OrdinaryMember\<rparr>)
   \<and> grants_of (UserId ''m'') (run_ops sample_ops fresh_db) =
     Ok {\<lparr>g_capability = UserMgr, g_scope = AtTenant (UserId ''m'') (TenantId ''a'')\<rparr>}"
proof -
  let ?i = "spec_ops sample_ops no_identity"
  have "i_members ?i (UserId ''m'', TenantId ''a'') = Some OrdinaryMember"
    and "i_grants ?i = {\<lparr>g_capability = UserMgr, g_scope = AtTenant (UserId ''m'') (TenantId ''a'')\<rparr>}"
    by (simp_all add: sample_ops_def no_identity_def spec_create_tenant_def spec_create_user_def spec_attach_def
        known_scope_def sample_tenant_def sample_user_def)
  moreover have "\<forall>(now, op)\<in>set sample_ops. op_ok op \<and> timestamp_opt (cal sample_crates) (unix_seconds now)"
    using sample_ops_ok by blast
  ultimately show ?thesis
    using store_refines [of sample_ops sample_crates "UserId ''m''" "TenantId ''a''"] by auto
qed

text \<open>
  C21: a member removed from a tenant is no longer attached to it and holds no grant inside it,
  however many it held; what it holds elsewhere, and what everyone else holds, stays; and where
  there was no such member nothing changes at all.
\<close>

theorem member_removed_holds_nothing:
  assumes "identity_ok c d"
  shows "case member_remove u t d of
      Ok (x, d') \<Rightarrow>
        store_membership u t d' = Ok None \<and> grants_in_tenant u t d' = Ok {}
        \<and> mr_revoked x = card {g \<in> i_grants (identity_of d). scope_user (g_scope g) = u \<and> scope_tenant (g_scope g) = Some t}
        \<and> (v \<noteq> u \<longrightarrow> grants_of v d' = grants_of v d)
        \<and> (s \<noteq> t \<longrightarrow> grants_in_tenant u s d' = grants_in_tenant u s d \<and> store_membership u s d' = store_membership u s d)
    | Err e \<Rightarrow> store_membership u t d = Ok None \<and> e = NotFound EntMembership (user_str u @ ''@'' @ tenant_str t)"
proof (cases "member_remove u t d")
  case (Inl e)
  then show ?thesis using member_remove_refines [OF assms, of u t] store_membership_reads [OF assms, of u t] by simp
next
  case (Inr p)
  obtain x d' where p: "p = (x, d')" by (cases p)
  note refine = member_remove_refines [OF assms, of u t]
  have ok: "identity_ok c d'" and rev: "mr_revoked x = card {g \<in> i_grants (identity_of d). scope_user (g_scope g) = u \<and> scope_tenant (g_scope g) = Some t}"
    and mem: "i_members (identity_of d') = (i_members (identity_of d))((u, t) := None)"
    and gr: "i_grants (identity_of d') = {g \<in> i_grants (identity_of d). \<not> (scope_user (g_scope g) = u \<and> scope_tenant (g_scope g) = Some t)}"
    using refine Inr p by simp_all
  have "grants_in_tenant u t d' = Ok {}" "v \<noteq> u \<longrightarrow> grants_of v d' = grants_of v d"
    "s \<noteq> t \<longrightarrow> grants_in_tenant u s d' = grants_in_tenant u s d"
    by (auto simp: grants_of_reads [OF ok] grants_of_reads [OF assms] gr)
  moreover have "store_membership u t d' = Ok None" "s \<noteq> t \<longrightarrow> store_membership u s d' = store_membership u s d"
    by (auto simp: store_membership_reads [OF ok] store_membership_reads [OF assms] mem)
  ultimately show ?thesis using Inr p rev by simp
qed

theorem member_removed_holds_nothing_witness:
  "\<exists>x d'. member_remove (UserId ''m'') (TenantId ''a'') (run_ops sample_ops fresh_db) = Ok (x, d')
     \<and> mr_revoked x = 1 \<and> grants_in_tenant (UserId ''m'') (TenantId ''a'') d' = Ok {}"
proof -
  let ?d = "run_ops sample_ops fresh_db" and ?u = "UserId ''m''" and ?t = "TenantId ''a''"
  have ok: "identity_ok sample_crates ?d" and i: "identity_of ?d = spec_ops sample_ops no_identity"
    using run_ops_refine [OF fresh_identity_ok sample_ops_ok] identity_of_fresh by auto
  have grants: "i_grants (identity_of ?d) = {\<lparr>g_capability = UserMgr, g_scope = AtTenant ?u ?t\<rparr>}"
    and mem: "i_members (identity_of ?d) (?u, ?t) = Some OrdinaryMember"
    unfolding i
    by (simp_all add: sample_ops_def no_identity_def spec_create_tenant_def spec_create_user_def spec_attach_def
        known_scope_def sample_tenant_def sample_user_def)
  have one: "{g \<in> i_grants (identity_of ?d). scope_user (g_scope g) = ?u \<and> scope_tenant (g_scope g) = Some ?t}
      = {\<lparr>g_capability = UserMgr, g_scope = AtTenant ?u ?t\<rparr>}"
    unfolding grants by auto
  have "member_remove ?u ?t ?d \<noteq> Err e" for e
    using member_removed_holds_nothing [OF ok, of ?u ?t] mem store_membership_reads [OF ok, of ?u ?t] by auto
  then obtain x d' where "member_remove ?u ?t ?d = Ok (x, d')"
    by (cases "member_remove ?u ?t ?d") auto
  then show ?thesis
    using member_removed_holds_nothing [OF ok, of ?u ?t] one by simp
qed


end
