(* ===== verification/Auth.thy ===== *)
theory Auth
  imports Identity_Spec Sled_Cache Net
begin

text \<open>
  Signed requests: \<open>crates/ip-auth/src/error.rs\<close> and \<open>request.rs\<close>. A verifier holds a storage and a
  cache behind trait objects; here each is the table of functions it calls, run on its own state.
  The lemmas are proved in a locale over the contracts of the two, which is interpreted on the
  sqlite store and the sled cache. A cache call that never returns makes the result \<open>None\<close>.
\<close>

section \<open>Errors\<close>

datatype auth_error =
    PassphraseTooShort nat nat
  | PassphraseTooLong nat nat
  | ParamsInvalid
  | Hashing
  | AuthValue core_error
  | UnknownTenant tenant_id
  | UnknownUser user_id
  | NotAMember user_id tenant_id
  | BadSignature
  | AdminOffLocalhost ip_addr
  | SpentNonce nonce
  | AuthStorage storage_error
  | LoginRefused
  | SessionRejected
  | RecheckRefused
  | RecheckLocked
  | SessionIssue
  | Random
  | AuthCache cache_error

section \<open>The cache as its clients call it\<close>

record 's cache_ops =
  op_get :: "cache_key \<Rightarrow> u64 \<Rightarrow> u64 \<Rightarrow> 's \<Rightarrow> bytes option \<times> 's"
  op_put :: "cache_key \<Rightarrow> bytes \<Rightarrow> ttl option \<Rightarrow> u64 \<Rightarrow> u64 \<Rightarrow> 's \<Rightarrow> 's option"
  op_claim :: "cache_key \<Rightarrow> ttl option \<Rightarrow> u64 \<Rightarrow> u64 \<Rightarrow> 's \<Rightarrow> (bool \<times> 's) option"
  op_remove :: "cache_key \<Rightarrow> u64 \<Rightarrow> 's \<Rightarrow> bool \<times> 's"

definition sled_ops :: "sled cache_ops" where
  "sled_ops = \<lparr>op_get = sled_get, op_put = sled_put, op_claim = sled_claim, op_remove = sled_remove\<rparr>"

section \<open>Requests, identities and authority\<close>

record signed_request =
  rq_tenant :: tenant_id
  rq_user :: user_id
  rq_nonce :: nonce
  rq_signature :: signature

definition nonce_id :: "signed_request \<Rightarrow> string" where
  "nonce_id rq =
     ''nonce:'' @ tenant_str (rq_tenant rq) @ '':'' @ user_str (rq_user rq) @ '':'' @ nonce_str (rq_nonce rq)"

record caller =
  c_user :: user_id
  c_tenant :: tenant_id
  c_role :: role

record authority =
  au_identity :: caller
  au_grants :: grants

definition authority_allows :: "authority \<Rightarrow> capability \<Rightarrow> capability_scope \<Rightarrow> bool" where
  "authority_allows a capability scope =
     (if scope_user scope \<noteq> c_user (au_identity a) then False
      else if (case scope_tenant scope of Some t \<Rightarrow> t \<noteq> c_tenant (au_identity a) | None \<Rightarrow> False) then False
      else implies (c_role (au_identity a)) capability scope \<or> holds (au_grants a) capability scope)"

fun role_of :: "account_kind \<Rightarrow> standing \<Rightarrow> tenant_id \<Rightarrow> role" where
  "role_of SystemAdministrator _ t = SysAdmin"
| "role_of Regular Owner t = TenantAdmin t"
| "role_of Regular OrdinaryMember t = Member"

record ('d, 's) request_verifier =
  rv_store :: "'d storage_ops"
  rv_cache :: "'s cache_ops"
  rv_nonce_ttl :: ttl

definition spend ::
  "('d, 's) request_verifier \<Rightarrow> signed_request \<Rightarrow> u64 \<Rightarrow> u64 \<Rightarrow> 's \<Rightarrow> ((auth_error, unit) result \<times> 's) option" where
  "spend V rq ms us s =
     (case cache_key_new System (nonce_id rq) of
        Err e \<Rightarrow> Some (Err (AuthCache e), s)
      | Ok k \<Rightarrow>
          (case op_claim (rv_cache V) k (Some (rv_nonce_ttl V)) ms us s of
             None \<Rightarrow> None
           | Some (won, s') \<Rightarrow>
               Some (if \<not> won then Err (SpentNonce (rq_nonce rq)) else Ok (), s')))"

text \<open>What \<open>verify\<close> settles before the nonce is spent, with the storage alone.\<close>

definition established ::
  "hash_fun \<Rightarrow> 'd storage_ops \<Rightarrow> signed_request \<Rightarrow> ip_addr \<Rightarrow> 'd \<Rightarrow> (auth_error, caller) result" where
  "established sha S rq origin d =
     rbind (map_err AuthStorage (find_user S (rq_user rq) d)) (\<lambda>user.
     rbind (ok_or user (UnknownUser (rq_user rq))) (\<lambda>user.
     if user_kind user = SystemAdministrator \<and> \<not> is_loopback origin then Err (AdminOffLocalhost origin)
     else
       let tenant = find_tenant S (rq_tenant rq) d;
           membership = find_membership S (rq_user rq) (rq_tenant rq) d in
       rbind (map_err AuthStorage tenant) (\<lambda>tenant.
       rbind (ok_or tenant (UnknownTenant (rq_tenant rq))) (\<lambda>tenant.
       rbind (map_err AuthStorage membership) (\<lambda>membership.
       rbind (ok_or membership (NotAMember (rq_user rq) (rq_tenant rq))) (\<lambda>membership.
       let ut_key = derive sha (user_name user) (tenant_key tenant);
           by_user = signature_verify (of_user sha ut_key (rq_nonce rq)) (rq_signature rq);
           by_owner = mb_standing membership = Owner
             \<and> signature_verify (of_tenant_owner sha (tenant_key tenant) (rq_nonce rq)) (rq_signature rq) in
       if \<not> (by_user \<or> by_owner) then Err BadSignature
       else Ok \<lparr>c_user = user_name user, c_tenant = tenant_name tenant,
                c_role = role_of (user_kind user) (mb_standing membership) (rq_tenant rq)\<rparr>))))))"

definition verify ::
  "hash_fun \<Rightarrow> ('d, 's) request_verifier \<Rightarrow> signed_request \<Rightarrow> ip_addr \<Rightarrow> u64 \<Rightarrow> u64 \<Rightarrow> 'd \<Rightarrow> 's
   \<Rightarrow> ((auth_error, caller) result \<times> 's) option" where
  "verify sha V rq origin ms us d s =
     (case established sha (rv_store V) rq origin d of
        Err e \<Rightarrow> Some (Err e, s)
      | Ok identity \<Rightarrow>
          (case spend V rq ms us s of
             None \<Rightarrow> None
           | Some (Err e, s') \<Rightarrow> Some (Err e, s')
           | Some (Ok _, s') \<Rightarrow> Some (Ok identity, s')))"

definition authority_of :: "('d, 's) request_verifier \<Rightarrow> caller \<Rightarrow> 'd \<Rightarrow> (auth_error, authority) result" where
  "authority_of V identity d =
     rbind (map_err AuthStorage (find_grants (rv_store V) (c_user identity) d)) (\<lambda>grants.
       Ok \<lparr>au_identity = identity, au_grants = grants\<rparr>)"

section \<open>What is decided\<close>

text \<open>The decision as a function of the directory of tenants, users and members alone.\<close>

definition decided :: "hash_fun \<Rightarrow> identity \<Rightarrow> signed_request \<Rightarrow> ip_addr \<Rightarrow> (auth_error, caller) result" where
  "decided sha I rq origin =
     (let u = rq_user rq; t = rq_tenant rq in
      case i_users I u of None \<Rightarrow> Err (UnknownUser u)
      | Some (_, acc) \<Rightarrow>
          if acc = SystemAdministrator \<and> \<not> is_loopback origin then Err (AdminOffLocalhost origin)
          else (case i_tenants I t of None \<Rightarrow> Err (UnknownTenant t)
          | Some key \<Rightarrow> (case i_members I (u, t) of None \<Rightarrow> Err (NotAMember u t)
          | Some st \<Rightarrow>
              if rq_signature rq = of_user sha (derive sha u key) (rq_nonce rq)
                 \<or> st = Owner \<and> rq_signature rq = of_tenant_owner sha key (rq_nonce rq)
              then Ok \<lparr>c_user = u, c_tenant = t, c_role = role_of acc st t\<rparr>
              else Err BadSignature)))"

definition request_ok :: "signed_request \<Rightarrow> bool" where
  "request_ok rq = (id_ok (tenant_str (rq_tenant rq)) \<and> id_ok (user_str (rq_user rq)) \<and> nonce_ok (rq_nonce rq))"

definition nonce_key :: "signed_request \<Rightarrow> cache_key" where
  "nonce_key rq = \<lparr>ck_key = ''ip:sys:'' @ nonce_id rq, ck_level = System\<rparr>"


section \<open>Lemmas\<close>

lemma id_ok_graphic: "id_ok s \<Longrightarrow> list_all ascii_graphic s"
  using id_ok_chars id_char_facts by (auto simp: list_all_iff)

lemma nonce_id_graphic:
  assumes "request_ok rq"
  shows "list_all ascii_graphic (nonce_id rq)" "nonce_id rq \<noteq> []"
proof -
  have "list_all ascii_graphic (tenant_str (rq_tenant rq))" "list_all ascii_graphic (user_str (rq_user rq))"
    "list_all ascii_graphic (nonce_str (rq_nonce rq))"
    using assms id_ok_graphic by (simp_all add: request_ok_def nonce_ok_def)
  moreover have "list_all ascii_graphic ''nonce:''" "ascii_graphic (CHR '':'')"
    by (simp_all add: ascii_graphic_def code_def)
  ultimately show "list_all ascii_graphic (nonce_id rq)" by (simp add: nonce_id_def)
qed (simp add: nonce_id_def)

lemma nonce_key_new: "request_ok rq \<Longrightarrow> cache_key_new System (nonce_id rq) = Ok (nonce_key rq)"
  using nonce_id_graphic [of rq] by (simp add: cache_key_new_graphic nonce_key_def)

text \<open>One caller's nonce is never another's, nor another nonce of the same caller.\<close>

lemma nonce_key_inj:
  assumes "request_ok a" "request_ok b" "nonce_key a = nonce_key b"
  shows "rq_tenant a = rq_tenant b \<and> rq_user a = rq_user b \<and> rq_nonce a = rq_nonce b"
proof -
  have colon: "CHR '':'' \<notin> set s" if "id_ok s" for s
    using id_ok_chars [OF that, of "CHR '':''"] id_char_facts(2) by blast
  have split: "x @ '':'' @ r = y @ '':'' @ q \<Longrightarrow> CHR '':'' \<notin> set x \<Longrightarrow> CHR '':'' \<notin> set y \<Longrightarrow> x = y \<and> r = q" for x y r q :: string
    by (induction x arbitrary: y) (case_tac y; auto)+
  have "tenant_str (rq_tenant a) @ '':'' @ (user_str (rq_user a) @ '':'' @ nonce_str (rq_nonce a))
      = tenant_str (rq_tenant b) @ '':'' @ (user_str (rq_user b) @ '':'' @ nonce_str (rq_nonce b))"
    using assms(3) by (simp add: nonce_key_def nonce_id_def)
  then have "tenant_str (rq_tenant a) = tenant_str (rq_tenant b) \<and> user_str (rq_user a) = user_str (rq_user b)
      \<and> nonce_str (rq_nonce a) = nonce_str (rq_nonce b)"
    using split colon assms(1,2) unfolding request_ok_def by metis
  then show ?thesis
    by (auto intro: tenant_id.expand user_id.expand nonce.expand)
qed

text \<open>What the authentication code stands on: a directory, a cache, and every system key a good one.\<close>

locale auth_backing =
  identity_store store_ok identity S
  + system_cache ok good view "op_get C" "op_put C" "op_claim C" "op_remove C"
  for store_ok :: "'d \<Rightarrow> bool" and identity and S :: "'d storage_ops"
    and ok :: "'s \<Rightarrow> bool" and good view and C :: "'s cache_ops" +
  assumes good_keys: "cache_key_new System ident = Ok k \<Longrightarrow> good k"

locale request_auth = auth_backing store_ok identity "rv_store V" ok good view "rv_cache V"
  for store_ok :: "'d \<Rightarrow> bool" and identity and V :: "('d, 's) request_verifier" and ok :: "'s \<Rightarrow> bool" and good view
begin

lemma established_decides:
  assumes "store_ok d"
  shows "established sha (rv_store V) rq origin d = decided sha (identity d) rq origin"
proof (cases rule: user_cases [OF assms, of "rq_user rq"])
  case 1
  then show ?thesis by (simp add: established_def decided_def)
next
  case (2 x)
  note user = 2
  note m = membership_law [OF assms, of "rq_user rq" "rq_tenant rq"]
  show ?thesis
  proof (cases rule: tenant_cases [OF assms, of "rq_tenant rq"])
    case 1
    then show ?thesis using user by (simp add: established_def decided_def Let_def)
  next
    case (2 y)
    then show ?thesis
      using user m by (cases "i_members (identity d) (rq_user rq, rq_tenant rq)") (auto simp: established_def decided_def Let_def)
  qed
qed

lemma nonce_key_good: "request_ok rq \<Longrightarrow> good (nonce_key rq)"
  using nonce_key_new good_keys by blast

lemma spend_spends:
  assumes "ok s" "request_ok rq"
  shows "\<exists>s'. spend V rq ms us s =
      Some (if view s ms (nonce_key rq) = None then Ok () else Err (SpentNonce (rq_nonce rq)), s') \<and> ok s'
    \<and> op_claim (rv_cache V) (nonce_key rq) (Some (rv_nonce_ttl V)) ms us s = Some (view s ms (nonce_key rq) = None, s')"
  using claim_law [OF assms(1) nonce_key_good [OF assms(2)], of "Some (rv_nonce_ttl V)" ms us] nonce_key_new [OF assms(2)]
  by (auto simp: spend_def)

lemma verify_decides:
  assumes "store_ok d" "ok s" "request_ok rq"
  shows "\<exists>s'. verify sha V rq origin ms us d s =
      Some (rbind (decided sha (identity d) rq origin) (\<lambda>who.
              if view s ms (nonce_key rq) = None then Ok who else Err (SpentNonce (rq_nonce rq))), s') \<and> ok s'
    \<and> (if is_ok (decided sha (identity d) rq origin)
       then op_claim (rv_cache V) (nonce_key rq) (Some (rv_nonce_ttl V)) ms us s = Some (view s ms (nonce_key rq) = None, s')
       else s' = s)"
proof -
  obtain s' where s': "spend V rq ms us s =
      Some (if view s ms (nonce_key rq) = None then Ok () else Err (SpentNonce (rq_nonce rq)), s')" "ok s'"
    "op_claim (rv_cache V) (nonce_key rq) (Some (rv_nonce_ttl V)) ms us s = Some (view s ms (nonce_key rq) = None, s')"
    using spend_spends [OF assms(2,3)] by blast
  show ?thesis
    using s' assms(2)
    by (cases "decided sha (identity d) rq origin") (auto simp: verify_def established_decides [OF assms(1)])
qed

lemma verified_once:
  assumes "store_ok d" "ok s" "request_ok rq" "verify sha V rq origin ms us d s = Some (Ok who, s1)"
    and "between (nonce_key rq) s1 t s2" "t < expiry (Some (rv_nonce_ttl V)) ms"
    and "store_ok d'" "request_ok rq'" "nonce_key rq' = nonce_key rq"
  shows "\<exists>s3 e. verify sha V rq' origin' t us' d' s2 = Some (Err e, s3)"
proof -
  have claim: "op_claim (rv_cache V) (nonce_key rq) (Some (rv_nonce_ttl V)) ms us s = Some (True, s1)"
    using verify_decides [OF assms(1-3), of sha origin ms us] assms(4)
    by (cases "decided sha (identity d) rq origin") (auto split: if_splits)
  note k = nonce_key_good [OF assms(3)]
  have s1: "ok s1" "view s1 t (nonce_key rq) \<noteq> None"
    using claim_law [OF assms(2) k, of "Some (rv_nonce_ttl V)" ms us] claim k assms(6) by auto
  then have s2: "ok s2" "view s2 t (nonce_key rq') \<noteq> None"
    using between_keeps [OF assms(5) _ k] assms(9) by auto
  show ?thesis
    using verify_decides [OF assms(7) s2(1) assms(8), of sha origin' t us'] s2(2)
    by (cases "decided sha (identity d') rq' origin'") auto
qed

end


section \<open>The standalone gateway\<close>

definition standalone_verifier :: "crates \<Rightarrow> ttl \<Rightarrow> (db, sled) request_verifier" where
  "standalone_verifier c ttl = \<lparr>rv_store = sqlite_ops c, rv_cache = sled_ops, rv_nonce_ttl = ttl\<rparr>"

lemma sys_key_new: "cache_key_new System ident = Ok k \<Longrightarrow> sys_key k"
  using key_ok_new [of System ident k] by (auto simp: sys_key_def cache_key_new_Ok_iff)

interpretation backing: auth_backing "identity_ok c" identity_of "sqlite_ops c" sys_ok sys_key sys_view sled_ops
proof -
  have "system_cache sys_ok sys_key sys_view (op_get sled_ops) (op_put sled_ops) (op_claim sled_ops) (op_remove sled_ops)"
    using sled_sys.system_cache_axioms by (simp add: sled_ops_def)
  then show "auth_backing (identity_ok c) identity_of (sqlite_ops c) sys_ok sys_key sys_view sled_ops"
    by (intro auth_backing.intro auth_backing_axioms.intro sys_key_new sqlite.identity_store_axioms)
qed

interpretation standalone: request_auth "identity_ok c" identity_of "standalone_verifier c ttl" sys_ok sys_key sys_view
  using backing.auth_backing_axioms by (simp add: request_auth_def standalone_verifier_def)

section \<open>Properties\<close>

text \<open>A concrete signed request to the directory of the operations above, for the witnesses.\<close>

definition sample_request :: signed_request where
  "sample_request =
     (let key = TnKey (replicate 16 7); sha = sha256 sample_crates in
      \<lparr>rq_tenant = TenantId ''a'', rq_user = UserId ''m'', rq_nonce = Nonce ''12345678'',
       rq_signature = of_user sha (derive sha (UserId ''m'') key) (Nonce ''12345678'')\<rparr>)"

lemma sample_request_ok: "request_ok sample_request"
  by (simp add: request_ok_def sample_request_def Let_def nonce_ok_def ascii_graphic_def code_def id_ok_def id_char_def
      ascii_alphanumeric_def ascii_lower_def)

lemma sample_directory:
  "identity_ok sample_crates (run_ops sample_ops fresh_db)"
  "identity_of (run_ops sample_ops fresh_db) = spec_ops sample_ops no_identity"
  using run_ops_refine [OF fresh_identity_ok sample_ops_ok] identity_of_fresh by auto

lemma sample_decided:
  "decided (sha256 sample_crates) (identity_of (run_ops sample_ops fresh_db)) sample_request origin =
     Ok \<lparr>c_user = UserId ''m'', c_tenant = TenantId ''a'', c_role = Member\<rparr>"
  unfolding sample_directory
  by (simp add: decided_def sample_request_def Let_def sample_ops_def no_identity_def spec_create_tenant_def
      spec_create_user_def spec_attach_def known_scope_def sample_tenant_def sample_user_def)

lemma sample_cache: "sys_ok (around no_limits)"
  using around_ok by (simp add: sys_ok_def around_def no_limits_def)

lemma sample_free: "sys_view (around no_limits) ms k = None"
  by (simp add: sys_view_def view_def around_def)

text \<open>
  C24: over the sqlite store and the sled cache, a signed request is answered exactly as the directory
  of tenants, users and members decides: an unknown user first, an administrator off the machine
  before anything else is read for it, then the tenant, the membership and the signature, and last
  whether the nonce is still free. A request refused for any of these reasons leaves the cache as it
  was, so no stranger can burn a caller's nonce; and the grants a verified caller is given are
  the ones stored for it.
\<close>

theorem verify_matches_directory:
  assumes "identity_ok c d" "sys_ok s" "request_ok rq"
  shows "\<exists>s'. verify sha (standalone_verifier c ttl) rq origin ms us d s =
      Some (rbind (decided sha (identity_of d) rq origin) (\<lambda>who.
              if sys_view s ms (nonce_key rq) = None then Ok who else Err (SpentNonce (rq_nonce rq))), s')
    \<and> sys_ok s' \<and> (\<not> is_ok (decided sha (identity_of d) rq origin) \<longrightarrow> s' = s)
    \<and> authority_of (standalone_verifier c ttl) who d =
        Ok \<lparr>au_identity = who, au_grants = {g \<in> i_grants (identity_of d). scope_user (g_scope g) = c_user who}\<rparr>"
  using standalone.verify_decides [OF assms, of sha ttl origin ms us] sqlite.grants_law [OF assms(1), of "c_user who"]
  by (auto simp: authority_of_def standalone_verifier_def)

theorem verify_matches_directory_witness:
  "\<exists>s'. verify (sha256 sample_crates) (standalone_verifier sample_crates (Ttl 60000000000)) sample_request (V4 [10, 0, 0, 1])
      1000 1 (run_ops sample_ops fresh_db) (around no_limits) =
    Some (Ok \<lparr>c_user = UserId ''m'', c_tenant = TenantId ''a'', c_role = Member\<rparr>, s') \<and> sys_ok s'"
  using verify_matches_directory [OF sample_directory(1) sample_cache sample_request_ok,
      of "sha256 sample_crates" "Ttl 60000000000" "V4 [10, 0, 0, 1]" 1000 1] sample_decided
  by (auto simp: sample_free)

text \<open>
  C25: a request that was accepted is not accepted again while its nonce is remembered: whatever the
  gateway does with other keys in between, whatever happens to the tables, wherever it comes from and
  whatever its signature, a second request of that user in that tenant with that nonce is refused
  until the lifetime of the first has passed.
\<close>

theorem replay_refused:
  assumes "identity_ok c d" "sys_ok s" "request_ok rq"
    and "verify sha (standalone_verifier c ttl) rq origin ms us d s = Some (Ok who, s1)"
    and "sled_sys.between (nonce_key rq) s1 t s2" "t < expiry (Some ttl) ms" "identity_ok c d'"
  shows "\<exists>s3 e. verify sha (standalone_verifier c ttl) (rq\<lparr>rq_signature := sig\<rparr>) origin' t us' d' s2 = Some (Err e, s3)"
proof -
  have "request_ok (rq\<lparr>rq_signature := sig\<rparr>)" "nonce_key (rq\<lparr>rq_signature := sig\<rparr>) = nonce_key rq"
    using assms(3) by (simp_all add: request_ok_def nonce_key_def nonce_id_def)
  then show ?thesis
    using standalone.verified_once [OF assms(1-4)] assms(5-7) by (simp add: standalone_verifier_def sled_ops_def)
qed

theorem replay_refused_witness:
  "\<exists>s1 s3 e. verify (sha256 sample_crates) (standalone_verifier sample_crates (Ttl 60000000000)) sample_request (V4 [10, 0, 0, 1])
      1000 1 (run_ops sample_ops fresh_db) (around no_limits) =
    Some (Ok \<lparr>c_user = UserId ''m'', c_tenant = TenantId ''a'', c_role = Member\<rparr>, s1)
    \<and> verify (sha256 sample_crates) (standalone_verifier sample_crates (Ttl 60000000000)) sample_request (V4 [10, 0, 0, 1])
      60000 1 (run_ops sample_ops fresh_db) s1 = Some (Err e, s3)"
proof -
  let ?V = "standalone_verifier sample_crates (Ttl 60000000000)" and ?d = "run_ops sample_ops fresh_db"
  obtain s1 where s1: "verify (sha256 sample_crates) ?V sample_request (V4 [10, 0, 0, 1]) 1000 1 ?d (around no_limits) =
      Some (Ok \<lparr>c_user = UserId ''m'', c_tenant = TenantId ''a'', c_role = Member\<rparr>, s1)"
    using standalone.verify_decides [OF sample_directory(1) sample_cache sample_request_ok, of "sha256 sample_crates" "Ttl 60000000000" "V4 [10, 0, 0, 1]" 1000 1]
    by (auto simp: sample_decided sample_free)
  have "60000 < expiry (Some (Ttl 60000000000)) 1000"
    by (simp add: expiry_def sat_add_def as_millis_def u64_or_max_def)
  then show ?thesis
    using replay_refused [OF sample_directory(1) sample_cache sample_request_ok s1 sled_sys.between.Nothing _ sample_directory(1),
        of 60000 "rq_signature sample_request" "V4 [10, 0, 0, 1]" 1] s1
    by auto
qed

end
