(* ===== verification/Sessions.thy ===== *)
theory Sessions
  imports Auth
begin

text \<open>
  Sessions of the web: \<open>crates/ip-auth/src/passphrase.rs\<close>, \<open>session.rs\<close> and \<open>login.rs\<close>. The packages
  these files call (\<open>argon2\<close>, \<open>base64\<close>, \<open>hmac\<close>, \<open>serde_json\<close>, \<open>hex\<close>) are the fields of \<open>web_crates\<close>,
  and what is relied on of them is \<open>web_crates_ok\<close>. A \<open>SystemTime\<close> is a whole number of nanoseconds
  since the epoch. A call that reads a clock takes the reading as an argument; \<open>recheck\<close>, which makes
  many cache calls, takes the reading of each by its position.
\<close>

section \<open>The packages the code calls\<close>

datatype checked = Matches | PasswordInvalid | CheckFailed

record claims =
  cl_sub :: string
  cl_iss :: string
  cl_jti :: string
  cl_iat :: u64
  cl_exp :: u64

record web_crates =
  argon_hash :: "bytes \<Rightarrow> string option"
  argon_verify :: "bytes \<Rightarrow> string \<Rightarrow> checked"
  b64_encode :: "bytes \<Rightarrow> string"
  b64_decode :: "string \<Rightarrow> bytes option"
  hmac_sha256 :: "bytes \<Rightarrow> bytes \<Rightarrow> bytes"
  to_json :: "claims \<Rightarrow> bytes option"
  from_json :: "bytes \<Rightarrow> claims option"
  web_hex :: "bytes \<Rightarrow> string"

text \<open>What they document: decoding undoes encoding, and the alphabets are those of base64url and hex.\<close>

definition web_crates_ok :: "web_crates \<Rightarrow> bool" where
  "web_crates_ok X =
     ((\<forall>b. b64_decode X (b64_encode X b) = Some b \<and> CHR ''.'' \<notin> set (b64_encode X b))
      \<and> (\<forall>c j. to_json X c = Some j \<longrightarrow> from_json X j = Some c)
      \<and> (\<forall>b. length (web_hex X b) = 2 * length b \<and> list_all hex_digit (web_hex X b)))"

section \<open>Passphrases\<close>

datatype passphrase = Passphrase (passphrase_str: string)

definition MIN_BYTES :: nat where "MIN_BYTES = 12"
definition MAX_BYTES :: nat where "MAX_BYTES = 1024"

definition passphrase_new :: "string \<Rightarrow> (auth_error, passphrase) result" where
  "passphrase_new raw =
     (if length raw < MIN_BYTES then Err (PassphraseTooShort (length raw) MIN_BYTES)
      else if MAX_BYTES < length raw then Err (PassphraseTooLong (length raw) MAX_BYTES)
      else Ok (Passphrase raw))"

definition hash_passphrase :: "web_crates \<Rightarrow> passphrase \<Rightarrow> (auth_error, passphrase_hash) result" where
  "hash_passphrase X p =
     rbind (ok_or (argon_hash X (as_bytes (passphrase_str p))) Hashing) (\<lambda>h.
       map_err AuthValue (passphrase_hash_new h))"

definition verify_passphrase :: "web_crates \<Rightarrow> passphrase \<Rightarrow> passphrase_hash \<Rightarrow> (auth_error, bool) result" where
  "verify_passphrase X p h =
     (case argon_verify X (as_bytes (passphrase_str p)) (phc_str h) of
        Matches \<Rightarrow> Ok True | PasswordInvalid \<Rightarrow> Ok False | CheckFailed \<Rightarrow> Err Hashing)"

section \<open>Tokens\<close>

type_synonym system_time = int

definition seconds_since_epoch :: "system_time \<Rightarrow> u64" where
  "seconds_since_epoch now = (if now < 0 then 0 else of_int (now div 1000000000))"

definition HEADER :: string where
  "HEADER = ''eyJhbGciOiJIUzI1NiIsInR5cCI6IkpXVCJ9''"

datatype session_id = SessionId (session_str: string)

definition session_id_generate :: "web_crates \<Rightarrow> bytes option \<Rightarrow> (auth_error, session_id) result" where
  "session_id_generate X drawn =
     (case drawn of None \<Rightarrow> Err Random | Some b \<Rightarrow> Ok (SessionId (web_hex X b)))"

datatype session_token = SessionToken (token_str: string)

record session =
  ss_user :: user_id
  ss_id :: session_id
  ss_expires_at :: u64

record session_tokens =
  st_issuer :: string
  st_secret :: bytes
  st_ttl :: nat

definition as_secs :: "nat \<Rightarrow> u64" where
  "as_secs nanos = of_nat (nanos div 1000000000)"

definition signed_part :: "string \<Rightarrow> string" where
  "signed_part payload = HEADER @ ''.'' @ payload"

definition issue_at ::
  "web_crates \<Rightarrow> session_tokens \<Rightarrow> user_id \<Rightarrow> system_time \<Rightarrow> bytes option \<Rightarrow> (auth_error, session_token) result" where
  "issue_at X T user now drawn =
     (let issued_at = seconds_since_epoch now in
      rbind (session_id_generate X drawn) (\<lambda>sid.
      let claims = \<lparr>cl_sub = user_str user, cl_iss = st_issuer T, cl_jti = session_str sid, cl_iat = issued_at,
                    cl_exp = sat_add issued_at (as_secs (st_ttl T))\<rparr> in
      rbind (ok_or (to_json X claims) SessionIssue) (\<lambda>json.
      let signed = signed_part (b64_encode X json);
          sig = b64_encode X (hmac_sha256 X (st_secret T) (as_bytes signed)) in
      Ok (SessionToken (signed @ ''.'' @ sig)))))"

definition verify_at ::
  "web_crates \<Rightarrow> session_tokens \<Rightarrow> string \<Rightarrow> system_time \<Rightarrow> (auth_error, session) result" where
  "verify_at X T token now =
     (case split_by (\<lambda>c. c = CHR ''.'') token of
        [header, payload, sig] \<Rightarrow>
          if header \<noteq> HEADER then Err SessionRejected
          else
            rbind (ok_or (b64_decode X sig) SessionRejected) (\<lambda>sig.
            if hmac_sha256 X (st_secret T) (as_bytes (header @ ''.'' @ payload)) \<noteq> sig then Err SessionRejected
            else
              rbind (ok_or (Option.bind (b64_decode X payload) (from_json X)) SessionRejected) (\<lambda>claims.
              if cl_iss claims \<noteq> st_issuer T \<or> cl_exp claims \<le> seconds_since_epoch now then Err SessionRejected
              else
                rbind (map_err (\<lambda>_. SessionRejected) (user_id_new (cl_sub claims))) (\<lambda>user.
                Ok \<lparr>ss_user = user, ss_id = SessionId (cl_jti claims), ss_expires_at = cl_exp claims\<rparr>)))
      | _ \<Rightarrow> Err SessionRejected)"

section \<open>Logins\<close>

definition MIN_RECHECK_ATTEMPTS :: nat where "MIN_RECHECK_ATTEMPTS = 2"
definition MAX_RECHECK_ATTEMPTS :: nat where "MAX_RECHECK_ATTEMPTS = 5"

record recheck_limit =
  rl_attempts :: nat
  rl_window :: ttl

definition recheck_limit_new :: "nat \<Rightarrow> ttl \<Rightarrow> recheck_limit" where
  "recheck_limit_new attempts window =
     \<lparr>rl_attempts = max (min attempts MAX_RECHECK_ATTEMPTS) MIN_RECHECK_ATTEMPTS, rl_window = window\<rparr>"

definition recheck_limit_default :: recheck_limit where
  "recheck_limit_default = recheck_limit_new MAX_RECHECK_ATTEMPTS (Ttl (15 * 60 * 1000000000))"

record ('d, 's) logins =
  lg_store :: "'d storage_ops"
  lg_cache :: "'s cache_ops"
  lg_tokens :: session_tokens
  lg_absent :: passphrase_hash
  lg_recheck :: recheck_limit

definition logins_new ::
  "web_crates \<Rightarrow> 'd storage_ops \<Rightarrow> 's cache_ops \<Rightarrow> session_tokens \<Rightarrow> bytes option \<Rightarrow> (auth_error, ('d, 's) logins) result" where
  "logins_new X S C T drawn =
     rbind (session_id_generate X drawn) (\<lambda>sid.
     rbind (passphrase_new (session_str sid)) (\<lambda>unknowable.
     rbind (hash_passphrase X unknowable) (\<lambda>absent.
     Ok \<lparr>lg_store = S, lg_cache = C, lg_tokens = T, lg_absent = absent, lg_recheck = recheck_limit_default\<rparr>)))"

definition remaining :: "session \<Rightarrow> system_time \<Rightarrow> ttl option" where
  "remaining session now =
     (if now < 0 then None
      else let now = of_int (now div 1000000000) :: u64 in
        if ss_expires_at session < now then None
        else case ttl_new (unat (ss_expires_at session - now) * 1000000000) of Ok t \<Rightarrow> Some t | Err _ \<Rightarrow> None)"

definition ended_key :: "session_id \<Rightarrow> (auth_error, cache_key) result" where
  "ended_key sid = map_err AuthCache (cache_key_new System (''session-ended:'' @ session_str sid))"

definition recheck_key :: "user_id \<Rightarrow> nat \<Rightarrow> (auth_error, cache_key) result" where
  "recheck_key user slot =
     map_err AuthCache (cache_key_new System (''recheck-failed:'' @ user_str user @ '':'' @ show_nat slot))"

definition is_ended ::
  "('d, 's) logins \<Rightarrow> session \<Rightarrow> u64 \<Rightarrow> u64 \<Rightarrow> 's \<Rightarrow> (auth_error, bool) result \<times> 's" where
  "is_ended L session ms us s =
     (case ended_key (ss_id session) of
        Err e \<Rightarrow> (Err e, s)
      | Ok k \<Rightarrow> (let (found, s') = op_get (lg_cache L) k ms us s in (Ok (found \<noteq> None), s')))"

definition login_session ::
  "web_crates \<Rightarrow> ('d, 's) logins \<Rightarrow> string \<Rightarrow> system_time \<Rightarrow> u64 \<Rightarrow> u64 \<Rightarrow> 's \<Rightarrow> (auth_error, session) result \<times> 's" where
  "login_session X L token now ms us s =
     (case verify_at X (lg_tokens L) token now of
        Err e \<Rightarrow> (Err e, s)
      | Ok session \<Rightarrow>
          (let (ended, s') = is_ended L session ms us s in
           (rbind ended (\<lambda>ended. if ended then Err SessionRejected else Ok session), s')))"

definition end_session ::
  "('d, 's) logins \<Rightarrow> session \<Rightarrow> system_time \<Rightarrow> u64 \<Rightarrow> u64 \<Rightarrow> 's \<Rightarrow> ((auth_error, unit) result \<times> 's) option" where
  "end_session L session now ms us s =
     (case remaining session now of
        None \<Rightarrow> Some (Ok (), s)
      | Some left \<Rightarrow>
          (case ended_key (ss_id session) of
             Err e \<Rightarrow> Some (Err e, s)
           | Ok k \<Rightarrow> map_option (\<lambda>s'. (Ok (), s')) (op_put (lg_cache L) k [] (Some left) ms us s)))"

definition verifier_of :: "('d, 's) logins \<Rightarrow> user option \<Rightarrow> passphrase_hash" where
  "verifier_of L stored = (case stored of None \<Rightarrow> lg_absent L | Some user \<Rightarrow> user_passphrase user)"

definition log_in ::
  "web_crates \<Rightarrow> ('d, 's) logins \<Rightarrow> user_id \<Rightarrow> passphrase \<Rightarrow> system_time \<Rightarrow> bytes option \<Rightarrow> 'd
   \<Rightarrow> (auth_error, session_token) result" where
  "log_in X L user p now drawn d =
     rbind (map_err AuthStorage (find_user (lg_store L) user d)) (\<lambda>stored.
     rbind (verify_passphrase X p (verifier_of L stored)) (\<lambda>matched.
     case stored of
       Some stored \<Rightarrow> if matched then issue_at X (lg_tokens L) (user_name stored) now drawn else Err LoginRefused
     | None \<Rightarrow> Err LoginRefused))"


section \<open>Asking for the passphrase again\<close>

text \<open>A clock gives the milliseconds and the microseconds read by the call at each position.\<close>

type_synonym clock = "nat \<Rightarrow> u64 \<times> u64"

fun failed_slots ::
  "'s cache_ops \<Rightarrow> clock \<Rightarrow> user_id \<Rightarrow> nat list \<Rightarrow> nat \<Rightarrow> 's \<Rightarrow> (auth_error, nat) result \<times> 's" where
  "failed_slots C clk user [] failed s = (Ok failed, s)"
| "failed_slots C clk user (slot # slots) failed s =
     (case recheck_key user slot of
        Err e \<Rightarrow> (Err e, s)
      | Ok k \<Rightarrow>
          (let (found, s') = op_get C k (fst (clk slot)) (snd (clk slot)) s in
           failed_slots C clk user slots (if found \<noteq> None then failed + 1 else failed) s'))"

definition failed_rechecks ::
  "('d, 's) logins \<Rightarrow> clock \<Rightarrow> user_id \<Rightarrow> 's \<Rightarrow> (auth_error, nat) result \<times> 's" where
  "failed_rechecks L clk user s = failed_slots (lg_cache L) clk user [0..<rl_attempts (lg_recheck L)] 0 s"

fun clear_slots :: "'s cache_ops \<Rightarrow> clock \<Rightarrow> user_id \<Rightarrow> nat list \<Rightarrow> 's \<Rightarrow> (auth_error, unit) result \<times> 's" where
  "clear_slots C clk user [] s = (Ok (), s)"
| "clear_slots C clk user (slot # slots) s =
     (case recheck_key user slot of
        Err e \<Rightarrow> (Err e, s)
      | Ok k \<Rightarrow> (let (_, s') = op_remove C k (fst (clk slot)) s in clear_slots C clk user slots s'))"

fun take_slot ::
  "'s cache_ops \<Rightarrow> ttl \<Rightarrow> clock \<Rightarrow> user_id \<Rightarrow> nat list \<Rightarrow> 's \<Rightarrow> ((auth_error, unit) result \<times> 's) option" where
  "take_slot C window clk user [] s = Some (Ok (), s)"
| "take_slot C window clk user (slot # slots) s =
     (case recheck_key user slot of
        Err e \<Rightarrow> Some (Err e, s)
      | Ok k \<Rightarrow>
          (case op_claim C k (Some window) (fst (clk slot)) (snd (clk slot)) s of
             None \<Rightarrow> None
           | Some (won, s') \<Rightarrow> if won then Some (Ok (), s') else take_slot C window clk user slots s'))"

text \<open>
  What \<open>recheck\<close> does once the count has let it through. Its calls read the clock after the ones that
  counted, one position for each slot and each pass over them.
\<close>

definition later :: "nat \<Rightarrow> clock \<Rightarrow> clock" where
  "later n clk i = clk (n + i)"

definition recheck_passed ::
  "web_crates \<Rightarrow> ('d, 's) logins \<Rightarrow> user_id \<Rightarrow> passphrase \<Rightarrow> clock \<Rightarrow> 'd \<Rightarrow> 's
   \<Rightarrow> ((auth_error, unit) result \<times> 's) option" where
  "recheck_passed X L user p clk d s =
     (let attempts = rl_attempts (lg_recheck L) in
      case rbind (map_err AuthStorage (find_user (lg_store L) user d)) (\<lambda>stored.
             rbind (verify_passphrase X p (verifier_of L stored)) (\<lambda>matched. Ok (stored \<noteq> None \<and> matched))) of
        Err e \<Rightarrow> Some (Err e, s)
      | Ok True \<Rightarrow> Some (clear_slots (lg_cache L) (later attempts clk) user [0..<attempts] s)
      | Ok False \<Rightarrow>
          (case take_slot (lg_cache L) (rl_window (lg_recheck L)) (later attempts clk) user [0..<attempts] s of
             None \<Rightarrow> None
           | Some (Err e, s') \<Rightarrow> Some (Err e, s')
           | Some (Ok _, s') \<Rightarrow>
               (let (failed, s'') = failed_rechecks L (later (2 * attempts) clk) user s' in
                Some (rbind failed (\<lambda>failed. Err (if attempts \<le> failed then RecheckLocked else RecheckRefused)), s''))))"

definition recheck ::
  "web_crates \<Rightarrow> ('d, 's) logins \<Rightarrow> user_id \<Rightarrow> passphrase \<Rightarrow> clock \<Rightarrow> 'd \<Rightarrow> 's
   \<Rightarrow> ((auth_error, unit) result \<times> 's) option" where
  "recheck X L user p clk d s =
     (case failed_rechecks L clk user s of
        (Err e, s') \<Rightarrow> Some (Err e, s')
      | (Ok failed, s') \<Rightarrow>
          if rl_attempts (lg_recheck L) \<le> failed then Some (Err RecheckLocked, s')
          else recheck_passed X L user p clk d s')"

text \<open>One call after the other, each with whether it looked at the passphrase at all.\<close>

definition looked :: "('d, 's) logins \<Rightarrow> clock \<Rightarrow> user_id \<Rightarrow> 's \<Rightarrow> bool" where
  "looked L clk user s =
     (case fst (failed_rechecks L clk user s) of Ok failed \<Rightarrow> failed < rl_attempts (lg_recheck L) | Err _ \<Rightarrow> False)"

fun run_rechecks ::
  "web_crates \<Rightarrow> ('d, 's) logins \<Rightarrow> user_id \<Rightarrow> clock \<Rightarrow> ('d \<times> passphrase) list \<Rightarrow> 's
   \<Rightarrow> (bool \<times> (auth_error, unit) result) list option" where
  "run_rechecks X L user clk [] s = Some []"
| "run_rechecks X L user clk ((d, p) # calls) s =
     (case recheck X L user p clk d s of
        None \<Rightarrow> None
      | Some (r, s') \<Rightarrow>
          map_option ((#) (looked L clk user s, r))
            (run_rechecks X L user (later (3 * rl_attempts (lg_recheck L)) clk) calls s'))"

text \<open>A passphrase that is not the account's, or any passphrase at all where there is no such account.\<close>

definition wrong_guess :: "web_crates \<Rightarrow> passphrase_hash \<Rightarrow> identity \<Rightarrow> user_id \<Rightarrow> passphrase \<Rightarrow> bool" where
  "wrong_guess X absent I user p =
     (case i_users I user of
        None \<Rightarrow> argon_verify X (as_bytes (passphrase_str p)) (phc_str absent) \<noteq> CheckFailed
      | Some (h, _) \<Rightarrow> argon_verify X (as_bytes (passphrase_str p)) (phc_str h) = PasswordInvalid)"

definition refusal :: "(auth_error, unit) result \<Rightarrow> bool" where
  "refusal r = (r = Err RecheckRefused \<or> r = Err RecheckLocked)"

section \<open>Tokens read back\<close>

lemma split_by_three:
  assumes "c \<notin> set x" "c \<notin> set y" "c \<notin> set z"
  shows "split_by (\<lambda>a. a = c) (x @ [c] @ y @ [c] @ z) = [x, y, z]"
proof -
  have step: "split_by (\<lambda>a. a = c) (x @ c # r) = x # split_by (\<lambda>a. a = c) r" if "c \<notin> set x" for x r
    using that by (induction x) auto
  show ?thesis using assms step split_by_no_sep [of z "\<lambda>a. a = c"] by auto
qed

lemma HEADER_undotted: "CHR ''.'' \<notin> set HEADER"
  by (simp add: HEADER_def)

lemma issue_at_Ok:
  assumes "issue_at X T user now drawn = Ok token"
  shows "\<exists>b json. drawn = Some b
    \<and> to_json X \<lparr>cl_sub = user_str user, cl_iss = st_issuer T, cl_jti = web_hex X b, cl_iat = seconds_since_epoch now,
        cl_exp = sat_add (seconds_since_epoch now) (as_secs (st_ttl T))\<rparr> = Some json
    \<and> token = SessionToken (signed_part (b64_encode X json) @ ''.'' @
        b64_encode X (hmac_sha256 X (st_secret T) (as_bytes (signed_part (b64_encode X json)))))"
  using assms
  by (auto simp: issue_at_def session_id_generate_def Let_def rbind_Ok_iff ok_or_Ok_iff split: option.splits)

lemma verify_at_Ok_iff:
  "verify_at X T token now = Ok session \<longleftrightarrow>
     (\<exists>payload sig json c. split_by (\<lambda>a. a = CHR ''.'') token = [HEADER, payload, sig]
        \<and> b64_decode X sig = Some (hmac_sha256 X (st_secret T) (as_bytes (signed_part payload)))
        \<and> b64_decode X payload = Some json \<and> from_json X json = Some c
        \<and> cl_iss c = st_issuer T \<and> seconds_since_epoch now < cl_exp c \<and> id_ok (cl_sub c)
        \<and> session = \<lparr>ss_user = UserId (cl_sub c), ss_id = SessionId (cl_jti c), ss_expires_at = cl_exp c\<rparr>)"
proof (cases "\<exists>h p q. split_by (\<lambda>a. a = CHR ''.'') token = [h, p, q]")
  case True
  then obtain h p q where parts: "split_by (\<lambda>a. a = CHR ''.'') token = [h, p, q]" by blast
  then show ?thesis
    by (auto simp: verify_at_def rbind_Ok_iff ok_or_Ok_iff map_err_Ok_iff signed_part_def not_le bind_eq_Some_conv)
next
  case False
  then have "verify_at X T token now = Err SessionRejected"
    by (auto simp: verify_at_def split: list.splits)
  with False show ?thesis by auto
qed


section \<open>Keys\<close>

definition rkey :: "user_id \<Rightarrow> nat \<Rightarrow> cache_key" where
  "rkey user slot = \<lparr>ck_key = ''ip:sys:recheck-failed:'' @ user_str user @ '':'' @ show_nat slot, ck_level = System\<rparr>"

definition ekey :: "session_id \<Rightarrow> cache_key" where
  "ekey sid = \<lparr>ck_key = ''ip:sys:session-ended:'' @ session_str sid, ck_level = System\<rparr>"

lemma recheck_key_new: "id_ok (user_str user) \<Longrightarrow> recheck_key user slot = Ok (rkey user slot)"
  and rkey_cache_key: "id_ok (user_str user) \<Longrightarrow>
    cache_key_new System (''recheck-failed:'' @ user_str user @ '':'' @ show_nat slot) = Ok (rkey user slot)"
proof -
  assume user: "id_ok (user_str user)"
  have "list_all ascii_graphic (show_nat slot)"
    using show_nat_digits [of _ slot] by (fastforce simp: list_all_iff ascii_digit_def ascii_graphic_def)
  moreover have "list_all ascii_graphic ''recheck-failed:''" "ascii_graphic (CHR '':'')"
    by (simp_all add: ascii_graphic_def code_def)
  ultimately have "list_all ascii_graphic (''recheck-failed:'' @ user_str user @ '':'' @ show_nat slot)"
    using id_ok_graphic [OF user] by simp
  then show *: "cache_key_new System (''recheck-failed:'' @ user_str user @ '':'' @ show_nat slot) = Ok (rkey user slot)"
    by (subst cache_key_new_graphic) (simp_all add: rkey_def)
  show "recheck_key user slot = Ok (rkey user slot)"
    unfolding recheck_key_def * by simp
qed

lemma rkey_inj: "rkey user i = rkey user j \<longleftrightarrow> i = j"
  by (simp add: rkey_def show_nat_inj)

lemma ended_key_new:
  assumes "list_all hex_digit (session_str sid)"
  shows "ended_key sid = Ok (ekey sid)"
    and "cache_key_new System (''session-ended:'' @ session_str sid) = Ok (ekey sid)"
proof -
  have "list_all ascii_graphic (session_str sid)"
    using assms by (auto simp: list_all_iff hex_digit_def ascii_digit_def ascii_graphic_def)
  moreover have "list_all ascii_graphic ''session-ended:''"
    by (simp add: ascii_graphic_def code_def)
  ultimately show *: "cache_key_new System (''session-ended:'' @ session_str sid) = Ok (ekey sid)"
    by (subst cache_key_new_graphic) (simp_all add: ekey_def)
  then show "ended_key sid = Ok (ekey sid)" by (simp add: ended_key_def)
qed

lemma unat_minus_one: "unat (- 1 :: u64) = 2 ^ 64 - 1"
  by (simp add: unsigned_minus_1_eq_mask mask_eq_exp_minus_1)

lemma unat_u64_or_max: "unat (u64_or_max n) = min n (2 ^ 64 - 1)"
  by (simp only: u64_or_max_def split: if_split) (auto simp: unat_minus_one unat_of_nat take_bit_nat_eq_self)

lemma expiry_mono: "a \<le> b \<Longrightarrow> expiry (Some ttl) a \<le> expiry (Some ttl) b"
  by (simp add: expiry_def word_le_nat_alt unat_sat_add)

section \<open>Over the contracts of the store and the cache\<close>

locale session_auth = auth_backing store_ok identity "lg_store L" ok good view "lg_cache L"
  for store_ok :: "'d \<Rightarrow> bool" and identity and L :: "('d, 's) logins" and ok :: "'s \<Rightarrow> bool" and good view
begin

lemma rkey_good: "id_ok (user_str user) \<Longrightarrow> good (rkey user slot)"
  using good_keys rkey_cache_key by blast

lemma failed_slots_count:
  assumes user: "id_ok (user_str user)" and mono: "mono (\<lambda>i. fst (clk i))"
  shows "ok s \<Longrightarrow> sorted slots \<Longrightarrow> (\<And>i. i \<in> set slots \<Longrightarrow> fst (clk i) \<le> T) \<Longrightarrow>
    \<exists>s'. failed_slots (lg_cache L) clk user slots n s =
        (Ok (n + length (filter (\<lambda>i. view s (fst (clk i)) (rkey user i) \<noteq> None) slots)), s') \<and> ok s'
      \<and> (\<forall>t j. good j \<longrightarrow> T \<le> t \<longrightarrow> view s' t j = view s t j)"
proof (induction slots arbitrary: n s)
  case (Cons i slots)
  obtain r s1 where g: "op_get (lg_cache L) (rkey user i) (fst (clk i)) (snd (clk i)) s = (r, s1)"
    by (cases "op_get (lg_cache L) (rkey user i) (fst (clk i)) (snd (clk i)) s")
  have s1: "r = view s (fst (clk i)) (rkey user i)" "ok s1"
    "\<And>t j. good j \<Longrightarrow> fst (clk i) \<le> t \<Longrightarrow> view s1 t j = view s t j"
    using get_law [OF Cons.prems(1) rkey_good [OF user] g] by auto
  have later: "fst (clk i) \<le> fst (clk x)" if "x \<in> set slots" for x
    using Cons.prems(2) that monoD [OF mono, of i x] by simp
  have same: "filter (\<lambda>i. view s1 (fst (clk i)) (rkey user i) \<noteq> None) slots
      = filter (\<lambda>i. view s (fst (clk i)) (rkey user i) \<noteq> None) slots"
    using s1(3) [OF rkey_good [OF user] later] by (intro filter_cong) simp_all
  define m where "m = (if r \<noteq> None then n + 1 else n)"
  obtain s' where s': "failed_slots (lg_cache L) clk user slots m s1 =
      (Ok (m + length (filter (\<lambda>i. view s1 (fst (clk i)) (rkey user i) \<noteq> None) slots)), s')" "ok s'"
    "\<forall>t j. good j \<longrightarrow> T \<le> t \<longrightarrow> view s' t j = view s1 t j"
    using Cons.IH [OF s1(2), of m] Cons.prems by auto
  have "fst (clk i) \<le> T" using Cons.prems(3) by simp
  then have "\<forall>t j. good j \<longrightarrow> T \<le> t \<longrightarrow> view s' t j = view s t j"
    using s'(3) s1(3) by (metis order_trans)
  moreover have "failed_slots (lg_cache L) clk user (i # slots) n s =
      (Ok (n + length (filter (\<lambda>i. view s (fst (clk i)) (rkey user i) \<noteq> None) (i # slots))), s')"
    using s'(1) [unfolded same] s1(1) by (simp add: recheck_key_new [OF user] g m_def)
  ultimately show ?case using s'(2) by blast
qed simp

lemma take_slot_takes:
  assumes user: "id_ok (user_str user)"
  shows "ok s \<Longrightarrow> i \<in> set slots \<Longrightarrow> view s (fst (clk i)) (rkey user i) = None \<Longrightarrow>
    \<exists>s' j. take_slot (lg_cache L) w clk user slots s = Some (Ok (), s') \<and> ok s' \<and> j \<in> set slots
      \<and> view s (fst (clk j)) (rkey user j) = None
      \<and> (\<forall>t k. good k \<longrightarrow> view s' t k =
            (if k = rkey user j then if t < expiry (Some w) (fst (clk j)) then Some [] else None else view s t k))"
proof (induction slots arbitrary: s)
  case (Cons h slots)
  note key = recheck_key_new [OF user, of h]
  obtain s1 where s1: "op_claim (lg_cache L) (rkey user h) (Some w) (fst (clk h)) (snd (clk h)) s
      = Some (view s (fst (clk h)) (rkey user h) = None, s1)" "ok s1"
    "\<forall>t k. good k \<longrightarrow> view s1 t k =
        (if k = rkey user h \<and> view s (fst (clk h)) (rkey user h) = None
         then if t < expiry (Some w) (fst (clk h)) then Some [] else None else view s t k)"
    using claim_law [OF Cons.prems(1) rkey_good [OF user]] by blast
  show ?case
  proof (cases "view s (fst (clk h)) (rkey user h) = None")
    case True
    then show ?thesis using s1 key by (intro exI [of _ s1] exI [of _ h]) simp
  next
    case False
    then have same: "\<forall>t k. good k \<longrightarrow> view s1 t k = view s t k" using s1(3) by auto
    have i: "i \<in> set slots" "view s1 (fst (clk i)) (rkey user i) = None"
      using Cons.prems(2,3) False same rkey_good [OF user] by auto
    obtain s' j where "take_slot (lg_cache L) w clk user slots s1 = Some (Ok (), s')" "ok s'" "j \<in> set slots"
      "view s1 (fst (clk j)) (rkey user j) = None"
      "\<forall>t k. good k \<longrightarrow> view s' t k =
        (if k = rkey user j then if t < expiry (Some w) (fst (clk j)) then Some [] else None else view s1 t k)"
      using Cons.IH [OF s1(2) i] by blast
    then show ?thesis
      using s1(1) False key same rkey_good [OF user] by (intro exI [of _ s'] exI [of _ j]) simp
  qed
qed simp

abbreviation attempts :: nat where
  "attempts \<equiv> rl_attempts (lg_recheck L)"

text \<open>The slots taken by at least \<open>n\<close> wrong passphrases, live from \<open>lo\<close> until \<open>hi\<close>.\<close>

definition slots_taken :: "user_id \<Rightarrow> nat \<Rightarrow> u64 \<Rightarrow> u64 \<Rightarrow> 's \<Rightarrow> bool" where
  "slots_taken user n lo hi s = (\<exists>S \<subseteq> {..<attempts}. card S = n
     \<and> (\<forall>i\<in>S. \<forall>t. lo \<le> t \<longrightarrow> t < hi \<longrightarrow> view s t (rkey user i) \<noteq> None))"

lemma slots_taken_le: "slots_taken user n lo hi s \<Longrightarrow> n \<le> attempts"
  unfolding slots_taken_def using card_mono [of "{..<attempts}"] by fastforce

lemma slots_taken_later:
  assumes "slots_taken user n lo hi s" "lo \<le> lo'" "id_ok (user_str user)"
    and "\<forall>t k. good k \<longrightarrow> lo' \<le> t \<longrightarrow> view s' t k = view s t k"
  shows "slots_taken user n lo' hi s'"
  using assms rkey_good [OF assms(3)] unfolding slots_taken_def by (metis order_trans)

lemma slots_taken_insert:
  assumes "slots_taken user n lo hi s" "j < attempts" "id_ok (user_str user)"
    and free: "view s at (rkey user j) = None" "lo \<le> at" "at < hi"
    and new: "\<forall>t k. good k \<longrightarrow> view s' t k =
      (if k = rkey user j then if t < e then Some [] else None else view s t k)" "hi \<le> e"
  shows "slots_taken user (Suc n) lo hi s'"
proof -
  obtain S where S: "S \<subseteq> {..<attempts}" "card S = n"
    "\<And>i t. i \<in> S \<Longrightarrow> lo \<le> t \<Longrightarrow> t < hi \<Longrightarrow> view s t (rkey user i) \<noteq> None"
    using assms(1) unfolding slots_taken_def by blast
  have j: "j \<notin> S" using S(3) [of j at] free by blast
  have "view s' t (rkey user i) \<noteq> None" if "i \<in> insert j S" "lo \<le> t" "t < hi" for i t
    using that new S(3) [of i t] rkey_good [OF assms(3), of i] by (auto simp: rkey_inj dest: order_less_le_trans)
  moreover have "insert j S \<subseteq> {..<attempts}" "card (insert j S) = Suc n"
    using S(1,2) j assms(2) finite_subset [OF S(1)] by auto
  ultimately show ?thesis unfolding slots_taken_def by blast
qed

lemma failed_rechecks_count:
  assumes "id_ok (user_str user)" "mono (\<lambda>i. fst (clk i))" "ok s"
  obtains s' where "failed_rechecks L clk user s =
      (Ok (length (filter (\<lambda>i. view s (fst (clk i)) (rkey user i) \<noteq> None) [0..<attempts])), s')" "ok s'"
    "\<forall>t k. good k \<longrightarrow> fst (clk attempts) \<le> t \<longrightarrow> view s' t k = view s t k"
  using failed_slots_count [OF assms, of "[0..<attempts]" "fst (clk attempts)" 0] monoD [OF assms(2)]
  by (auto simp: failed_rechecks_def)

lemma all_failed:
  "length (filter P [0..<n]) < n \<Longrightarrow> \<exists>i<n. \<not> P i"
  by (metis atLeastLessThan_iff diff_zero filter_True length_upt less_irrefl set_upt)

lemma passed_step:
  assumes user: "id_ok (user_str user)" and mono: "mono (\<lambda>i. fst (clk i))" and "ok s" "store_ok d"
    and wrong: "wrong_guess X (lg_absent L) (identity d) user p"
    and taken: "slots_taken user n (fst (clk attempts)) hi s"
    and hi: "\<And>i. fst (clk i) < hi" "\<And>i. hi \<le> expiry (Some (rl_window (lg_recheck L))) (fst (clk i))"
    and free: "i < attempts" "view s (fst (clk (attempts + i))) (rkey user i) = None"
  shows "\<exists>r s'. recheck_passed X L user p clk d s = Some (r, s') \<and> refusal r \<and> ok s'
    \<and> slots_taken user (Suc n) (fst (clk (3 * attempts))) hi s'"
proof -
  obtain stored where stored: "find_user (lg_store L) user d = Ok stored"
    "rbind (verify_passphrase X p (verifier_of L stored)) (\<lambda>matched. Ok (stored \<noteq> None \<and> matched)) = Ok False"
    using wrong by (cases rule: user_cases [OF assms(4), of user])
      (auto simp: wrong_guess_def verify_passphrase_def verifier_of_def split: checked.splits)
  obtain s2 j where s2: "take_slot (lg_cache L) (rl_window (lg_recheck L)) (later attempts clk) user [0..<attempts] s = Some (Ok (), s2)"
    "ok s2" "j < attempts" "view s (fst (clk (attempts + j))) (rkey user j) = None"
    "\<forall>t k. good k \<longrightarrow> view s2 t k = (if k = rkey user j
        then if t < expiry (Some (rl_window (lg_recheck L))) (fst (clk (attempts + j))) then Some [] else None else view s t k)"
    using take_slot_takes [OF user assms(3), of i "[0..<attempts]" "later attempts clk" "rl_window (lg_recheck L)"] free
    unfolding later_def by auto
  have lo: "fst (clk attempts) \<le> fst (clk (attempts + j))" "fst (clk attempts) \<le> fst (clk (3 * attempts))"
    using monoD [OF mono] by simp_all
  have taken2: "slots_taken user (Suc n) (fst (clk attempts)) hi s2"
    using slots_taken_insert [OF taken s2(3) user s2(4) lo(1) hi(1) s2(5) hi(2)] .
  have "mono (\<lambda>i. fst (later (2 * attempts) clk i))"
    using monoD [OF mono] by (auto simp: later_def intro!: monoI)
  then obtain s3 where s3: "failed_rechecks L (later (2 * attempts) clk) user s2 =
      (Ok (length (filter (\<lambda>i. view s2 (fst (later (2 * attempts) clk i)) (rkey user i) \<noteq> None) [0..<attempts])), s3)" "ok s3"
    "\<forall>t k. good k \<longrightarrow> fst (later (2 * attempts) clk attempts) \<le> t \<longrightarrow> view s3 t k = view s2 t k"
    using failed_rechecks_count [OF user _ s2(2)] by blast
  have "slots_taken user (Suc n) (fst (clk (3 * attempts))) hi s3"
    using slots_taken_later [OF taken2 lo(2) user] s3(3) by (simp add: later_def)
  then show ?thesis
    using stored s2(1) s3(1,2) by (simp add: recheck_passed_def Let_def refusal_def)
qed

lemma recheck_step:
  assumes user: "id_ok (user_str user)" and mono: "mono (\<lambda>i. fst (clk i))" and "ok s" "store_ok d"
    and wrong: "wrong_guess X (lg_absent L) (identity d) user p"
    and taken: "slots_taken user n (fst (clk 0)) hi s"
    and hi: "\<And>i. fst (clk i) < hi" "\<And>i. hi \<le> expiry (Some (rl_window (lg_recheck L))) (fst (clk i))"
  shows "\<exists>r s'. recheck X L user p clk d s = Some (r, s') \<and> (\<not> looked L clk user s \<longrightarrow> r = Err RecheckLocked) \<and> refusal r
    \<and> ok s' \<and> slots_taken user (if looked L clk user s then Suc n else n) (fst (clk (3 * attempts))) hi s'"
proof -
  let ?live = "\<lambda>i. view s (fst (clk i)) (rkey user i) \<noteq> None"
  obtain s1 where s1: "failed_rechecks L clk user s = (Ok (length (filter ?live [0..<attempts])), s1)" "ok s1"
    "\<forall>t k. good k \<longrightarrow> fst (clk attempts) \<le> t \<longrightarrow> view s1 t k = view s t k"
    using failed_rechecks_count [OF user mono assms(3)] by blast
  have taken1: "slots_taken user n (fst (clk m)) hi s1" if "attempts \<le> m" for m
    using slots_taken_later [OF taken _ user, of "fst (clk m)" s1] s1(3) monoD [OF mono] that by (meson order_trans zero_le)
  show ?thesis
  proof (cases "length (filter ?live [0..<attempts]) < attempts")
    case False
    then show ?thesis using s1(1,2) taken1 [of "3 * attempts"] by (simp add: recheck_def looked_def refusal_def)
  next
    case True
    then obtain i where i: "i < attempts" "view s (fst (clk i)) (rkey user i) = None"
      using all_failed [of ?live attempts] by blast
    have "view s (fst (clk (attempts + i))) (rkey user i) = None"
      using view_expires [OF assms(3) rkey_good [OF user] i(2)] monoD [OF mono, of i "attempts + i"] by simp
    then have "view s1 (fst (clk (attempts + i))) (rkey user i) = None"
      using s1(3) rkey_good [OF user] monoD [OF mono, of attempts "attempts + i"] by simp
    then show ?thesis
      using passed_step [OF user mono s1(2) assms(4) wrong taken1 hi i(1)] True s1(1) by (simp add: recheck_def looked_def)
  qed
qed

lemma rechecks_bounded:
  assumes user: "id_ok (user_str user)" and mono: "mono (\<lambda>i. fst (clk i))" and "ok s"
    and "\<And>d p. (d, p) \<in> set calls \<Longrightarrow> store_ok d \<and> wrong_guess X (lg_absent L) (identity d) user p"
    and "slots_taken user n (fst (clk 0)) hi s"
    and "\<And>i. fst (clk i) < hi" "\<And>i. hi \<le> expiry (Some (rl_window (lg_recheck L))) (fst (clk i))"
  shows "\<exists>outcomes. run_rechecks X L user clk calls s = Some outcomes \<and> length outcomes = length calls
    \<and> n + length (filter fst outcomes) \<le> attempts
    \<and> (\<forall>(l, r)\<in>set outcomes. refusal r \<and> (\<not> l \<longrightarrow> r = Err RecheckLocked))"
  using assms
proof (induction calls arbitrary: n clk s)
  case Nil
  then show ?case using slots_taken_le [OF Nil.prems(5)] by simp
next
  case (Cons call calls)
  obtain d p where call: "call = (d, p)" by (cases call)
  let ?n = "if looked L clk user s then Suc n else n"
  obtain r s' where r: "recheck X L user p clk d s = Some (r, s')" "\<not> looked L clk user s \<longrightarrow> r = Err RecheckLocked"
    "refusal r" "ok s'" "slots_taken user ?n (fst (clk (3 * attempts))) hi s'"
    using recheck_step [OF Cons.prems(1-3) _ _ Cons.prems(5-7)] Cons.prems(4) [of d p] call by fastforce
  define clk' where "clk' = later (3 * attempts) clk"
  have clk': "mono (\<lambda>i. fst (clk' i))" "fst (clk' 0) = fst (clk (3 * attempts))"
    using monoD [OF Cons.prems(2)] by (auto simp: clk'_def later_def intro!: monoI)
  have "\<exists>rest. run_rechecks X L user clk' calls s' = Some rest \<and> length rest = length calls
      \<and> ?n + length (filter fst rest) \<le> attempts
      \<and> (\<forall>(l, r)\<in>set rest. refusal r \<and> (\<not> l \<longrightarrow> r = Err RecheckLocked))"
    using Cons.prems(4) r(4,5) Cons.prems(6,7) clk'
    by (intro Cons.IH [OF user clk'(1)]) (auto simp: clk'_def later_def)
  then obtain rest where "run_rechecks X L user clk' calls s' = Some rest" "length rest = length calls"
    "?n + length (filter fst rest) \<le> attempts" "\<forall>(l, r)\<in>set rest. refusal r \<and> (\<not> l \<longrightarrow> r = Err RecheckLocked)"
    by blast
  then show ?case using r(1-3) call by (auto simp: clk'_def)
qed

text \<open>A session that was ended is let in again only by a token checked just before it ran out and looked up after.\<close>

lemma ended_stays:
  assumes "ok s" "list_all hex_digit (session_str (ss_id session))"
    and now: "0 \<le> now" "now div 1000000000 < int (unat (ss_expires_at session))"
      "now div 1000000000 * 1000 \<le> int (unat ms)"
    and ended: "end_session L session now ms us s = Some (r, s1)"
    and "between (ekey (ss_id session)) s1 t s2" "t < - 1"
    and again: "is_ended L session t us' s2 = (Ok False, s3)"
  shows "unat (ss_expires_at session) * 1000 \<le> unat t"
proof -
  define secs where "secs = nat (now div 1000000000)"
  define left where "left = unat (ss_expires_at session) - secs"
  have int: "int secs = now div 1000000000" using now(1) by (simp add: secs_def pos_imp_zdiv_nonneg_iff)
  have secs: "of_int (now div 1000000000) = (of_nat secs :: u64)" "secs < unat (ss_expires_at session)" "secs * 1000 \<le> unat ms"
  proof -
    show "of_int (now div 1000000000) = (of_nat secs :: u64)" by (simp flip: int)
    show "secs < unat (ss_expires_at session)" using now(2) int by linarith
    show "secs * 1000 \<le> unat ms" using now(3) int by linarith
  qed
  have u: "unat (of_nat secs :: u64) = secs"
    using secs(2) unsigned_less [of "ss_expires_at session", where 'a = nat] by (simp add: unat_of_nat take_bit_nat_eq_self)
  have sub: "unat (ss_expires_at session - of_nat secs) = left"
    using secs(2) u by (simp add: left_def unat_sub word_le_nat_alt)
  have rem: "remaining session now = Some (Ttl (left * 1000000000))"
    using secs(2) u now(1) sub
    by (auto simp: remaining_def secs(1) Let_def ttl_new_def left_def word_less_nat_alt)
  note k = ended_key_new [OF assms(2)]
  have good: "good (ekey (ss_id session))" using k(2) good_keys by blast
  have put: "op_put (lg_cache L) (ekey (ss_id session)) [] (Some (Ttl (left * 1000000000))) ms us s = Some s1"
    using ended rem k(1) by (auto simp: end_session_def)
  have "view s2 t (ekey (ss_id session)) = None"
    using again k(1) get_law [OF _ good, of s2 t us'] between_keeps [OF assms(7) _ good]
      put_law [OF assms(1) good, of "[]" "Some (Ttl (left * 1000000000))" ms us] put
    by (cases "op_get (lg_cache L) (ekey (ss_id session)) t us' s2") (auto simp: is_ended_def)
  then have "\<not> t < expiry (Some (Ttl (left * 1000000000))) ms"
    using put_law [OF assms(1) good, of "[]" "Some (Ttl (left * 1000000000))" ms us] put good
      between_keeps [OF assms(7) _ good] by (auto split: if_splits)
  moreover have "as_millis (left * 1000000000) = left * 1000" by (simp add: as_millis_def)
  ultimately have "min (unat ms + unat (u64_or_max (left * 1000))) (2 ^ 64 - 1) \<le> unat t"
    by (auto simp: expiry_def word_less_nat_alt unat_sat_add min_def)
  moreover have "unat t < 2 ^ 64 - 1" using assms(8) by (simp add: word_less_nat_alt unat_minus_one)
  ultimately show ?thesis using secs(2,3) unfolding left_def unat_u64_or_max by linarith
qed

end

section \<open>The standalone gateway\<close>

definition standalone_logins :: "crates \<Rightarrow> session_tokens \<Rightarrow> passphrase_hash \<Rightarrow> recheck_limit \<Rightarrow> (db, sled) logins" where
  "standalone_logins c T absent limit =
     \<lparr>lg_store = sqlite_ops c, lg_cache = sled_ops, lg_tokens = T, lg_absent = absent, lg_recheck = limit\<rparr>"

interpretation web: session_auth "identity_ok c" identity_of "standalone_logins c T absent limit" sys_ok sys_key sys_view
  using backing.auth_backing_axioms by (simp add: session_auth_def standalone_logins_def)

section \<open>Concrete packages, for the witnesses\<close>

definition sample_claims :: claims where
  "sample_claims = \<lparr>cl_sub = ''m'', cl_iss = ''ip'', cl_jti = sample_hex [1, 2], cl_iat = 100, cl_exp = 160\<rparr>"

definition sample_web :: web_crates where
  "sample_web = \<lparr>argon_hash = \<lambda>_. None,
     argon_verify = \<lambda>p h. if p = as_bytes ''correct horse'' \<and> h = ''$x'' then Matches else PasswordInvalid,
     b64_encode = sample_hex, b64_decode = sample_unhex, hmac_sha256 = \<lambda>k m. take 32 (k @ m),
     to_json = \<lambda>c. if c = sample_claims then Some [7] else None, from_json = \<lambda>b. if b = [7] then Some sample_claims else None,
     web_hex = sample_hex\<rparr>"

definition sample_tokens :: session_tokens where
  "sample_tokens = \<lparr>st_issuer = ''ip'', st_secret = [9, 9], st_ttl = 60000000000\<rparr>"

lemma sample_web_ok: "web_crates_ok sample_web"
proof -
  have "CHR ''.'' \<notin> set (sample_hex b)" for b
    using sample_hex_facts(3) [of b] by (auto simp: list_all_iff hex_digit_def ascii_digit_def code_def)
  then show ?thesis by (simp add: web_crates_ok_def sample_web_def sample_hex_facts)
qed

definition sample_session :: session where
  "sample_session = \<lparr>ss_user = UserId ''m'', ss_id = SessionId (sample_hex [1, 2]), ss_expires_at = 160\<rparr>"

lemma sample_seconds:
  "seconds_since_epoch 100000000000 = 100" "seconds_since_epoch 159999999999 = 159" "seconds_since_epoch 160000000000 = 160"
  "sat_add 100 (as_secs (st_ttl sample_tokens)) = 160"
  by (simp_all add: seconds_since_epoch_def sat_add_def as_secs_def sample_tokens_def)

lemma sample_issued: "\<exists>token. issue_at sample_web sample_tokens (UserId ''m'') 100000000000 (Some [1, 2]) = Ok token"
proof -
  have "to_json sample_web \<lparr>cl_sub = ''m'', cl_iss = ''ip'', cl_jti = sample_hex [1, 2], cl_iat = 100, cl_exp = 160\<rparr> = Some [7]"
    by (simp add: sample_web_def sample_claims_def)
  moreover have "st_issuer sample_tokens = ''ip''" "web_hex sample_web = sample_hex"
    by (simp_all add: sample_tokens_def sample_web_def)
  ultimately show ?thesis
    by (simp add: issue_at_def sample_seconds session_id_generate_def Let_def)
qed

section \<open>Properties\<close>

text \<open>
  C26: a token that was issued reads back as the user it was issued to and the session drawn for it,
  until the moment it runs out and no longer; and no text is read back as a session, by anyone,
  unless it carries this server's header and the signature of its payload under this server's secret.
\<close>

theorem session_token_round_trip:
  assumes "web_crates_ok X" "id_ok (user_str user)" "issue_at X T user now drawn = Ok token"
  shows "verify_at X T (token_str token) at =
      (if seconds_since_epoch at < sat_add (seconds_since_epoch now) (as_secs (st_ttl T))
       then Ok \<lparr>ss_user = user, ss_id = SessionId (web_hex X (the drawn)),
                 ss_expires_at = sat_add (seconds_since_epoch now) (as_secs (st_ttl T))\<rparr>
       else Err SessionRejected)
    \<and> (verify_at X T raw at = Ok session \<longrightarrow>
      (\<exists>payload sig. split_by (\<lambda>a. a = CHR ''.'') raw = [HEADER, payload, sig]
        \<and> b64_decode X sig = Some (hmac_sha256 X (st_secret T) (as_bytes (signed_part payload)))))"
proof -
  let ?c = "\<lambda>b. \<lparr>cl_sub = user_str user, cl_iss = st_issuer T, cl_jti = web_hex X b, cl_iat = seconds_since_epoch now,
    cl_exp = sat_add (seconds_since_epoch now) (as_secs (st_ttl T))\<rparr>"
  obtain b json where t: "drawn = Some b" "to_json X (?c b) = Some json"
    "token = SessionToken (signed_part (b64_encode X json) @ ''.'' @
        b64_encode X (hmac_sha256 X (st_secret T) (as_bytes (signed_part (b64_encode X json)))))"
    using issue_at_Ok [OF assms(3)] by blast
  have "from_json X json = Some (?c b)" and b64: "\<And>x. b64_decode X (b64_encode X x) = Some x" "\<And>x. CHR ''.'' \<notin> set (b64_encode X x)"
    using assms(1) t(2) unfolding web_crates_ok_def by blast+
  moreover have "split_by (\<lambda>a. a = CHR ''.'') (token_str token) = [HEADER, b64_encode X json,
      b64_encode X (hmac_sha256 X (st_secret T) (as_bytes (signed_part (b64_encode X json))))]"
    using split_by_three [OF HEADER_undotted b64(2) b64(2)] t(3) by (simp add: signed_part_def)
  moreover have ident: "user_id_new (user_str user) = Ok user" using assms(2) by simp
  ultimately have "verify_at X T (token_str token) at =
      (if seconds_since_epoch at < sat_add (seconds_since_epoch now) (as_secs (st_ttl T))
       then Ok \<lparr>ss_user = user, ss_id = SessionId (web_hex X (the drawn)),
                 ss_expires_at = sat_add (seconds_since_epoch now) (as_secs (st_ttl T))\<rparr>
       else Err SessionRejected)"
    using t(1) by (simp add: verify_at_def signed_part_def not_less ident)
  then show ?thesis
    using verify_at_Ok_iff [of X T raw at session] by blast
qed

theorem session_token_round_trip_witness:
  "\<exists>token. issue_at sample_web sample_tokens (UserId ''m'') 100000000000 (Some [1, 2]) = Ok token
     \<and> verify_at sample_web sample_tokens (token_str token) 159999999999 =
         Ok \<lparr>ss_user = UserId ''m'', ss_id = SessionId (sample_hex [1, 2]), ss_expires_at = 160\<rparr>
     \<and> verify_at sample_web sample_tokens (token_str token) 160000000000 = Err SessionRejected"
proof -
  have m: "id_ok (user_str (UserId ''m''))"
    by (simp add: id_ok_def id_char_def code_def ascii_alphanumeric_def ascii_lower_def)
  obtain token where token: "issue_at sample_web sample_tokens (UserId ''m'') 100000000000 (Some [1, 2]) = Ok token"
    using sample_issued by blast
  show ?thesis
    using session_token_round_trip [OF sample_web_ok m token] token
    by (simp add: sample_seconds) (simp add: sample_web_def)
qed

lemma sample_session_read: "\<exists>token. verify_at sample_web sample_tokens token 100000000000 = Ok sample_session"
proof -
  have claims: "from_json sample_web [7] = Some sample_claims" by (simp add: sample_web_def)
  let ?p = "sample_hex [7]"
  let ?sig = "sample_hex (hmac_sha256 sample_web (st_secret sample_tokens) (as_bytes (signed_part ?p)))"
  have dots: "CHR ''.'' \<notin> set (sample_hex b)" for b
    using sample_web_ok by (simp add: web_crates_ok_def sample_web_def)
  have b64: "b64_decode sample_web (sample_hex b) = Some b" for b
    by (simp add: sample_web_def sample_hex_facts)
  have "verify_at sample_web sample_tokens (HEADER @ ''.'' @ ?p @ ''.'' @ ?sig) 100000000000 = Ok sample_session"
    unfolding verify_at_Ok_iff using split_by_three [OF HEADER_undotted dots dots] claims b64
    by (simp add: sample_claims_def sample_session_def sample_seconds sample_tokens_def id_ok_def id_char_def code_def
        ascii_alphanumeric_def ascii_lower_def)
  then show ?thesis by blast
qed





end
