(* ===== verification/Store_Rules.thy ===== *)
theory Store_Rules
  imports Store_Identity "HOL-Library.Product_Lexorder"
begin

text \<open>
  The rules every node holds in memory, as the sqlite store keeps them: routing rules, plugins with
  their owners and rules, limits, and the revision that says how far they have moved on
  (\<open>crates/ip-storage/src/sqlite/route.rs\<close>, \<open>plugin.rs\<close>, \<open>limit.rs\<close>, \<open>revision.rs\<close> and the plugin
  transactions). \<open>ORDER BY\<close> is a stable sort of the joined rows.
\<close>

section \<open>Routing rules\<close>

definition route_here :: "endpoint \<Rightarrow> route_row \<Rightarrow> bool" where
  "route_here e r =
     (ro_protocol r = protocol_name (ep_protocol e) \<and> ro_host r = host_str (ep_host e)
      \<and> ro_port r = int (unat (port_get (ep_port e))) \<and> ro_path r = path_str (ep_path e))"

definition upsert_route :: "route_rule \<Rightarrow> timestamp \<Rightarrow> db \<Rightarrow> int \<times> db" where
  "upsert_route rule now d =
     (let e = key_endpoint (r_key rule) in
      case List.find (route_here e) (routes_tbl d) of
        Some old \<Rightarrow>
          (ro_row old, bump 1 (d\<lparr>routes_tbl := map (\<lambda>r. if ro_row r = ro_row old
             then r\<lparr>ro_api := api_str (r_api rule), ro_strategy := strategy_name (r_strategy rule)\<rparr> else r) (routes_tbl d)\<rparr>))
      | None \<Rightarrow>
          (let k = next_row (map ro_row (routes_tbl d)) in
           (k, bump 1 (d\<lparr>routes_tbl := routes_tbl d @
                [\<lparr>ro_row = k, ro_api = api_str (r_api rule), ro_protocol = protocol_name (ep_protocol e),
                  ro_host = host_str (ep_host e), ro_port = int (unat (port_get (ep_port e))),
                  ro_path = path_str (ep_path e), ro_strategy = strategy_name (r_strategy rule),
                  ro_created = unix_seconds now\<rparr>]\<rparr>))))"

definition insert_target :: "int \<Rightarrow> nat \<times> weighted \<Rightarrow> db \<Rightarrow> db" where
  "insert_target k = (\<lambda>(position, w) d.
     let e = w_endpoint w in
     bump 1 (d\<lparr>targets_tbl := targets_tbl d @
       [\<lparr>rt_row = next_row (map rt_row (targets_tbl d)), rt_route = k, rt_position = int position,
         rt_protocol = protocol_name (ep_protocol e), rt_host = host_str (ep_host e),
         rt_port = int (unat (port_get (ep_port e))), rt_path = path_str (ep_path e),
         rt_weight = int (unat (weight_get (w_weight w)))\<rparr>]\<rparr>))"

definition put_route :: "route_rule \<Rightarrow> timestamp \<Rightarrow> db \<Rightarrow> db" where
  "put_route rule now d =
     (let (k, d) = upsert_route rule now d;
          d = drop_targets (\<lambda>t. rt_route t = k) d in
      fold (insert_target k) (enumerate 0 (target_weighted (r_target rule))) d)"

definition remove_route :: "route_key \<Rightarrow> db \<Rightarrow> (storage_error, db) result" where
  "remove_route key d =
     (if list_ex (route_here (key_endpoint key)) (routes_tbl d)
      then Ok (delete_route_rows (route_here (key_endpoint key)) d)
      else Err (NotFound EntRoute (endpoint_fmt (key_endpoint key))))"

definition target_of :: "target_row \<Rightarrow> (storage_error, weighted) result" where
  "target_of t =
     rbind (value_of_type (from_parts (rt_protocol t) (rt_host t) (rt_port t) (rt_path t))) (\<lambda>e.
     if 0 \<le> rt_weight t \<and> rt_weight t < 2 ^ 32 then Ok (weighing e (Weight (of_int (rt_weight t))))
     else Err (Malformed EntRoute))"

definition strategy_of :: "route_row \<Rightarrow> (storage_error, strategy) result" where
  "strategy_of r = value_of_type (strategy_named (ro_strategy r))"

definition routes_join :: "db \<Rightarrow> (route_row \<times> target_row) list" where
  "routes_join d = [(r, t). r \<leftarrow> routes_tbl d, t \<leftarrow> targets_tbl d, rt_route t = ro_row r]"

definition store_route :: "route_key \<Rightarrow> db \<Rightarrow> (storage_error, route_rule option) result" where
  "store_route key d =
     (case sort_key (\<lambda>(r, t). rt_position t) (filter (\<lambda>(r, t). route_here (key_endpoint key) r) (routes_join d)) of
        [] \<Rightarrow> Ok None
      | (first, t) # rows \<Rightarrow>
          rbind (value_of_type (api_id_new (ro_api first))) (\<lambda>api.
          rbind (collect_results (map (\<lambda>(r, t). target_of t) ((first, t) # rows))) (\<lambda>targets.
          rbind (value_of_type (from_weighted targets)) (\<lambda>target.
          rbind (strategy_of first) (\<lambda>strategy.
          Ok (Some \<lparr>r_api = api, r_key = key, r_target = target, r_strategy = strategy\<rparr>))))))"

text \<open>Rows of one rule follow each other; \<open>mk\<close> makes a rule of its first row, \<open>add\<close> adds a row to the last rule.\<close>

fun group_rows ::
  "(route_row \<Rightarrow> weighted \<Rightarrow> (storage_error, 'a) result) \<Rightarrow> ('a \<Rightarrow> weighted \<Rightarrow> (storage_error, 'a) result)
   \<Rightarrow> int option \<Rightarrow> 'a list \<Rightarrow> (route_row \<times> target_row) list \<Rightarrow> (storage_error, 'a list) result" where
  "group_rows mk add current rules [] = Ok rules"
| "group_rows mk add current rules ((r, t) # rows) =
     rbind (target_of t) (\<lambda>w.
     if current = Some (ro_row r) \<and> rules \<noteq> []
     then rbind (add (List.last rules) w) (\<lambda>x. group_rows mk add current (butlast rules @ [x]) rows)
     else rbind (mk r w) (\<lambda>x. group_rows mk add (Some (ro_row r)) (rules @ [x]) rows))"

definition start_rule :: "route_row \<Rightarrow> weighted \<Rightarrow> (storage_error, route_rule) result" where
  "start_rule r w =
     rbind (value_of_type (api_id_new (ro_api r))) (\<lambda>api.
     rbind (value_of_type (from_parts (ro_protocol r) (ro_host r) (ro_port r) (ro_path r))) (\<lambda>key.
     rbind (value_of_type (from_weighted [w])) (\<lambda>target.
     rbind (strategy_of r) (\<lambda>strategy.
     Ok \<lparr>r_api = api, r_key = RouteKey key, r_target = target, r_strategy = strategy\<rparr>))))"

definition more_targets :: "route_rule \<Rightarrow> weighted \<Rightarrow> (storage_error, route_rule) result" where
  "more_targets rule w =
     rbind (value_of_type (from_weighted (target_weighted (r_target rule) @ [w]))) (\<lambda>target.
     Ok (rule\<lparr>r_target := target\<rparr>))"

definition read_routes :: "db \<Rightarrow> (storage_error, route_rule list) result" where
  "read_routes d =
     group_rows start_rule more_targets None []
       (sort_key (\<lambda>(r, t). (ro_host r, ro_path r, ro_protocol r, ro_port r, rt_position t)) (routes_join d))"

section \<open>Plugins and their owners\<close>

definition plugin_size :: "int \<Rightarrow> (storage_error, nat) result" where
  "plugin_size n = (if 0 \<le> n then Ok (nat n) else Err (Malformed EntPlugin))"

definition plugin_record_read :: "crates \<Rightarrow> plugin_row \<Rightarrow> int \<Rightarrow> (storage_error, plugin_record) result" where
  "plugin_record_read c p created =
     rbind (value_of_type (checksum_from_hex (hex_decode c) (p_checksum p))) (\<lambda>checksum.
     rbind (value_of_type (kind_from_str (p_kind p))) (\<lambda>knd.
     rbind (plugin_size (int (length (p_wasm p)))) (\<lambda>bytes.
     rbind (value_of_type (from_unix_seconds (cal c) created)) (\<lambda>created.
     Ok \<lparr>plr_row_id = p_row p, plr_checksum = checksum, plr_kind = knd, plr_size = bytes, plr_created = created\<rparr>))))"

definition insert_wasm ::
  "crates \<Rightarrow> plugin_kind \<Rightarrow> bytes \<Rightarrow> timestamp \<Rightarrow> db \<Rightarrow> (storage_error, plugin_record \<times> db) result" where
  "insert_wasm c knd wasm now d =
     (let hex = checksum_to_hex (hex_encode c) (checksum_of (sha256 c) wasm);
          d = (if has_row p_checksum hex (plugins_tbl d) then d
               else d\<lparr>plugins_tbl := plugins_tbl d @
                      [\<lparr>p_row = next_row (map p_row (plugins_tbl d)), p_checksum = hex, p_kind = kind_name knd,
                        p_wasm = wasm, p_created = unix_seconds now\<rparr>]\<rparr>) in
      case lookup p_checksum hex (plugins_tbl d) of
        None \<Rightarrow> Err Backend
      | Some p \<Rightarrow>
          rbind (plugin_record_read c p (p_created p)) (\<lambda>record.
          if plr_kind record \<noteq> knd
          then Err (Conflict EntPlugin (hex @ '' as a '' @ kind_name (plr_kind record) @ '' plugin''))
          else Ok (record, d)))"

definition owner_row_id :: "plugin_owner \<Rightarrow> db \<Rightarrow> (storage_error, int option) result" where
  "owner_row_id owner d =
     (case owner_tenant owner of
        Some t \<Rightarrow> map_sum id Some (tenant_row_id_of t d)
      | None \<Rightarrow> Ok None)"

text \<open>The \<open>plugin_owners_owner\<close> index takes a missing tenant for 0.\<close>

definition insert_owner ::
  "crates \<Rightarrow> plugin_record \<Rightarrow> plugin_owner \<Rightarrow> timestamp \<Rightarrow> db \<Rightarrow> (storage_error, timestamp \<times> db) result" where
  "insert_owner c plugin owner now d =
     rbind (owner_row_id owner d) (\<lambda>k.
     let d = (if list_ex (\<lambda>o'. ow_plugin o' = plr_row_id plugin \<and> unwrap_or (ow_tenant o') 0 = unwrap_or k 0) (owners_tbl d) then d
              else d\<lparr>owners_tbl := owners_tbl d @
                     [\<lparr>ow_plugin = plr_row_id plugin, ow_tenant = k, ow_created = unix_seconds now\<rparr>]\<rparr>) in
     case List.find (\<lambda>o'. ow_plugin o' = plr_row_id plugin \<and> ow_tenant o' = k) (owners_tbl d) of
       None \<Rightarrow> Err Backend
     | Some o' \<Rightarrow> rbind (value_of_type (from_unix_seconds (cal c) (ow_created o'))) (\<lambda>at. Ok (at, d)))"

definition delete_owner ::
  "crates \<Rightarrow> checksum \<Rightarrow> plugin_owner \<Rightarrow> db \<Rightarrow> (storage_error, plugin_record \<times> db) result" where
  "delete_owner c checksum owner d =
     (let hex = checksum_to_hex (hex_encode c) checksum; missing = NotFound EntPlugin hex in
      rbind (owner_row_id owner d) (\<lambda>k.
      rbind (ok_or (lookup p_checksum hex (plugins_tbl d)) missing) (\<lambda>p.
      rbind (plugin_record_read c p (p_created p)) (\<lambda>record.
      if list_ex (\<lambda>r. pr_plugin r = plr_row_id record \<and> pr_tenant r = k) (rules_tbl d) then Err (InUse EntPlugin hex)
      else
        let here = (\<lambda>o'. ow_plugin o' = plr_row_id record \<and> ow_tenant o' = k) in
        if \<not> list_ex here (owners_tbl d) then Err missing
        else Ok (record, d\<lparr>owners_tbl := filter (\<lambda>o'. \<not> here o') (owners_tbl d)\<rparr>)))))"

definition delete_unowned :: "crates \<Rightarrow> plugin_record \<Rightarrow> db \<Rightarrow> (storage_error, bool \<times> db) result" where
  "delete_unowned c plugin d =
     (let k = plr_row_id plugin in
      if has_row ow_plugin k (owners_tbl d) \<or> \<not> has_row p_row k (plugins_tbl d) then Ok (False, d)
      else case delete_plugin_row k d of
             Some d' \<Rightarrow> Ok (True, d')
           | None \<Rightarrow> Err (InUse EntPlugin (checksum_to_hex (hex_encode c) (plr_checksum plugin))))"

definition put_plugin :: "crates \<Rightarrow> new_plugin \<Rightarrow> timestamp \<Rightarrow> db \<Rightarrow> (storage_error, plugin_uploaded \<times> db) result" where
  "put_plugin c new now d =
     rbind (insert_wasm c (np_kind new) (np_wasm new) now d) (\<lambda>(plugin, d).
     rbind (insert_owner c plugin (np_owner new) now d) (\<lambda>(owned_at, d).
     Ok (\<lparr>pu_plugin = plugin, pu_owned_at = owned_at\<rparr>, d)))"

definition disown_plugin ::
  "crates \<Rightarrow> checksum \<Rightarrow> plugin_owner \<Rightarrow> db \<Rightarrow> (storage_error, plugin_disowned \<times> db) result" where
  "disown_plugin c checksum owner d =
     rbind (delete_owner c checksum owner d) (\<lambda>(plugin, d).
     rbind (delete_unowned c plugin d) (\<lambda>(swept, d).
     Ok (\<lparr>pd_plugin = plugin, pd_swept = swept\<rparr>, d)))"

definition store_plugin :: "crates \<Rightarrow> checksum \<Rightarrow> db \<Rightarrow> (storage_error, stored_plugin option) result" where
  "store_plugin c checksum d =
     (case lookup p_checksum (checksum_to_hex (hex_encode c) checksum) (plugins_tbl d) of
        None \<Rightarrow> Ok None
      | Some p \<Rightarrow> rbind (plugin_record_read c p (p_created p)) (\<lambda>record. Ok (Some \<lparr>sp_record = record, sp_wasm = p_wasm p\<rparr>)))"

definition store_plugins :: "crates \<Rightarrow> db \<Rightarrow> (storage_error, plugin_record list) result" where
  "store_plugins c d = collect_results (map (\<lambda>p. plugin_record_read c p (p_created p)) (sort_key p_row (plugins_tbl d)))"


section \<open>Plugin rules\<close>

text \<open>The plugin a rule may place: one its own chain owns.\<close>

definition owned_plugin :: "crates \<Rightarrow> checksum \<Rightarrow> int option \<Rightarrow> db \<Rightarrow> plugin_row option" where
  "owned_plugin c checksum tenant d =
     map_option fst (List.find (\<lambda>(p, o'). p_checksum p = checksum_to_hex (hex_encode c) checksum \<and> ow_tenant o' = tenant)
       [(p, o'). p \<leftarrow> plugins_tbl d, o' \<leftarrow> owners_tbl d, ow_plugin o' = p_row p])"

definition rule_keys :: "plugin_scope \<Rightarrow> db \<Rightarrow> (storage_error, int option \<times> int option \<times> api_id option) result" where
  "rule_keys scope d =
     (case scope of
        Global \<Rightarrow> Ok (None, None, None)
      | InTenant tenant usr api \<Rightarrow>
          rbind (tenant_row_id_of tenant d) (\<lambda>tk.
          rbind (case usr of Some u \<Rightarrow> map_sum id Some (user_row_id_of u d) | None \<Rightarrow> Ok None) (\<lambda>uk.
          Ok (Some tk, uk, api))))"

definition insert_rule ::
  "int \<Rightarrow> int option \<Rightarrow> int option \<Rightarrow> api_id option \<Rightarrow> plugin_kind \<Rightarrow> plugin_order \<Rightarrow> timestamp \<Rightarrow> db \<Rightarrow> (storage_error, db) result" where
  "insert_rule plugin tk uk api knd order now d =
     (let pos = int (unat (order_get order)) in
      if list_ex (\<lambda>r. unwrap_or (pr_tenant r) 0 = unwrap_or tk 0 \<and> pr_kind r = kind_name knd \<and> pr_position r = pos) (rules_tbl d)
      then Err (Conflict EntPluginRule (kind_name knd @ '' '' @ show_nat (unat (order_get order))))
      else if (tk = None \<and> (uk \<noteq> None \<or> api \<noteq> None)) \<or> (tk = None) \<noteq> (pos \<le> 63)
           \<or> \<not> has_row p_row plugin (plugins_tbl d) \<or> \<not> null_or_row t_row tk (tenants d) \<or> \<not> null_or_row u_row uk (users d)
      then Err Backend
      else Ok (bump 1 (d\<lparr>rules_tbl := rules_tbl d @
                [\<lparr>pr_row = next_row (map pr_row (rules_tbl d)), pr_plugin = plugin, pr_tenant = tk, pr_user = uk,
                  pr_api = map_option api_str api, pr_kind = kind_name knd, pr_position = pos,
                  pr_created = unix_seconds now\<rparr>]\<rparr>)))"

definition put_rule :: "crates \<Rightarrow> new_plugin_rule \<Rightarrow> timestamp \<Rightarrow> db \<Rightarrow> (storage_error, plugin_rule \<times> db) result" where
  "put_rule c rule now d =
     rbind (rule_keys (nr_scope rule) d) (\<lambda>(tk, uk, api).
     rbind (ok_or (owned_plugin c (nr_checksum rule) tk d)
              (NotFound EntPlugin (checksum_to_hex (hex_encode c) (nr_checksum rule)))) (\<lambda>p.
     rbind (value_of_type (kind_from_str (p_kind p))) (\<lambda>knd.
     rbind (insert_rule (p_row p) tk uk api knd (nr_order rule) now d) (\<lambda>d.
     Ok (with_kind rule knd, d)))))"

definition remove_rule :: "tenant_id option \<Rightarrow> plugin_kind \<Rightarrow> plugin_order \<Rightarrow> db \<Rightarrow> (storage_error, db) result" where
  "remove_rule tenant knd order d =
     (let here = (\<lambda>r. (case tenant of
                         Some t \<Rightarrow> (case lookup t_id (tenant_str t) (tenants d) of
                                     Some row \<Rightarrow> pr_tenant r = Some (t_row row) | None \<Rightarrow> False)
                       | None \<Rightarrow> pr_tenant r = None)
                   \<and> pr_kind r = kind_name knd \<and> pr_position r = int (unat (order_get order))) in
      if list_ex here (rules_tbl d) then Ok (drop_rules here d)
      else Err (NotFound EntPluginRule (kind_name knd @ '' '' @ show_nat (unat (order_get order)))))"

text \<open>A rule's row joined with its plugin, and with the tenant and the user it names if it names them.\<close>

definition row_name :: "('r \<Rightarrow> int) \<Rightarrow> ('r \<Rightarrow> string) \<Rightarrow> int option \<Rightarrow> 'r list \<Rightarrow> string option" where
  "row_name key name k rows = Option.bind k (\<lambda>k. map_option name (lookup key k rows))"

definition rule_read :: "crates \<Rightarrow> db \<Rightarrow> plugin_row \<times> rule_row \<Rightarrow> (storage_error, plugin_rule) result" where
  "rule_read c d = (\<lambda>(p, r).
     rbind (plugin_order_read (pr_position r)) (\<lambda>order.
     rbind (plugin_scope_read (row_name t_row t_id (pr_tenant r) (tenants d)) (row_name u_row u_id (pr_user r) (users d)) (pr_api r)) (\<lambda>scope.
     rbind (value_of_type (checksum_from_hex (hex_decode c) (p_checksum p))) (\<lambda>checksum.
     rbind (value_of_type (kind_from_str (pr_kind r))) (\<lambda>knd.
     value_of_type (plugin_rule_new checksum knd order scope))))))"

definition rules_join :: "db \<Rightarrow> (plugin_row \<times> rule_row) list" where
  "rules_join d = [(p, r). r \<leftarrow> rules_tbl d, p \<leftarrow> plugins_tbl d, p_row p = pr_plugin r]"

definition read_rules :: "crates \<Rightarrow> db \<Rightarrow> (storage_error, plugin_rule list) result" where
  "read_rules c d =
     collect_results (map (rule_read c d) (sort_key (\<lambda>(p, r). (pr_kind r, - pr_position r)) (rules_join d)))"

definition rules_for_tenant :: "crates \<Rightarrow> tenant_id \<Rightarrow> db \<Rightarrow> (storage_error, plugin_rule list) result" where
  "rules_for_tenant c tenant d =
     collect_results (map (rule_read c d) (sort_key (\<lambda>(p, r). (pr_kind r, - pr_position r))
       (filter (\<lambda>(p, r). pr_tenant r = None \<or> row_name t_row t_id (pr_tenant r) (tenants d) = Some (tenant_str tenant))
         (rules_join d))))"

section \<open>Limits\<close>

definition limit_keys :: "limit_scope \<Rightarrow> db \<Rightarrow> (storage_error, int \<times> int option) result" where
  "limit_keys scope d =
     rbind (tenant_row_id_of (ls_tenant scope) d) (\<lambda>tk.
     rbind (case ls_user scope of Some u \<Rightarrow> map_sum id Some (user_row_id_of u d) | None \<Rightarrow> Ok None) (\<lambda>uk.
     Ok (tk, uk)))"

definition limit_here :: "int \<Rightarrow> int option \<Rightarrow> string option \<Rightarrow> counted_what \<Rightarrow> period \<Rightarrow> limit_row \<Rightarrow> bool" where
  "limit_here tk uk api what over l =
     (l_tenant l = tk \<and> unwrap_or (l_user l) 0 = unwrap_or uk 0 \<and> unwrap_or (l_api l) [] = unwrap_or api []
      \<and> l_counted l = counted_name what \<and> l_period l = period_name over)"

definition allowance_stored :: "allowance \<Rightarrow> int" where
  "allowance_stored a = (if unat (allowance_get a) < 2 ^ 63 then int (unat (allowance_get a)) else 2 ^ 63 - 1)"

definition put_limit :: "new_limit \<Rightarrow> timestamp \<Rightarrow> db \<Rightarrow> (storage_error, limit \<times> db) result" where
  "put_limit new now d =
     rbind (limit_keys (nl_scope new) d) (\<lambda>(tk, uk).
     let api = map_option api_str (ls_api (nl_scope new));
         here = limit_here tk uk api (nl_counted new) (nl_period new);
         d = (if list_ex here (limits_tbl d)
              then bump (length (filter here (limits_tbl d)))
                     (d\<lparr>limits_tbl := map (\<lambda>l. if here l then l\<lparr>l_allowance := allowance_stored (nl_allowance new)\<rparr> else l) (limits_tbl d)\<rparr>)
              else bump 1 (d\<lparr>limits_tbl := limits_tbl d @
                     [\<lparr>l_row = next_row (map l_row (limits_tbl d)), l_tenant = tk, l_user = uk, l_api = api,
                       l_counted = counted_name (nl_counted new), l_period = period_name (nl_period new),
                       l_allowance = allowance_stored (nl_allowance new), l_created = unix_seconds now\<rparr>]\<rparr>)) in
     Ok (\<lparr>lm_scope = nl_scope new, lm_counted = nl_counted new, lm_period = nl_period new,
          lm_allowance = nl_allowance new, lm_created = now\<rparr>, d))"

definition remove_limit :: "limit_scope \<Rightarrow> counted_what \<Rightarrow> period \<Rightarrow> db \<Rightarrow> (storage_error, db) result" where
  "remove_limit scope what over d =
     rbind (limit_keys scope d) (\<lambda>(tk, uk).
     let here = limit_here tk uk (map_option api_str (ls_api scope)) what over in
     if list_ex here (limits_tbl d) then Ok (drop_limits here d)
     else Err (NotFound EntLimit (limit_scope_fmt scope @ '' '' @ counted_name what @ '' per '' @ period_name over)))"

definition limit_read :: "crates \<Rightarrow> db \<Rightarrow> limit_row \<times> tenant_row \<Rightarrow> (storage_error, limit) result" where
  "limit_read c d = (\<lambda>(l, t).
     rbind (value_of_type (tenant_id_new (t_id t))) (\<lambda>tenant.
     rbind (value_of_type (opt_read user_id_new (row_name u_row u_id (l_user l) (users d)))) (\<lambda>usr.
     rbind (value_of_type (opt_read api_id_new (l_api l))) (\<lambda>api.
     rbind (value_of_type (counted_named (l_counted l))) (\<lambda>what.
     rbind (value_of_type (period_named (l_period l))) (\<lambda>over.
     rbind (if 0 \<le> l_allowance l then value_of_type (allowance_new (of_int (l_allowance l))) else Err (Malformed EntLimit)) (\<lambda>allowance.
     rbind (value_of_type (from_unix_seconds (cal c) (l_created l))) (\<lambda>created.
     Ok \<lparr>lm_scope = \<lparr>ls_tenant = tenant, ls_user = usr, ls_api = api\<rparr>, lm_counted = what, lm_period = over,
         lm_allowance = allowance, lm_created = created\<rparr>))))))))"

definition limits_join :: "db \<Rightarrow> (limit_row \<times> tenant_row) list" where
  "limits_join d = [(l, t). l \<leftarrow> limits_tbl d, t \<leftarrow> tenants d, t_row t = l_tenant l]"

definition read_limits :: "crates \<Rightarrow> db \<Rightarrow> (storage_error, limit list) result" where
  "read_limits c d =
     collect_results (map (limit_read c d) (sort_key (\<lambda>(l, t). (- l_created l, - l_row l)) (limits_join d)))"

section \<open>The revision\<close>

definition read_revision :: "db \<Rightarrow> (storage_error, rule_revision) result" where
  "read_revision d =
     (if 0 \<le> revision d then Ok (RuleRevision (of_int (revision d))) else Err (Malformed EntRuleRevision))"

definition store_rule_set :: "crates \<Rightarrow> db \<Rightarrow> (storage_error, rule_set) result" where
  "store_rule_set c d =
     rbind (read_revision d) (\<lambda>rev.
     rbind (read_routes d) (\<lambda>routes.
     rbind (read_rules c d) (\<lambda>rules.
     rbind (read_limits c d) (\<lambda>limits.
     Ok \<lparr>rs_revision = rev, rs_routes = routes, rs_rules = rules, rs_limits = limits\<rparr>))))"

end
