(* ===== verification/Store_Lists.thy ===== *)
theory Store_Lists
  imports Store_Rules
begin

text \<open>
  What requests cost, and every list the api reads a page at a time, over the sqlite tables:
  \<open>crates/ip-storage/src/sqlite/usage.rs\<close> and \<open>list.rs\<close>. A page is the rows newer than its bound,
  newest first, with the offset skipped and the limit taken.
\<close>

section \<open>Usage\<close>

definition record_usage :: "crates \<Rightarrow> new_usage \<Rightarrow> timestamp \<Rightarrow> db \<Rightarrow> (storage_error, usage \<times> db) result" where
  "record_usage c new now d =
     (let k = usage_seq d + 1;
          row = \<lparr>us_row = k, us_trace = trace_id_to_hex (hex_encode c) (nu_trace new),
                 us_turn = map_option turn_str (nu_turn new), us_tenant = tenant_str (nu_tenant new),
                 us_user = user_str (nu_user new), us_api = api_str (nu_api new),
                 us_model = map_option model_str (nu_model new),
                 us_input = int (unat (token_get (tok_input (nu_tokens new)))),
                 us_output = int (unat (token_get (tok_output (nu_tokens new)))),
                 us_served = served_name (nu_served new),
                 us_host = map_option (\<lambda>r. host_str (rep_host r)) (nu_served_by new),
                 us_port = map_option (\<lambda>r. int (unat (port_get (rep_port r)))) (nu_served_by new),
                 us_latency = int (unat (latency_millis (nu_latency new))), us_at = unix_seconds now\<rparr> in
      rbind (value_of_type (from_unix_seconds (cal c) (us_at row))) (\<lambda>created.
      Ok (\<lparr>us_row_id = k, us_spent = new, us_created = created\<rparr>,
          d\<lparr>usage_tbl := usage_tbl d @ [row], usage_seq := k\<rparr>)))"

definition served_by :: "usage_row \<Rightarrow> (storage_error, replica option) result" where
  "served_by r =
     (case (us_host r, us_port r) of
        (Some host, Some port) \<Rightarrow>
          rbind (value_of_type (host_new host)) (\<lambda>host.
          rbind (value_of_type (port_try_from port)) (\<lambda>port.
          Ok (Some \<lparr>rep_host = host, rep_port = port\<rparr>)))
      | (None, None) \<Rightarrow> Ok None
      | _ \<Rightarrow> Err (Malformed EntUsage))"

definition recorded :: "crates \<Rightarrow> usage_row \<Rightarrow> (storage_error, usage) result" where
  "recorded c r =
     rbind (map_err (\<lambda>_. Malformed EntUsage) (trace_id_from_hex (hex_decode c) (us_trace r))) (\<lambda>trace.
     rbind (value_of_type (opt_read turn_id_new (us_turn r))) (\<lambda>turn.
     rbind (value_of_type (tenant_id_new (us_tenant r))) (\<lambda>tenant.
     rbind (value_of_type (user_id_new (us_user r))) (\<lambda>usr.
     rbind (value_of_type (api_id_new (us_api r))) (\<lambda>api.
     rbind (value_of_type (opt_read model_name_new (us_model r))) (\<lambda>model.
     rbind (token_count_read (us_input r)) (\<lambda>input.
     rbind (token_count_read (us_output r)) (\<lambda>output.
     rbind (served_read (us_served r)) (\<lambda>served.
     rbind (served_by r) (\<lambda>by_whom.
     rbind (latency_read (us_latency r)) (\<lambda>latency.
     rbind (value_of_type (from_unix_seconds (cal c) (us_at r))) (\<lambda>created.
     Ok \<lparr>us_row_id = us_row r,
         us_spent = \<lparr>nu_trace = trace, nu_turn = turn, nu_tenant = tenant, nu_user = usr, nu_api = api, nu_model = model,
                     nu_tokens = \<lparr>tok_input = input, tok_output = output\<rparr>, nu_served = served, nu_served_by = by_whom,
                     nu_latency = latency\<rparr>,
         us_created = created\<rparr>))))))))))))"

definition store_usage :: "crates \<Rightarrow> int \<Rightarrow> db \<Rightarrow> (storage_error, usage option) result" where
  "store_usage c k d = opt_read (recorded c) (lookup us_row k (usage_tbl d))"

definition usage_matches :: "usage_filter \<Rightarrow> usage_row \<Rightarrow> bool" where
  "usage_matches f r =
     (is_none_or (uf_tenant f) (\<lambda>t. us_tenant r = tenant_str t) \<and> is_none_or (uf_user f) (\<lambda>u. us_user r = user_str u)
      \<and> is_none_or (uf_api f) (\<lambda>a. us_api r = api_str a))"

definition spent :: "usage_filter \<Rightarrow> counted_what \<Rightarrow> timestamp \<Rightarrow> db \<Rightarrow> (storage_error, u64) result" where
  "spent f what moment d =
     (let rows = filter (\<lambda>r. unix_seconds moment \<le> us_at r \<and> usage_matches f r) (usage_tbl d);
          total = (case what of Tokens \<Rightarrow> sum_list (map (\<lambda>r. us_input r + us_output r) rows)
                              | Requests \<Rightarrow> int (length rows)) in
      if 2 ^ 63 \<le> total then Err Backend else Ok (if 0 \<le> total then of_int total else 0))"

definition sweep_usage :: "timestamp \<Rightarrow> db \<Rightarrow> nat \<times> db" where
  "sweep_usage moment d =
     (length (filter (\<lambda>r. us_at r < unix_seconds moment) (usage_tbl d)),
      d\<lparr>usage_tbl := filter (\<lambda>r. \<not> us_at r < unix_seconds moment) (usage_tbl d)\<rparr>)"

section \<open>Pages\<close>

text \<open>\<open>WHERE created_at > after ORDER BY created_at DESC, row DESC LIMIT limit OFFSET offset\<close>.\<close>

definition page_of :: "('r \<Rightarrow> int) \<Rightarrow> ('r \<Rightarrow> int) \<Rightarrow> page \<Rightarrow> 'r list \<Rightarrow> 'r list" where
  "page_of created row p rows =
     take (unat (pg_limit p)) (drop (unat (pg_offset p))
       (sort_key (\<lambda>r. (- created r, - row r)) (filter (\<lambda>r. after_seconds p < created r) rows)))"

definition listed_at :: "crates \<Rightarrow> int \<Rightarrow> 'a \<Rightarrow> (storage_error, 'a listed) result" where
  "listed_at c created x =
     rbind (value_of_type (from_unix_seconds (cal c) created)) (\<lambda>at. Ok \<lparr>li_item = x, li_created = at\<rparr>)"

definition list_members :: "crates \<Rightarrow> tenant_id \<Rightarrow> page \<Rightarrow> db \<Rightarrow> (storage_error, membership listed list) result" where
  "list_members c tenant p d =
     collect_results (map (\<lambda>(m, t, u).
         rbind (value_of_type (user_id_new (u_id u))) (\<lambda>usr.
         rbind (standing_read (m_standing m)) (\<lambda>st.
         listed_at c (m_created m) \<lparr>mb_user = usr, mb_tenant = tenant, mb_standing = st\<rparr>)))
       (page_of (\<lambda>(m, t, u). m_created m) (\<lambda>(m, t, u). m_user m) p
         (filter (\<lambda>(m, t, u). t_id t = tenant_str tenant) (member_join d))))"

definition listed_grant ::
  "crates \<Rightarrow> user_id \<Rightarrow> string option \<Rightarrow> grant_row \<Rightarrow> (storage_error, grant listed) result" where
  "listed_grant c user tenant g = rbind (grant_read user tenant g) (listed_at c (g_created g))"

definition list_tenant_grants ::
  "crates \<Rightarrow> user_id \<Rightarrow> tenant_id \<Rightarrow> page \<Rightarrow> db \<Rightarrow> (storage_error, grant listed list) result" where
  "list_tenant_grants c user tenant p d =
     collect_results (map (listed_grant c user (Some (tenant_str tenant)))
       (page_of g_created g_row p (filter (\<lambda>g. grant_tenant d g = Some (tenant_str tenant)) (grants_join user d))))"

definition list_account_grants :: "crates \<Rightarrow> user_id \<Rightarrow> page \<Rightarrow> db \<Rightarrow> (storage_error, grant listed list) result" where
  "list_account_grants c user p d =
     collect_results (map (listed_grant c user None)
       (page_of g_created g_row p (filter (\<lambda>g. g_tenant g = None) (grants_join user d))))"

definition list_routes :: "crates \<Rightarrow> page \<Rightarrow> db \<Rightarrow> (storage_error, route_rule listed list) result" where
  "list_routes c p d =
     group_rows
       (\<lambda>r w. rbind (start_rule r w) (listed_at c (ro_created r)))
       (\<lambda>l w. rbind (more_targets (li_item l) w) (\<lambda>rule. Ok (l\<lparr>li_item := rule\<rparr>))) None []
       (sort_key (\<lambda>(r, t). (- ro_created r, - ro_row r, rt_position t))
         [(r, t). r \<leftarrow> page_of ro_created ro_row p (routes_tbl d), t \<leftarrow> targets_tbl d, rt_route t = ro_row r])"

definition list_plugins :: "crates \<Rightarrow> plugin_owner \<Rightarrow> page \<Rightarrow> db \<Rightarrow> (storage_error, plugin_record listed list) result" where
  "list_plugins c owner p d =
     rbind (owner_row_id owner d) (\<lambda>k.
     collect_results (map (\<lambda>(o', pl).
         rbind (plugin_record_read c pl (ow_created o')) (\<lambda>record. Ok \<lparr>li_item = record, li_created = plr_created record\<rparr>))
       (page_of (\<lambda>(o', pl). ow_created o') (\<lambda>(o', pl). p_row pl) p
         [(o', pl). o' \<leftarrow> owners_tbl d, ow_tenant o' = k, pl \<leftarrow> plugins_tbl d, p_row pl = ow_plugin o'])))"

definition list_limits :: "crates \<Rightarrow> tenant_id option \<Rightarrow> page \<Rightarrow> db \<Rightarrow> (storage_error, limit list) result" where
  "list_limits c tenant p d =
     collect_results (map (limit_read c d)
       (page_of (\<lambda>(l, t). l_created l) (\<lambda>(l, t). l_row l) p
         (filter (\<lambda>(l, t). is_none_or tenant (\<lambda>x. t_id t = tenant_str x)) (limits_join d))))"

definition list_usage :: "crates \<Rightarrow> usage_filter \<Rightarrow> page \<Rightarrow> db \<Rightarrow> (storage_error, usage list) result" where
  "list_usage c f p d = collect_results (map (recorded c) (page_of us_at us_row p (filter (usage_matches f) (usage_tbl d))))"

text \<open>The global chain is read without its joins, so a rule of it names neither a tenant nor a user.\<close>

definition list_rules :: "crates \<Rightarrow> tenant_id option \<Rightarrow> page \<Rightarrow> db \<Rightarrow> (storage_error, plugin_rule listed list) result" where
  "list_rules c tenant p d =
     collect_results (map (\<lambda>(pl, r). rbind (rule_read c d (pl, r)) (listed_at c (pr_created r)))
       (page_of (\<lambda>(pl, r). pr_created r) (\<lambda>(pl, r). pr_row r) p
         (case tenant of
            Some t \<Rightarrow> filter (\<lambda>(pl, r). row_name t_row t_id (pr_tenant r) (tenants d) = Some (tenant_str t)) (rules_join d)
          | None \<Rightarrow> map (\<lambda>(pl, r). (pl, r\<lparr>pr_user := None\<rparr>)) (filter (\<lambda>(pl, r). pr_tenant r = None) (rules_join d)))))"

end
