(* ===== verification/Rules_Spec.thy ===== *)
theory Rules_Spec
  imports Identity_Spec Store_Lists
begin

text \<open>
  What the revision of \<open>crates/ip-storage/migrations/sqlite/0006_rule_revision.sql\<close> promises: whoever
  holds a copy of the rules can tell it stale by the revision alone. Every operation of the store is
  a step; a step either moves the revision on or leaves everything the rules are read from as it was.
\<close>

section \<open>The steps of the store\<close>

inductive store_step :: "crates \<Rightarrow> db \<Rightarrow> db \<Rightarrow> bool" for c where
  Identity: "run_op now op d = Ok d' \<Longrightarrow> store_step c d d'"
| PutRoute: "store_step c d (put_route rule now d)"
| RemoveRoute: "remove_route key d = Ok d' \<Longrightarrow> store_step c d d'"
| PutPlugin: "put_plugin c new now d = Ok (x, d') \<Longrightarrow> store_step c d d'"
| DisownPlugin: "disown_plugin c checksum owner d = Ok (y, d') \<Longrightarrow> store_step c d d'"
| PutRule: "put_rule c nr now d = Ok (z, d') \<Longrightarrow> store_step c d d'"
| RemoveRule: "remove_rule tenant knd order d = Ok d' \<Longrightarrow> store_step c d d'"
| PutLimit: "put_limit nl now d = Ok (l, d') \<Longrightarrow> store_step c d d'"
| RemoveLimit: "remove_limit scope what over d = Ok d' \<Longrightarrow> store_step c d d'"
| RecordUsage: "record_usage c nu now d = Ok (u, d') \<Longrightarrow> store_step c d d'"
| SweepUsage: "sweep_usage moment d = (n, d') \<Longrightarrow> store_step c d d'"

inductive store_steps :: "crates \<Rightarrow> db \<Rightarrow> db \<Rightarrow> bool" for c where
  Start: "store_steps c d d"
| Next: "store_steps c d d' \<Longrightarrow> store_step c d' d'' \<Longrightarrow> store_steps c d d''"

section \<open>What the rules are read from\<close>

definition rows_at :: "('r \<Rightarrow> int) \<Rightarrow> int \<Rightarrow> 'r list \<Rightarrow> 'r list" where
  "rows_at f k rows = filter (\<lambda>r. f r = k) rows"

definition tenant_refs :: "db \<Rightarrow> int set" where
  "tenant_refs d = {k. \<exists>r\<in>set (rules_tbl d). pr_tenant r = Some k} \<union> l_tenant ` set (limits_tbl d)"

definition user_refs :: "db \<Rightarrow> int set" where
  "user_refs d = {k. \<exists>r\<in>set (rules_tbl d). pr_user r = Some k} \<union> {k. \<exists>l\<in>set (limits_tbl d). l_user l = Some k}"

definition plugin_refs :: "db \<Rightarrow> int set" where
  "plugin_refs d = pr_plugin ` set (rules_tbl d)"

text \<open>The foreign keys of the rules and limits.\<close>

definition refs_ok :: "db \<Rightarrow> bool" where
  "refs_ok d = (tenant_refs d \<subseteq> t_row ` set (tenants d) \<and> user_refs d \<subseteq> u_row ` set (users d)
     \<and> plugin_refs d \<subseteq> p_row ` set (plugins_tbl d))"

definition quiet :: "db \<Rightarrow> db \<Rightarrow> bool" where
  "quiet d d' =
     (routes_tbl d' = routes_tbl d \<and> targets_tbl d' = targets_tbl d \<and> rules_tbl d' = rules_tbl d \<and> limits_tbl d' = limits_tbl d
      \<and> (\<forall>k\<in>tenant_refs d. rows_at t_row k (tenants d') = rows_at t_row k (tenants d))
      \<and> (\<forall>k\<in>user_refs d. map u_id (rows_at u_row k (users d')) = map u_id (rows_at u_row k (users d)))
      \<and> (\<forall>k\<in>plugin_refs d. rows_at p_row k (plugins_tbl d') = rows_at p_row k (plugins_tbl d)))"

definition advances :: "db \<Rightarrow> db \<Rightarrow> bool" where
  "advances d d' = (revision d \<le> revision d' \<and> (revision d' = revision d \<longrightarrow> quiet d d'))"

definition contents :: "crates \<Rightarrow> db \<Rightarrow> (storage_error, route_rule list) result
    \<times> (storage_error, plugin_rule list) result \<times> (storage_error, limit list) result" where
  "contents c d = (read_routes d, read_rules c d, read_limits c d)"

section \<open>Reading is decided by it\<close>

lemma lookup_rows_at: "lookup f k rows = (case rows_at f k rows of [] \<Rightarrow> None | r # _ \<Rightarrow> Some r)"
  by (induction rows) (auto simp: lookup_def rows_at_def)

lemma row_name_rows_at: "row_name key name (Some k) rows = (case map name (rows_at key k rows) of [] \<Rightarrow> None | n # _ \<Rightarrow> Some n)"
  by (auto simp: row_name_def lookup_rows_at split: list.splits)

lemma row_name_None [simp]: "row_name key name None rows = None"
  by (simp add: row_name_def)

lemma join_rows_at: "[(p, r). p \<leftarrow> ps, key p = k] = map (\<lambda>p. (p, r)) (rows_at key k ps)"
  "[(r, p). p \<leftarrow> ps, key p = k] = map (\<lambda>p. (r, p)) (rows_at key k ps)"
  by (induction ps) (auto simp: rows_at_def)

lemma quiet_contents:
  assumes "quiet d d'"
  shows "contents c d' = contents c d"
proof -
  note q = assms [unfolded quiet_def]
  have names: "row_name t_row t_id (Some k) (tenants d') = row_name t_row t_id (Some k) (tenants d)" if "k \<in> tenant_refs d" for k
    using q that by (simp add: row_name_rows_at)
  have unames: "row_name u_row u_id (Some k) (users d') = row_name u_row u_id (Some k) (users d)" if "k \<in> user_refs d" for k
    using q that by (simp add: row_name_rows_at)
  have tenant: "row_name t_row t_id (pr_tenant r) (tenants d') = row_name t_row t_id (pr_tenant r) (tenants d)"
    if "r \<in> set (rules_tbl d)" for r
    using names that by (cases "pr_tenant r") (auto simp: tenant_refs_def)
  have user: "row_name u_row u_id (pr_user r) (users d') = row_name u_row u_id (pr_user r) (users d)"
    if "r \<in> set (rules_tbl d)" for r
    using unames that by (cases "pr_user r") (auto simp: user_refs_def)
  have luser: "row_name u_row u_id (l_user l) (users d') = row_name u_row u_id (l_user l) (users d)"
    if "l \<in> set (limits_tbl d)" for l
    using unames that by (cases "l_user l") (auto simp: user_refs_def)
  have rj: "rules_join d' = rules_join d" and lj: "limits_join d' = limits_join d"
  proof -
    have "rules_join x = concat (map (\<lambda>r. map (\<lambda>p. (p, r)) (rows_at p_row (pr_plugin r) (plugins_tbl x))) (rules_tbl x))" for x
      unfolding rules_join_def join_rows_at ..
    then show "rules_join d' = rules_join d" using q by (auto simp: plugin_refs_def intro!: arg_cong [where f = concat])
    have "limits_join x = concat (map (\<lambda>l. map (\<lambda>t. (l, t)) (rows_at t_row (l_tenant l) (tenants x))) (limits_tbl x))" for x
      unfolding limits_join_def join_rows_at ..
    then show "limits_join d' = limits_join d" using q by (auto simp: tenant_refs_def intro!: arg_cong [where f = concat])
  qed
  have "rule_read c d' x = rule_read c d x" if "x \<in> set (rules_join d)" for x
    using that tenant user by (auto simp: rule_read_def rules_join_def)
  moreover have "limit_read c d' x = limit_read c d x" if "x \<in> set (limits_join d)" for x
    using that luser by (auto simp: limit_read_def limits_join_def)
  moreover have "routes_join d' = routes_join d" using q by (simp add: routes_join_def)
  ultimately show ?thesis
    by (auto simp: contents_def read_routes_def read_rules_def read_limits_def rj lj intro!: arg_cong [where f = collect_results] map_cong)
qed


section \<open>Steps\<close>

text \<open>A step keeps the foreign keys and advances the revision where it touches the rules.\<close>

definition sound_step :: "db \<Rightarrow> db \<Rightarrow> bool" where
  "sound_step d d' = (refs_ok d \<longrightarrow> refs_ok d' \<and> advances d d')"

lemma quiet_trans: "quiet d d' \<Longrightarrow> quiet d' d'' \<Longrightarrow> quiet d d''"
  by (auto simp: quiet_def tenant_refs_def user_refs_def plugin_refs_def)

lemma sound_trans: "sound_step d d' \<Longrightarrow> sound_step d' d'' \<Longrightarrow> sound_step d d''"
  unfolding sound_step_def advances_def by (metis antisym order_trans quiet_trans)

lemma sound_refl: "sound_step d d"
  by (simp add: sound_step_def advances_def quiet_def)

lemma rows_at_iff: "rows_at f k rows \<noteq> [] \<longleftrightarrow> k \<in> f ` set rows"
  by (auto simp: rows_at_def filter_empty_conv)

lemma quiet_refs: "quiet d d' \<Longrightarrow> tenant_refs d' = tenant_refs d \<and> user_refs d' = user_refs d \<and> plugin_refs d' = plugin_refs d"
  by (simp add: quiet_def tenant_refs_def user_refs_def plugin_refs_def)

lemma quiet_refs_ok:
  assumes "quiet d d'" "refs_ok d"
  shows "refs_ok d'"
proof -
  have "k \<in> t_row ` set (tenants d')" if "k \<in> tenant_refs d" for k
    using assms that unfolding quiet_def refs_ok_def by (metis rows_at_iff subsetD)
  moreover have "k \<in> u_row ` set (users d')" if "k \<in> user_refs d" for k
    using assms that unfolding quiet_def refs_ok_def by (metis rows_at_iff subsetD list.map_disc_iff)
  moreover have "k \<in> p_row ` set (plugins_tbl d')" if "k \<in> plugin_refs d" for k
    using assms that unfolding quiet_def refs_ok_def by (metis rows_at_iff subsetD)
  ultimately show ?thesis using quiet_refs [OF assms(1)] by (auto simp: refs_ok_def)
qed

lemma sound_quiet: "(refs_ok d \<Longrightarrow> quiet d d') \<Longrightarrow> revision d \<le> revision d' \<Longrightarrow> sound_step d d'"
  using quiet_refs_ok by (auto simp: sound_step_def advances_def)

lemma sound_moved: "(refs_ok d \<Longrightarrow> refs_ok d') \<Longrightarrow> revision d < revision d' \<Longrightarrow> sound_step d d'"
  by (simp add: sound_step_def advances_def)

lemma sound_frame:
  assumes "routes_tbl d' = routes_tbl d" "targets_tbl d' = targets_tbl d" "rules_tbl d' = rules_tbl d" "limits_tbl d' = limits_tbl d"
    and "tenants d' = tenants d" "users d' = users d" "plugins_tbl d' = plugins_tbl d" "revision d' = revision d"
  shows "sound_step d d'"
  using assms by (intro sound_quiet) (simp_all add: quiet_def)

lemma rows_at_append: "k \<noteq> f r \<Longrightarrow> rows_at f k (rows @ [r]) = rows_at f k rows"
  by (simp add: rows_at_def)

lemma rows_at_filter: "(\<And>r. f r = k \<Longrightarrow> P r) \<Longrightarrow> rows_at f k (filter P rows) = rows_at f k rows"
  by (induction rows) (auto simp: rows_at_def)

lemma fresh_ref: "k \<in> S \<Longrightarrow> S \<subseteq> f ` set rows \<Longrightarrow> k \<noteq> next_row (map f rows)"
  using next_row_fresh(2) [of "map f rows"] by auto

lemma sound_new_tenant: "t_row r = next_row (map t_row (tenants d)) \<Longrightarrow> sound_step d (d\<lparr>tenants := tenants d @ [r]\<rparr>)"
  using fresh_ref [of _ "tenant_refs d" t_row "tenants d"]
  by (intro sound_quiet) (auto simp: quiet_def rows_at_append refs_ok_def)

lemma sound_new_user: "u_row r = next_row (map u_row (users d)) \<Longrightarrow> sound_step d (d\<lparr>users := users d @ [r]\<rparr>)"
  using fresh_ref [of _ "user_refs d" u_row "users d"]
  by (intro sound_quiet) (auto simp: quiet_def rows_at_append refs_ok_def)

lemma sound_new_plugin: "p_row r = next_row (map p_row (plugins_tbl d)) \<Longrightarrow> sound_step d (d\<lparr>plugins_tbl := plugins_tbl d @ [r]\<rparr>)"
  using fresh_ref [of _ "plugin_refs d" p_row "plugins_tbl d"]
  by (intro sound_quiet) (auto simp: quiet_def rows_at_append refs_ok_def)

lemma filter_none: "length (filter P xs) = 0 \<Longrightarrow> filter (\<lambda>x. \<not> P x) xs = xs"
  by (induction xs) (auto split: if_splits)

lemma dropped_tables [simp]:
  "tenants (drop_rules P d) = tenants d" "users (drop_rules P d) = users d" "plugins_tbl (drop_rules P d) = plugins_tbl d"
  "routes_tbl (drop_rules P d) = routes_tbl d" "targets_tbl (drop_rules P d) = targets_tbl d" "limits_tbl (drop_rules P d) = limits_tbl d"
  "rules_tbl (drop_rules P d) = filter (\<lambda>r. \<not> P r) (rules_tbl d)"
  "revision (drop_rules P d) = revision d + int (length (filter P (rules_tbl d)))"
  "tenants (drop_limits Q d) = tenants d" "users (drop_limits Q d) = users d" "plugins_tbl (drop_limits Q d) = plugins_tbl d"
  "routes_tbl (drop_limits Q d) = routes_tbl d" "targets_tbl (drop_limits Q d) = targets_tbl d" "rules_tbl (drop_limits Q d) = rules_tbl d"
  "limits_tbl (drop_limits Q d) = filter (\<lambda>r. \<not> Q r) (limits_tbl d)"
  "revision (drop_limits Q d) = revision d + int (length (filter Q (limits_tbl d)))"
  "tenants (drop_targets R d) = tenants d" "users (drop_targets R d) = users d" "plugins_tbl (drop_targets R d) = plugins_tbl d"
  "rules_tbl (drop_targets R d) = rules_tbl d" "limits_tbl (drop_targets R d) = limits_tbl d"
  "routes_tbl (drop_targets R d) = routes_tbl d" "targets_tbl (drop_targets R d) = filter (\<lambda>r. \<not> R r) (targets_tbl d)"
  "revision (drop_targets R d) = revision d + int (length (filter R (targets_tbl d)))"
  by (simp_all add: drop_rules_def drop_limits_def drop_targets_def)

lemma refs_ok_iff: "refs_ok d \<longleftrightarrow>
    (\<forall>r\<in>set (rules_tbl d). pr_plugin r \<in> p_row ` set (plugins_tbl d) \<and> (\<forall>k. pr_tenant r = Some k \<longrightarrow> k \<in> t_row ` set (tenants d))
       \<and> (\<forall>k. pr_user r = Some k \<longrightarrow> k \<in> u_row ` set (users d)))
    \<and> (\<forall>l\<in>set (limits_tbl d). l_tenant l \<in> t_row ` set (tenants d) \<and> (\<forall>k. l_user l = Some k \<longrightarrow> k \<in> u_row ` set (users d)))"
  unfolding refs_ok_def tenant_refs_def user_refs_def plugin_refs_def by blast

lemma insert_target_fields [simp]:
  "rules_tbl (insert_target k p d) = rules_tbl d" "limits_tbl (insert_target k p d) = limits_tbl d"
  "tenants (insert_target k p d) = tenants d" "users (insert_target k p d) = users d"
  "plugins_tbl (insert_target k p d) = plugins_tbl d" "revision (insert_target k p d) = revision d + 1"
  "routes_tbl (insert_target k p d) = routes_tbl d"
  by (cases p; simp add: insert_target_def Let_def)+

lemma kept_ref: "k \<in> f ` {x \<in> S. f x \<noteq> j} \<longleftrightarrow> k \<in> f ` S \<and> k \<noteq> j"
  by auto

text \<open>Deleting a tenant or a user: what referred to it goes with it, and moves the revision.\<close>

lemma sound_delete_tenant: "sound_step d (delete_tenant_row k d)"
proof (cases "filter (\<lambda>r. pr_tenant r = Some k) (rules_tbl d) = [] \<and> filter (\<lambda>l. l_tenant l = k) (limits_tbl d) = []")
  case True
  then have "\<forall>j\<in>tenant_refs d. j \<noteq> k" by (auto simp: tenant_refs_def filter_empty_conv)
  then have "quiet d (delete_tenant_row k d)"
    using True by (auto simp: quiet_def delete_tenant_row_def filter_none rows_at_filter)
  then show ?thesis by (intro sound_quiet) (simp_all add: delete_tenant_row_def)
next
  case False
  then have "0 < length (filter (\<lambda>r. pr_tenant r = Some k) (rules_tbl d)) + length (filter (\<lambda>l. l_tenant l = k) (limits_tbl d))"
    by auto
  then have "revision d < revision (delete_tenant_row k d)" by (simp add: delete_tenant_row_def flip: of_nat_add)
  then show ?thesis
    by (intro sound_moved) (auto simp: delete_tenant_row_def refs_ok_iff kept_ref)
qed

lemma sound_delete_user: "sound_step d (delete_user_row k d)"
proof (cases "filter (\<lambda>r. pr_user r = Some k) (rules_tbl d) = [] \<and> filter (\<lambda>l. l_user l = Some k) (limits_tbl d) = []")
  case True
  then have "\<forall>j\<in>user_refs d. j \<noteq> k" by (auto simp: user_refs_def filter_empty_conv)
  then have "quiet d (delete_user_row k d)"
    using True by (auto simp: quiet_def delete_user_row_def filter_none rows_at_filter)
  then show ?thesis by (intro sound_quiet) (simp_all add: delete_user_row_def)
next
  case False
  then have "0 < length (filter (\<lambda>r. pr_user r = Some k) (rules_tbl d)) + length (filter (\<lambda>l. l_user l = Some k) (limits_tbl d))"
    by auto
  then have "revision d < revision (delete_user_row k d)" by (simp add: delete_user_row_def flip: of_nat_add)
  then show ?thesis
    by (intro sound_moved) (auto simp: delete_user_row_def refs_ok_iff kept_ref)
qed


lemma map_sum_Ok_iff: "map_sum f g r = Ok y \<longleftrightarrow> (\<exists>x. r = Ok x \<and> y = g x)"
  by (cases r) auto

lemma sound_identity:
  "insert_tenant nt now d = Ok (x, d') \<Longrightarrow> sound_step d d'"
  "insert_user nu now d = Ok (y, d') \<Longrightarrow> sound_step d d'"
  "insert_membership m now d = Ok d' \<Longrightarrow> sound_step d d'"
  "delete_membership u t d = Ok (z, d') \<Longrightarrow> sound_step d d'"
  "delete_grants_in_tenant u t d = Ok (n, d') \<Longrightarrow> sound_step d d'"
  "set_passphrase u h d = Ok d' \<Longrightarrow> sound_step d d'"
  "store_grant g now d = Ok d' \<Longrightarrow> sound_step d d'"
  "store_revoke g d = Ok d' \<Longrightarrow> sound_step d d'"
proof -
  show "insert_tenant nt now d = Ok (x, d') \<Longrightarrow> sound_step d d'"
    by (auto simp: insert_tenant_def Let_def split: if_splits intro!: sound_new_tenant)
  show "insert_user nu now d = Ok (y, d') \<Longrightarrow> sound_step d d'"
    by (auto simp: insert_user_def Let_def split: if_splits intro!: sound_new_user)
  show "insert_membership m now d = Ok d' \<Longrightarrow> sound_step d d'"
    by (auto simp: insert_membership_def upsert_membership_def rbind_Ok_iff Let_def split: if_splits intro!: sound_frame)
  show "delete_membership u t d = Ok (z, d') \<Longrightarrow> sound_step d d'"
    by (auto simp: delete_membership_def rbind_Ok_iff Let_def split: if_splits option.splits intro!: sound_frame)
  show "delete_grants_in_tenant u t d = Ok (n, d') \<Longrightarrow> sound_step d d'"
    by (auto simp: delete_grants_in_tenant_def Let_def intro!: sound_frame)
  show "set_passphrase u h d = Ok d' \<Longrightarrow> sound_step d d'"
  proof -
    have "map u_id (rows_at u_row k (map (\<lambda>r. if P r then r\<lparr>u_passphrase := h'\<rparr> else r) rows)) = map u_id (rows_at u_row k rows)"
      for k P h' and rows :: "user_row list"
      by (induction rows) (auto simp: rows_at_def)
    then show "set_passphrase u h d = Ok d' \<Longrightarrow> sound_step d d'"
      by (auto simp: set_passphrase_def quiet_def split: if_splits intro!: sound_quiet)
  qed
  show "store_grant g now d = Ok d' \<Longrightarrow> sound_step d d'"
    by (auto simp: store_grant_def insert_grant_def rbind_Ok_iff Let_def split: if_splits intro!: sound_frame)
  show "store_revoke g d = Ok d' \<Longrightarrow> sound_step d d'"
    by (auto simp: store_revoke_def rbind_Ok_iff Let_def split: if_splits intro!: sound_frame)
qed

lemma sound_run_op: "run_op now op d = Ok d' \<Longrightarrow> sound_step d d'"
proof (induction op arbitrary: d)
  case (DeleteTenant t)
  then show ?case by (auto simp: delete_tenant_def sound_delete_tenant split: option.splits)
next
  case (DeleteUser u)
  then show ?case by (auto simp: delete_user_def sound_delete_user split: option.splits)
next
  case (UserCreate nt nu st)
  then obtain t d1 u d2 m where "insert_tenant nt now d = Ok (t, d1)" "insert_user nu now d1 = Ok (u, d2)" "insert_membership m now d2 = Ok d'"
    by (auto simp: user_create_def map_sum_Ok_iff rbind_Ok_iff Let_def)
  then show ?case by (meson sound_identity(1-3) sound_trans)
next
  case (MemberAdd nu t st)
  then obtain u d1 m where "insert_user nu now d = Ok (u, d1)" "insert_membership m now d1 = Ok d'"
    by (auto simp: member_add_def map_sum_Ok_iff rbind_Ok_iff Let_def)
  then show ?case by (meson sound_identity(2,3) sound_trans)
next
  case (MemberRemove u t)
  then obtain m d1 n where "delete_membership u t d = Ok (m, d1)" "delete_grants_in_tenant (mb_user m) (mb_tenant m) d1 = Ok (n, d')"
    by (auto simp: member_remove_def map_sum_Ok_iff rbind_Ok_iff)
  then show ?case by (meson sound_identity(4,5) sound_trans)
qed (auto simp: map_sum_Ok_iff intro: sound_identity)

lemma sound_put_route: "sound_step d (put_route rule now d)"
proof -
  have ins: "rules_tbl (fold (insert_target k) ws d) = rules_tbl d \<and> limits_tbl (fold (insert_target k) ws d) = limits_tbl d
      \<and> tenants (fold (insert_target k) ws d) = tenants d \<and> users (fold (insert_target k) ws d) = users d
      \<and> plugins_tbl (fold (insert_target k) ws d) = plugins_tbl d \<and> revision d \<le> revision (fold (insert_target k) ws d)" for k ws d
    by (induction ws arbitrary: d) (simp_all, smt (verit) insert_target_fields(6))
  obtain k d1 where d1: "upsert_route rule now d = (k, d1)" by (cases "upsert_route rule now d")
  have up: "rules_tbl d1 = rules_tbl d \<and> limits_tbl d1 = limits_tbl d \<and> tenants d1 = tenants d \<and> users d1 = users d
      \<and> plugins_tbl d1 = plugins_tbl d \<and> revision d1 = revision d + 1"
    using d1 by (auto simp: upsert_route_def Let_def split: option.splits)
  have out: "put_route rule now d = fold (insert_target k) (enumerate 0 (target_weighted (r_target rule))) (drop_targets (\<lambda>t. rt_route t = k) d1)"
    by (simp add: put_route_def d1)
  note i = ins [of k "enumerate 0 (target_weighted (r_target rule))" "drop_targets (\<lambda>t. rt_route t = k) d1"]
  have "revision d < revision (put_route rule now d)"
    unfolding out using i up by simp
  then show ?thesis
    using i up unfolding out by (intro sound_moved) (simp_all add: refs_ok_iff)
qed

lemma pos_filter: "list_ex P xs \<Longrightarrow> 0 < length (filter P xs)"
  by (induction xs) auto

lemma delete_route_fields [simp]:
  "rules_tbl (delete_route_rows P d) = rules_tbl d" "limits_tbl (delete_route_rows P d) = limits_tbl d"
  "tenants (delete_route_rows P d) = tenants d" "users (delete_route_rows P d) = users d"
  "plugins_tbl (delete_route_rows P d) = plugins_tbl d"
  "revision d + int (length (filter P (routes_tbl d))) \<le> revision (delete_route_rows P d)"
  by (simp_all add: delete_route_rows_def Let_def)

lemma sound_remove_route:
  assumes "remove_route key d = Ok d'"
  shows "sound_step d d'"
proof -
  let ?P = "route_here (key_endpoint key)"
  have d': "d' = delete_route_rows ?P d" "list_ex ?P (routes_tbl d)"
    using assms by (auto simp: remove_route_def split: if_splits)
  have "revision d < revision d'"
    using delete_route_fields(6) [of d ?P] pos_filter [OF d'(2)] unfolding d'(1) by linarith
  then show ?thesis by (intro sound_moved) (simp_all add: d'(1) refs_ok_iff)
qed

lemma sound_insert_wasm: "insert_wasm c knd wasm now d = Ok (x, d') \<Longrightarrow> sound_step d d'"
  using sound_refl
  by (auto simp: insert_wasm_def Let_def rbind_Ok_iff split: if_splits option.splits intro!: sound_new_plugin)

lemma sound_owners: "sound_step d (d\<lparr>owners_tbl := os\<rparr>)"
  by (rule sound_frame) simp_all

lemma sound_insert_owner:
  assumes "insert_owner c p owner now d = Ok (x, d')"
  shows "sound_step d d'"
proof -
  have "d' = d \<or> (\<exists>os. d' = d\<lparr>owners_tbl := os\<rparr>)"
    using assms by (auto simp: insert_owner_def Let_def rbind_Ok_iff split: if_splits option.splits)
  then show ?thesis using sound_owners sound_refl by blast
qed

lemma sound_delete_owner:
  assumes "delete_owner c checksum owner d = Ok (x, d')"
  shows "sound_step d d'"
proof -
  have "\<exists>os. d' = d\<lparr>owners_tbl := os\<rparr>"
    using assms by (auto simp: delete_owner_def Let_def rbind_Ok_iff split: if_splits)
  then show ?thesis using sound_owners by blast
qed

lemma sound_delete_plugin:
  assumes "delete_plugin_row k d = Some d'"
  shows "sound_step d d'"
proof -
  have "\<forall>j\<in>plugin_refs d. j \<noteq> k" and d': "d' = d\<lparr>plugins_tbl := filter (\<lambda>r. p_row r \<noteq> k) (plugins_tbl d),
      owners_tbl := filter (\<lambda>r. ow_plugin r \<noteq> k) (owners_tbl d)\<rparr>"
    using assms by (auto simp: delete_plugin_row_def has_row_iff plugin_refs_def split: if_splits)
  then have "quiet d d'" by (auto simp: quiet_def rows_at_filter)
  then show ?thesis by (intro sound_quiet) (simp_all add: d')
qed

lemma sound_delete_unowned: "delete_unowned c p d = Ok (x, d') \<Longrightarrow> sound_step d d'"
  using sound_refl sound_delete_plugin
  by (auto simp: delete_unowned_def Let_def split: if_splits option.splits)

lemma sound_insert_rule:
  assumes "insert_rule p tk uk api knd order now d = Ok d'"
  shows "sound_step d d'"
proof -
  define r where "r = \<lparr>pr_row = next_row (map pr_row (rules_tbl d)), pr_plugin = p, pr_tenant = tk, pr_user = uk,
    pr_api = map_option api_str api, pr_kind = kind_name knd, pr_position = int (unat (order_get order)), pr_created = unix_seconds now\<rparr>"
  have d': "d' = bump 1 (d\<lparr>rules_tbl := rules_tbl d @ [r]\<rparr>)"
    and refs: "p \<in> p_row ` set (plugins_tbl d)" "null_or_row t_row tk (tenants d)" "null_or_row u_row uk (users d)"
    using assms unfolding insert_rule_def Let_def r_def by (simp_all add: has_row_iff split: if_splits)
  have "pr_plugin r = p" "pr_tenant r = tk" "pr_user r = uk" by (simp_all add: r_def)
  then show ?thesis
    using refs unfolding d' by (intro sound_moved) (auto simp: refs_ok_iff null_or_row_def has_row_iff)
qed

lemma sound_put_rule: "put_rule c nr now d = Ok (x, d') \<Longrightarrow> sound_step d d'"
  using sound_insert_rule by (auto simp: put_rule_def rbind_Ok_iff)

lemma sound_remove_rule: "remove_rule tenant knd order d = Ok d' \<Longrightarrow> sound_step d d'"
proof -
  assume "remove_rule tenant knd order d = Ok d'"
  then obtain P where P: "list_ex P (rules_tbl d)" "d' = drop_rules P d"
    by (auto simp: remove_rule_def Let_def split: if_splits)
  show "sound_step d d'"
    using pos_filter [OF P(1)] unfolding P(2)
    by (intro sound_moved) (auto simp: refs_ok_iff)
qed

lemma row_ids: "tenant_row_id_of t d = Ok k \<Longrightarrow> k \<in> t_row ` set (tenants d)"
  "user_row_id_of u d = Ok j \<Longrightarrow> j \<in> u_row ` set (users d)"
  using lookup_SomeD by (fastforce simp: tenant_row_id_of_def user_row_id_of_def ok_or_Ok_iff rbind_Ok_iff split: option.splits)+

lemma sound_put_limit: "put_limit nl now d = Ok (x, d') \<Longrightarrow> sound_step d d'"
proof -
  assume put: "put_limit nl now d = Ok (x, d')"
  then obtain tk uk where keys: "limit_keys (nl_scope nl) d = Ok (tk, uk)"
    by (auto simp: put_limit_def rbind_Ok_iff)
  then have refs: "tk \<in> t_row ` set (tenants d)" "\<And>k. uk = Some k \<Longrightarrow> k \<in> u_row ` set (users d)"
    using row_ids by (auto simp: limit_keys_def rbind_Ok_iff map_sum_Ok_iff split: option.splits)
  have same: "l_tenant (if P l then l\<lparr>l_allowance := a\<rparr> else l) = l_tenant l" "l_user (if P l then l\<lparr>l_allowance := a\<rparr> else l) = l_user l"
    for P a and l :: limit_row by simp_all
  have "revision d < revision d'" "refs_ok d \<Longrightarrow> refs_ok d'"
    using put keys refs pos_filter [of _ "limits_tbl d"]
    by (auto simp: put_limit_def rbind_Ok_iff Let_def refs_ok_iff same simp del: length_greater_0_conv split: if_splits)
  then show "sound_step d d'" by (intro sound_moved)
qed

lemma sound_remove_limit: "remove_limit scope what over d = Ok d' \<Longrightarrow> sound_step d d'"
proof -
  assume "remove_limit scope what over d = Ok d'"
  then obtain P where P: "list_ex P (limits_tbl d)" "d' = drop_limits P d"
    by (auto simp: remove_limit_def Let_def rbind_Ok_iff split: if_splits)
  show "sound_step d d'"
    using pos_filter [OF P(1)] unfolding P(2)
    by (intro sound_moved) (auto simp: refs_ok_iff)
qed

lemma store_step_sound: "store_step c d d' \<Longrightarrow> sound_step d d'"
proof (induction rule: store_step.induct)
  case (PutPlugin new now d x d')
  then show ?case
    using sound_insert_wasm sound_insert_owner sound_trans by (fastforce simp: put_plugin_def rbind_Ok_iff)
next
  case (DisownPlugin checksum owner d y d')
  then show ?case
    using sound_delete_owner sound_delete_unowned sound_trans by (fastforce simp: disown_plugin_def rbind_Ok_iff)
next
  case (RecordUsage nu now d u d')
  then show ?case by (auto simp: record_usage_def Let_def rbind_Ok_iff intro!: sound_frame)
next
  case (SweepUsage moment d n d')
  then show ?case by (auto simp: sweep_usage_def intro!: sound_frame)
qed (auto intro: sound_run_op sound_put_route sound_remove_route sound_put_rule sound_remove_rule sound_put_limit sound_remove_limit)

lemma store_steps_sound: "store_steps c d d' \<Longrightarrow> sound_step d d'"
  by (induction rule: store_steps.induct) (auto intro: sound_refl sound_trans store_step_sound)


section \<open>Routing rules read back\<close>

definition route_rows_ok :: "db \<Rightarrow> bool" where
  "route_rows_ok d = (distinct (map ro_row (routes_tbl d))
     \<and> distinct (map (\<lambda>r. (ro_protocol r, ro_host r, ro_port r, ro_path r)) (routes_tbl d)))"

lemma from_parts_columns:
  "endpoint_ok e \<Longrightarrow> from_parts (protocol_name (ep_protocol e)) (host_str (ep_host e)) (int (unat (port_get (ep_port e)))) (path_str (ep_path e)) = Ok e"
  using unsigned_less [of "port_get (ep_port e)", where 'a = nat]
  by (auto simp: from_parts_def endpoint_ok_def rbind_Ok_iff port_try_from_Ok_iff)

lemmas from_parts_uint [simp] = from_parts_columns [unfolded int_nat_eq of_nat_unat]

lemma uint_inj_iff: "uint x = uint y \<longleftrightarrow> x = y"
  by (metis word_of_int_uint)

lemma protocol_name_inj [simp]: "protocol_name p = protocol_name q \<longleftrightarrow> p = q"
  by (metis protocol_from_name sum.inject(2))

lemma route_here_unique: "route_here e r \<Longrightarrow> route_here e' r \<Longrightarrow> e = e'"
  by (auto simp: route_here_def uint_inj_iff intro!: endpoint.equality host.expand abs_path.expand port.expand)

definition target_row_of :: "int \<Rightarrow> int \<Rightarrow> nat \<times> weighted \<Rightarrow> target_row" where
  "target_row_of row k = (\<lambda>(position, w). let e = w_endpoint w in
     \<lparr>rt_row = row, rt_route = k, rt_position = int position,
      rt_protocol = protocol_name (ep_protocol e), rt_host = host_str (ep_host e),
      rt_port = int (unat (port_get (ep_port e))), rt_path = path_str (ep_path e),
      rt_weight = int (unat (weight_get (w_weight w)))\<rparr>)"

lemma target_of_row: "endpoint_ok (w_endpoint w) \<Longrightarrow> target_of (target_row_of row k (i, w)) = Ok w"
  using unsigned_less [of "weight_get (w_weight w)", where 'a = int]
  by (cases w) (simp add: target_of_def target_row_of_def Let_def weighing_def)

lemma written_targets:
  "\<exists>rows. targets_tbl (fold (insert_target k) iws d) = targets_tbl d @ map2 (\<lambda>row p. target_row_of row k p) rows iws
     \<and> length rows = length iws"
proof (induction iws arbitrary: d)
  case (Cons p iws)
  obtain rows where "targets_tbl (fold (insert_target k) iws (insert_target k p d)) =
      targets_tbl (insert_target k p d) @ map2 (\<lambda>row p. target_row_of row k p) rows iws" "length rows = length iws"
    using Cons by blast
  moreover have "targets_tbl (insert_target k p d) = targets_tbl d @ [target_row_of (next_row (map rt_row (targets_tbl d))) k p]"
    by (cases p) (simp add: insert_target_def target_row_of_def Let_def)
  ultimately show ?case
    by (intro exI [of _ "next_row (map rt_row (targets_tbl d)) # rows"]) simp
qed simp

lemma sort_key_sorted: "sorted (map f xs) \<Longrightarrow> sort_key f xs = xs"
  by (induction xs) (auto simp: insort_is_Cons)

text \<open>The rows of one key, when its rule is the row \<open>r\<close>.\<close>

lemma rows_of_key:
  assumes "route_rows_ok d" "r \<in> set (routes_tbl d)" "route_here e r"
  shows "filter (\<lambda>(r, t). route_here e r) (routes_join d) = map (\<lambda>t. (r, t)) (filter (\<lambda>t. rt_route t = ro_row r) (targets_tbl d))"
proof -
  have same: "x = r" if "x \<in> set (routes_tbl d)" "route_here e x" for x
  proof (rule inj_onD [of "\<lambda>r. (ro_protocol r, ro_host r, ro_port r, ro_path r)" "set (routes_tbl d)"])
    show "inj_on (\<lambda>r. (ro_protocol r, ro_host r, ro_port r, ro_path r)) (set (routes_tbl d))"
      using assms(1) by (simp add: route_rows_ok_def distinct_map)
  qed (use that assms(2,3) in \<open>simp_all add: route_here_def\<close>)
  have none: "filter (\<lambda>(r, t). route_here e r) [(x, t). x \<leftarrow> rs, t \<leftarrow> targets_tbl d, rt_route t = ro_row x] = []"
    if "\<forall>x\<in>set rs. \<not> route_here e x" for rs
    using that by (auto simp: filter_empty_conv)
  obtain xs ys where split: "routes_tbl d = xs @ r # ys" using split_list [OF assms(2)] by blast
  have r: "r \<notin> set xs" "r \<notin> set ys" using assms(1) by (auto simp: route_rows_ok_def split)
  have member: "x \<in> set xs \<or> x \<in> set ys \<Longrightarrow> x \<in> set (routes_tbl d)" for x by (auto simp: split)
  have out: "\<forall>x\<in>set xs. \<not> route_here e x" "\<forall>x\<in>set ys. \<not> route_here e x" using r same member by blast+
  have one: "filter (\<lambda>(r, t). route_here e r) [(x, t). x \<leftarrow> [r], t \<leftarrow> ts, rt_route t = ro_row x]
      = map (\<lambda>t. (r, t)) (filter (\<lambda>t. rt_route t = ro_row r) ts)" for ts
    using assms(3) by (induction ts) auto
  show ?thesis
    using none [OF out(1)] none [OF out(2)] one [of "targets_tbl d"] by (simp add: routes_join_def split)
qed


lemma no_rows_of_key: "\<forall>r\<in>set (routes_tbl d). \<not> route_here e r \<Longrightarrow> filter (\<lambda>(r, t). route_here e r) (routes_join d) = []"
  by (auto simp: routes_join_def filter_empty_conv)

lemma upsert_route_row:
  assumes ok: "route_rows_ok d" and up: "upsert_route rule now d = (k, d1)"
  defines "e \<equiv> key_endpoint (r_key rule)"
  shows "targets_tbl d1 = targets_tbl d" "route_rows_ok d1"
    and "\<exists>r\<in>set (routes_tbl d1). ro_row r = k \<and> route_here e r \<and> ro_api r = api_str (r_api rule) \<and> ro_strategy r = strategy_name (r_strategy rule)"
    and "\<And>r :: route_row. ro_row r \<noteq> k \<Longrightarrow> r \<in> set (routes_tbl d1) \<longleftrightarrow> r \<in> set (routes_tbl d)"
    and "\<And>r. r \<in> set (routes_tbl d) \<Longrightarrow> ro_row r = k \<Longrightarrow> route_here e r"
proof -
  show "targets_tbl d1 = targets_tbl d"
    using up by (auto simp: upsert_route_def Let_def split: option.splits)
  have "route_rows_ok d1 \<and> (\<exists>r\<in>set (routes_tbl d1). ro_row r = k \<and> route_here e r \<and> ro_api r = api_str (r_api rule) \<and> ro_strategy r = strategy_name (r_strategy rule))
      \<and> (\<forall>r. ro_row r \<noteq> k \<longrightarrow> (r \<in> set (routes_tbl d1) \<longleftrightarrow> r \<in> set (routes_tbl d)))
      \<and> (\<forall>r\<in>set (routes_tbl d). ro_row r = k \<longrightarrow> route_here e r)"
  proof (cases "List.find (route_here e) (routes_tbl d)")
    case None
    define r where "r = \<lparr>ro_row = k, ro_api = api_str (r_api rule), ro_protocol = protocol_name (ep_protocol e),
      ro_host = host_str (ep_host e), ro_port = int (unat (port_get (ep_port e))), ro_path = path_str (ep_path e),
      ro_strategy = strategy_name (r_strategy rule), ro_created = unix_seconds now\<rparr>"
    have d1: "routes_tbl d1 = routes_tbl d @ [r]" and k: "k = next_row (map ro_row (routes_tbl d))"
      using up None by (auto simp: upsert_route_def Let_def e_def r_def)
    have fresh: "k \<notin> ro_row ` set (routes_tbl d)" using next_row_fresh(2) [of "map ro_row (routes_tbl d)"] by (simp add: k)
    have "\<forall>x\<in>set (routes_tbl d). \<not> route_here e x" using None by (auto simp: find_None_iff)
    then have "\<forall>x\<in>set (routes_tbl d). (ro_protocol x, ro_host x, ro_port x, ro_path x) \<noteq> (ro_protocol r, ro_host r, ro_port r, ro_path r)"
      by (simp add: route_here_def r_def)
    then have "route_rows_ok d1"
      using ok fresh unfolding route_rows_ok_def d1 by (simp add: r_def image_iff) metis
    moreover have "route_here e r" by (simp add: route_here_def r_def)
    ultimately show ?thesis using fresh by (auto simp: d1 r_def)
  next
    case (Some old)
    then have old: "old \<in> set (routes_tbl d)" "route_here e old" by (auto simp: find_Some_iff)
    define f :: "route_row \<Rightarrow> route_row" where "f = (\<lambda>r. if ro_row r = ro_row old then r\<lparr>ro_api := api_str (r_api rule), ro_strategy := strategy_name (r_strategy rule)\<rparr> else r)"
    have d1: "routes_tbl d1 = map f (routes_tbl d)" and k: "k = ro_row old"
      using up Some by (auto simp: upsert_route_def Let_def e_def f_def)
    have f: "ro_row (f r) = ro_row r" "ro_protocol (f r) = ro_protocol r" "ro_host (f r) = ro_host r" "ro_port (f r) = ro_port r"
      "ro_path (f r) = ro_path r" "ro_row r \<noteq> k \<Longrightarrow> f r = r" for r by (simp_all add: f_def k)
    have "route_rows_ok d1" using ok by (simp add: route_rows_ok_def d1 f comp_def)
    moreover have "f old \<in> set (routes_tbl d1)" "route_here e (f old)" using old f by (simp_all add: d1 route_here_def)
    moreover have "r = old" if "r \<in> set (routes_tbl d)" "ro_row r = k" for r
      using ok that old(1) by (auto simp: route_rows_ok_def distinct_map k dest: inj_onD)
    moreover have "r \<in> set (routes_tbl d1) \<longleftrightarrow> r \<in> set (routes_tbl d)" if "ro_row r \<noteq> k" for r
      using f that unfolding d1 set_map by (metis imageE image_eqI)
    ultimately show ?thesis
      using old(2) by (auto simp: f_def k intro!: bexI [of _ "f old"])
  qed
  then show "route_rows_ok d1" "\<exists>r\<in>set (routes_tbl d1). ro_row r = k \<and> route_here e r \<and> ro_api r = api_str (r_api rule) \<and> ro_strategy r = strategy_name (r_strategy rule)"
    "\<And>r. ro_row r \<noteq> k \<Longrightarrow> r \<in> set (routes_tbl d1) \<longleftrightarrow> r \<in> set (routes_tbl d)"
    "\<And>r. r \<in> set (routes_tbl d) \<Longrightarrow> ro_row r = k \<Longrightarrow> route_here e r" by blast+
qed


lemma put_route_tables:
  assumes "route_rows_ok d" "upsert_route rule now d = (k, d1)"
  obtains rows where "routes_tbl (put_route rule now d) = routes_tbl d1" "length rows = length (target_weighted (r_target rule))"
    "targets_tbl (put_route rule now d) = filter (\<lambda>t. rt_route t \<noteq> k) (targets_tbl d)
       @ map2 (\<lambda>row p. target_row_of row k p) rows (enumerate 0 (target_weighted (r_target rule)))"
proof -
  define ws where "ws = enumerate 0 (target_weighted (r_target rule))"
  define d2 where "d2 = drop_targets (\<lambda>t. rt_route t = k) d1"
  have out: "put_route rule now d = fold (insert_target k) ws d2"
    by (simp add: put_route_def assms(2) ws_def d2_def)
  have "routes_tbl (fold (insert_target k) ws d2) = routes_tbl d2" for ws d2
    by (induction ws arbitrary: d2) simp_all
  moreover obtain rows where "targets_tbl (fold (insert_target k) ws d2) = targets_tbl d2 @ map2 (\<lambda>row p. target_row_of row k p) rows ws"
    "length rows = length ws"
    using written_targets by blast
  moreover have "targets_tbl d2 = filter (\<lambda>t. rt_route t \<noteq> k) (targets_tbl d)" "routes_tbl d2 = routes_tbl d1"
    using upsert_route_row(1) [OF assms] by (simp_all add: d2_def)
  ultimately show thesis using that [of rows] by (simp add: out ws_def)
qed

lemma put_route_own:
  assumes ok: "route_rows_ok d" and rule: "rule_ok rule"
  shows "store_route (r_key rule) (put_route rule now d) = Ok (Some rule)"
proof -
  let ?d' = "put_route rule now d" and ?ws = "target_weighted (r_target rule)" and ?e = "key_endpoint (r_key rule)"
  obtain k d1 where up: "upsert_route rule now d = (k, d1)" by (cases "upsert_route rule now d")
  note row = upsert_route_row [OF ok up]
  obtain rows where t: "routes_tbl ?d' = routes_tbl d1" "length rows = length ?ws"
    "targets_tbl ?d' = filter (\<lambda>t. rt_route t \<noteq> k) (targets_tbl d) @ map2 (\<lambda>row p. target_row_of row k p) rows (enumerate 0 ?ws)"
    using put_route_tables [OF ok up] by blast
  obtain r where r: "r \<in> set (routes_tbl ?d')" "ro_row r = k" "route_here ?e r" "ro_api r = api_str (r_api rule)" "ro_strategy r = strategy_name (r_strategy rule)"
    using row(3) t(1) by auto
  define new where "new = map2 (\<lambda>row p. target_row_of row k p) rows (enumerate 0 ?ws)"
  have nth: "i < length ?ws \<Longrightarrow> new ! i = target_row_of (rows ! i) k (i, ?ws ! i)" for i
    using t(2) by (simp add: new_def nth_enumerate_eq)
  have len: "length new = length ?ws" using t(2) by (simp add: new_def)
  have mine: "filter (\<lambda>t. rt_route t = k) (targets_tbl ?d') = new"
  proof -
    have "\<forall>t\<in>set new. rt_route t = k"
      using nth len by (auto simp: in_set_conv_nth target_row_of_def Let_def)
    then show ?thesis using t(3) by (simp add: new_def [symmetric])
  qed
  have "map rt_position new = map int [0..<length ?ws]"
    using nth len by (intro nth_equalityI) (simp_all add: target_row_of_def Let_def)
  then have sorted: "sorted (map rt_position new)" by (simp add: sorted_map sorted_wrt_map sorted_wrt_upt)
  have "route_rows_ok ?d'" using row(2) by (simp add: route_rows_ok_def t(1))
  from rows_of_key [OF this r(1,3)]
  have rows: "sort_key (\<lambda>(r, t). rt_position t) (filter (\<lambda>(r, t). route_here ?e r) (routes_join ?d')) = map (Pair r) new"
    using sorted mine r(2) by (simp add: sort_key_sorted comp_def)
  have targets: "map target_of new = map Ok ?ws"
    using nth len rule target_of_row by (intro nth_equalityI) (auto simp: rule_ok_def target_ok_def)
  obtain a more' where new: "new = a # more'" using len rule by (cases new) (auto simp: rule_ok_def target_ok_def)
  have "map (\<lambda>(r, t). target_of t) ((r, a) # map (Pair r) more') = map Ok ?ws"
    using targets new by (simp add: comp_def)
  moreover have "collect_results (map Ok ws) = Ok ws" for ws :: "weighted list"
    by (induction ws) simp_all
  ultimately have coll: "collect_results (map (\<lambda>(r, t). target_of t) ((r, a) # map (Pair r) more')) = Ok ?ws" by simp
  have rows': "sort_key (\<lambda>(r, t). rt_position t) (filter (\<lambda>(r, t). route_here ?e r) (routes_join ?d')) = (r, a) # map (Pair r) more'"
    using rows new by simp
  have full: "?ws \<noteq> []" and api: "api_id_new (ro_api r) = Ok (r_api rule)" using rule r(4) by (simp_all add: rule_ok_def target_ok_def)
  have reads: "value_of_type (from_weighted ?ws) = Ok (r_target rule)" "value_of_type (api_id_new (ro_api r)) = Ok (r_api rule)"
    "strategy_of r = Ok (r_strategy rule)"
    by (simp_all add: api full from_weighted_def strategy_of_def r(5))
  show ?thesis
    unfolding store_route_def rows' list.case prod.case coll reads rbind.simps by simp
qed

lemma put_route_other:
  assumes ok: "route_rows_ok d" and key: "key \<noteq> r_key rule"
  shows "store_route key (put_route rule now d) = store_route key d"
proof -
  let ?d' = "put_route rule now d" and ?e = "key_endpoint key"
  obtain k d1 where up: "upsert_route rule now d = (k, d1)" by (cases "upsert_route rule now d")
  note row = upsert_route_row [OF ok up]
  obtain rows where t: "routes_tbl ?d' = routes_tbl d1"
    "targets_tbl ?d' = filter (\<lambda>t. rt_route t \<noteq> k) (targets_tbl d)
       @ map2 (\<lambda>row p. target_row_of row k p) rows (enumerate 0 (target_weighted (r_target rule)))"
    using put_route_tables [OF ok up] by blast
  have ok': "route_rows_ok ?d'" using row(2) by (simp add: route_rows_ok_def t(1))
  have ne: "?e \<noteq> key_endpoint (r_key rule)" using key by (auto intro: route_key.expand)
  have new: "ro_row r \<noteq> k" if "route_here ?e r" "r \<in> set (routes_tbl d) \<or> r \<in> set (routes_tbl ?d')" for r
  proof
    assume k: "ro_row r = k"
    have "route_here (key_endpoint (r_key rule)) r"
    proof (cases "r \<in> set (routes_tbl d)")
      case False
      then show ?thesis
        using row(2,3) k that(2) t(1) by (auto simp: route_rows_ok_def distinct_map dest: inj_onD)
    qed (use row(5) k in blast)
    then show False using that(1) ne route_here_unique by blast
  qed
  have same: "filter (\<lambda>t. rt_route t = j) (targets_tbl ?d') = filter (\<lambda>t. rt_route t = j) (targets_tbl d)" if "j \<noteq> k" for j
  proof -
    have "filter (\<lambda>t. rt_route t = j) (map2 (\<lambda>row p. target_row_of row k p) rows ps) = []" for ps
      using that by (auto simp: filter_empty_conv target_row_of_def Let_def)
    moreover have "filter (\<lambda>t. rt_route t \<noteq> k \<and> rt_route t = j) ts = filter (\<lambda>t. rt_route t = j) ts" for ts :: "target_row list"
      using that by (intro filter_cong) auto
    ultimately show ?thesis by (simp add: t(2))
  qed
  have "filter (\<lambda>(r, t). route_here ?e r) (routes_join ?d') = filter (\<lambda>(r, t). route_here ?e r) (routes_join d)"
  proof (cases "\<exists>r\<in>set (routes_tbl d). route_here ?e r")
    case True
    then obtain r where r: "r \<in> set (routes_tbl d)" "route_here ?e r" by blast
    then have "r \<in> set (routes_tbl ?d')" "ro_row r \<noteq> k" using new [OF r(2)] row(4) t(1) by auto
    then show ?thesis using rows_of_key [OF ok r] rows_of_key [OF ok' _ r(2)] same by simp
  next
    case False
    then have "\<forall>r\<in>set (routes_tbl ?d'). \<not> route_here ?e r" using new row(4) t(1) by metis
    then show ?thesis using False no_rows_of_key by metis
  qed
  then show ?thesis by (simp only: store_route_def)
qed


lemma route_rows_frame: "routes_tbl d' = routes_tbl d \<Longrightarrow> route_rows_ok d \<Longrightarrow> route_rows_ok d'"
  by (simp add: route_rows_ok_def)

lemma put_route_keeps: "route_rows_ok d \<Longrightarrow> route_rows_ok (put_route rule now d)"
  using put_route_tables upsert_route_row(2) route_rows_frame by (metis surj_pair)

lemma remove_route_keeps: "route_rows_ok d \<Longrightarrow> remove_route key d = Ok d' \<Longrightarrow> route_rows_ok d'"
  by (auto simp: remove_route_def delete_route_rows_def Let_def route_rows_ok_def distinct_map_filter split: if_splits)

definition framed :: "db \<Rightarrow> db \<Rightarrow> bool" where
  "framed d d' = (routes_tbl d' = routes_tbl d \<and> usage_tbl d' = usage_tbl d)"

lemma usage_unmoved [simp]:
  "usage_tbl (drop_rules P d) = usage_tbl d" "usage_tbl (drop_limits Q d) = usage_tbl d"
  "usage_tbl (drop_targets R d) = usage_tbl d" "usage_tbl (insert_target k p d) = usage_tbl d"
  by (cases p; simp add: drop_rules_def drop_limits_def drop_targets_def insert_target_def Let_def)+

lemma framed_trans: "framed d d' \<Longrightarrow> framed d' d'' \<Longrightarrow> framed d d''"
  by (simp add: framed_def)

lemma identity_framed:
  "insert_tenant nt now d = Ok (x, d') \<Longrightarrow> framed d d'"
  "insert_user nu now d = Ok (y, d') \<Longrightarrow> framed d d'"
  "insert_membership m now d = Ok d' \<Longrightarrow> framed d d'"
  "delete_membership u t d = Ok (z, d') \<Longrightarrow> framed d d'"
  "delete_grants_in_tenant u t d = Ok (n, d') \<Longrightarrow> framed d d'"
  "set_passphrase u h d = Ok d' \<Longrightarrow> framed d d'"
  "store_grant g now d = Ok d' \<Longrightarrow> framed d d'"
  "store_revoke g d = Ok d' \<Longrightarrow> framed d d'"
  "delete_tenant t d = Ok d' \<Longrightarrow> framed d d'"
  "delete_user u d = Ok d' \<Longrightarrow> framed d d'"
  by (auto simp: framed_def insert_tenant_def insert_user_def insert_membership_def upsert_membership_def delete_membership_def
      delete_grants_in_tenant_def set_passphrase_def store_grant_def insert_grant_def store_revoke_def delete_tenant_def
      delete_user_def delete_tenant_row_def delete_user_row_def Let_def rbind_Ok_iff split: if_splits option.splits)

lemma run_op_framed: "run_op now op d = Ok d' \<Longrightarrow> framed d d'"
  by (cases op) (auto simp: map_sum_Ok_iff user_create_def member_add_def member_remove_def Let_def rbind_Ok_iff dest!: identity_framed intro: framed_trans)

lemma plugin_framed:
  "insert_wasm c knd wasm now d = Ok (x, d') \<Longrightarrow> framed d d'"
  "insert_owner c p owner now d = Ok (y, d') \<Longrightarrow> framed d d'"
  "delete_owner c checksum owner d = Ok (z, d') \<Longrightarrow> framed d d'"
  "delete_unowned c p d = Ok (b, d') \<Longrightarrow> framed d d'"
  "insert_rule k tk uk api kd order now d = Ok d' \<Longrightarrow> framed d d'"
  by (auto simp: framed_def insert_wasm_def insert_owner_def delete_owner_def delete_unowned_def delete_plugin_row_def insert_rule_def
      Let_def rbind_Ok_iff split: if_splits option.splits)

lemma route_framed: "usage_tbl (put_route rule now d) = usage_tbl d" "remove_route key d = Ok d' \<Longrightarrow> usage_tbl d' = usage_tbl d"
proof -
  have "usage_tbl (fold (insert_target k) ws d2) = usage_tbl d2" for k ws d2
    by (induction ws arbitrary: d2) simp_all
  then show "usage_tbl (put_route rule now d) = usage_tbl d"
    by (auto simp: put_route_def upsert_route_def Let_def split: prod.splits option.splits)
qed (auto simp: remove_route_def delete_route_rows_def Let_def split: if_splits)

definition tables_ok :: "db \<Rightarrow> bool" where
  "tables_ok d = (route_rows_ok d \<and> (\<forall>r\<in>set (usage_tbl d). 0 \<le> us_input r \<and> 0 \<le> us_output r))"

lemma framed_tables: "framed d d' \<Longrightarrow> tables_ok d \<Longrightarrow> tables_ok d'"
  by (simp add: framed_def tables_ok_def route_rows_ok_def)

lemma store_step_tables: "store_step c d d' \<Longrightarrow> tables_ok d \<Longrightarrow> tables_ok d'"
proof (induction rule: store_step.induct)
  case (PutPlugin new now d x d')
  then have "framed d d'" by (auto simp: put_plugin_def rbind_Ok_iff dest!: plugin_framed intro: framed_trans)
  then show ?case using PutPlugin(2) framed_tables by blast
next
  case (DisownPlugin checksum owner d y d')
  then have "framed d d'" by (auto simp: disown_plugin_def rbind_Ok_iff dest!: plugin_framed intro: framed_trans)
  then show ?case using DisownPlugin(2) framed_tables by blast
next
  case (PutRule nr now d z d')
  then have "framed d d'" by (auto simp: put_rule_def rbind_Ok_iff dest!: plugin_framed)
  then show ?case using PutRule(2) framed_tables by blast
next
  case (RemoveRule tenant knd order d d')
  then have "framed d d'" by (auto simp: framed_def remove_rule_def Let_def split: if_splits)
  then show ?case using RemoveRule(2) framed_tables by blast
next
  case (PutLimit nl now d l d')
  then have "framed d d'" by (auto simp: framed_def put_limit_def rbind_Ok_iff Let_def split: if_splits)
  then show ?case using PutLimit(2) framed_tables by blast
next
  case (RemoveLimit scope what over d d')
  then have "framed d d'" by (auto simp: framed_def remove_limit_def rbind_Ok_iff Let_def split: if_splits)
  then show ?case using RemoveLimit(2) framed_tables by blast
next
  case (RecordUsage nu now d u d')
  then show ?case by (auto simp: tables_ok_def route_rows_ok_def record_usage_def Let_def rbind_Ok_iff)
next
  case (SweepUsage moment d n d')
  then show ?case by (auto simp: tables_ok_def route_rows_ok_def sweep_usage_def)
next
  case (Identity now op d d')
  then show ?case using run_op_framed framed_tables by blast
next
  case (PutRoute d rule now)
  then show ?case by (simp add: tables_ok_def put_route_keeps route_framed)
next
  case (RemoveRoute key d d')
  then show ?case using remove_route_keeps [OF _ RemoveRoute(1)] route_framed(2) [OF RemoveRoute(1)] by (simp add: tables_ok_def)
qed

lemma store_steps_tables: "store_steps c d d' \<Longrightarrow> tables_ok d \<Longrightarrow> tables_ok d'"
  by (induction rule: store_steps.induct) (auto intro: store_step_tables)

lemma fresh_rules: "refs_ok fresh_db" "tables_ok fresh_db"
  by (simp_all add: refs_ok_iff tables_ok_def route_rows_ok_def fresh_db_def)

section \<open>Properties\<close>

text \<open>
  C29: the revision never goes back, and two readings of the rules that carry the same revision are
  the same routing rules, plugin rules and limits, whatever operations of the store, the deletion of
  tenants and users with its cascades included, were run in between.
\<close>

theorem same_revision_same_rules:
  assumes "store_steps c fresh_db d" "store_steps c d d'" "revision d' < 2 ^ 63"
  shows "revision d \<le> revision d'
    \<and> (store_rule_set c d = Ok a \<longrightarrow> store_rule_set c d' = Ok b \<longrightarrow> rs_revision a = rs_revision b \<longrightarrow> a = b)"
proof -
  have d: "refs_ok d" "0 \<le> revision d"
    using store_steps_sound [OF assms(1)] fresh_rules(1) by (auto simp: sound_step_def advances_def fresh_db_def)
  then have up: "revision d \<le> revision d'" "revision d' = revision d \<Longrightarrow> quiet d d'"
    using store_steps_sound [OF assms(2)] by (auto simp: sound_step_def advances_def)
  have "a = b" if "store_rule_set c d = Ok a" "store_rule_set c d' = Ok b" "rs_revision a = rs_revision b"
  proof -
    have "(word_of_int (revision d) :: u64) = word_of_int (revision d')"
      using that d(2) up(1) by (auto simp: store_rule_set_def read_revision_def rbind_Ok_iff)
    then have "uint (word_of_int (revision d) :: u64) = uint (word_of_int (revision d') :: u64)" by simp
    then have "revision d' = revision d"
      using d(2) up(1) assms(3) by (simp add: unsigned_of_int take_bit_int_eq_self)
    then have "contents c d' = contents c d" using up(2) quiet_contents by blast
    then show ?thesis
      using that by (cases a; cases b) (auto simp: store_rule_set_def contents_def rbind_Ok_iff)
  qed
  then show ?thesis using up(1) by blast
qed

theorem same_revision_same_rules_witness:
  "\<exists>d a b. run_op (Timestamp 5) (CreateTenant (sample_tenant ''a'')) fresh_db = Ok d
     \<and> store_rule_set sample_crates fresh_db = Ok a \<and> store_rule_set sample_crates d = Ok b
     \<and> rs_revision a = rs_revision b \<and> a = b \<and> revision fresh_db \<le> revision d"
proof -
  obtain d where d: "run_op (Timestamp 5) (CreateTenant (sample_tenant ''a'')) fresh_db = Ok d"
    by (simp add: insert_tenant_def fresh_db_def has_row_def sample_tenant_def Let_def)
  then have tables: "revision d = 0" "routes_tbl d = []" "rules_tbl d = []" "limits_tbl d = []"
    by (auto simp: insert_tenant_def fresh_db_def has_row_def Let_def split: if_splits)
  then have sets: "store_rule_set sample_crates x = Ok \<lparr>rs_revision = RuleRevision 0, rs_routes = [], rs_rules = [], rs_limits = []\<rparr>" if "x \<in> {fresh_db, d}" for x
    using that by (auto simp: store_rule_set_def read_revision_def read_routes_def routes_join_def read_rules_def rules_join_def
        read_limits_def limits_join_def fresh_db_def)
  have "store_steps sample_crates fresh_db d" using store_steps.Next [OF store_steps.Start store_step.Identity [OF d]] .
  from same_revision_same_rules [OF store_steps.Start this] show ?thesis
    using d tables(1) sets by (metis insertCI less_numeral_extra(1) power_0 zero_less_numeral zero_less_power)
qed

text \<open>
  C30: a routing rule that was recorded is read back under its key exactly as it was given, its
  endpoints in order and with their shares, whatever the key routed to before; and no other key
  routes anywhere else than it did.
\<close>

theorem put_route_reads_back:
  assumes "store_steps c fresh_db d" "rule_ok rule" "key \<noteq> r_key rule"
  shows "store_route (r_key rule) (put_route rule now d) = Ok (Some rule)
    \<and> store_route key (put_route rule now d) = store_route key d"
proof -
  have "route_rows_ok d" using store_steps_tables [OF assms(1) fresh_rules(2)] by (simp add: tables_ok_def)
  then show ?thesis using put_route_own [OF _ assms(2)] put_route_other [OF _ assms(3)] by blast
qed

definition kept_route :: "string \<Rightarrow> route_rule" where
  "kept_route path =
     \<lparr>r_api = ApiId ''chat'', r_key = RouteKey ((sample_endpoint 80)\<lparr>ep_path := AbsPath path\<rparr>),
      r_target = RouteTarget [weighted_new (sample_endpoint 1), weighted_new (sample_endpoint 2)], r_strategy = RoundRobin\<rparr>"

theorem put_route_reads_back_witness:
  "store_route (r_key (kept_route ''/v1'')) (put_route (kept_route ''/v1'') (Timestamp 5) fresh_db) = Ok (Some (kept_route ''/v1''))
   \<and> store_route (r_key (kept_route ''/v2'')) (put_route (kept_route ''/v1'') (Timestamp 5) fresh_db)
     = store_route (r_key (kept_route ''/v2'')) fresh_db"
proof -
  have "(sample_endpoint 80)\<lparr>ep_path := AbsPath ''/v1''\<rparr> = sample_endpoint 80" by (simp add: sample_endpoint_def)
  then have "rule_ok (kept_route ''/v1'')"
    by (simp add: rule_ok_def kept_route_def target_ok_def sample_endpoint_ok weighted_new_def id_ok_def id_char_def code_def
        ascii_alphanumeric_def ascii_lower_def ascii_upper_def ascii_digit_def)
  moreover have "r_key (kept_route ''/v2'') \<noteq> r_key (kept_route ''/v1'')" by (simp add: kept_route_def sample_endpoint_def)
  ultimately show ?thesis using put_route_reads_back [OF store_steps.Start] by blast
qed

text \<open>
  C31: recording a request adds its tokens, or one request, to exactly the totals whose filter
  and time range cover it, and sweeping old usage away changes no total over a range that starts
  no earlier than the sweep.
\<close>

theorem spent_counts_requests:
  assumes "store_steps c fresh_db d" "record_usage c new now d = Ok (u, d')"
    "spent f what since d = Ok n" "spent f what since d' = Ok n'" "unix_seconds moment \<le> unix_seconds since"
  shows "unat n' = unat n + (if unix_seconds since \<le> unix_seconds now \<and> is_none_or (uf_tenant f) (\<lambda>t. t = nu_tenant new)
        \<and> is_none_or (uf_user f) (\<lambda>w. w = nu_user new) \<and> is_none_or (uf_api f) (\<lambda>a. a = nu_api new)
      then (case what of Tokens \<Rightarrow> unat (tokens_total (nu_tokens new)) | Requests \<Rightarrow> 1) else 0)
    \<and> spent f what since (snd (sweep_usage moment d')) = Ok n'"
proof -
  have rows: "\<forall>r\<in>set (usage_tbl d). 0 \<le> us_input r \<and> 0 \<le> us_output r"
    using store_steps_tables [OF assms(1) fresh_rules(2)] by (simp add: tables_ok_def)
  obtain row where row: "usage_tbl d' = usage_tbl d @ [row]" "us_at row = unix_seconds now"
    "us_tenant row = tenant_str (nu_tenant new)" "us_user row = user_str (nu_user new)" "us_api row = api_str (nu_api new)"
    "us_input row = uint (token_get (tok_input (nu_tokens new)))" "us_output row = uint (token_get (tok_output (nu_tokens new)))"
    using assms(2) by (auto simp: record_usage_def Let_def rbind_Ok_iff)
  have cover: "usage_matches f row \<longleftrightarrow> is_none_or (uf_tenant f) (\<lambda>t. t = nu_tenant new)
      \<and> is_none_or (uf_user f) (\<lambda>w. w = nu_user new) \<and> is_none_or (uf_api f) (\<lambda>a. a = nu_api new)"
    by (auto simp: usage_matches_def row is_none_or_def tenant_id.expand user_id.expand api_id.expand split: option.splits)
  define hit :: "usage_row \<Rightarrow> bool" where "hit = (\<lambda>r. unix_seconds since \<le> us_at r \<and> usage_matches f r)"
  define cost :: "usage_row \<Rightarrow> int" where "cost = (\<lambda>r. case what of Tokens \<Rightarrow> us_input r + us_output r | Requests \<Rightarrow> 1)"
  have spent: "spent f what since x = (let t = sum_list (map cost (filter hit (usage_tbl x))) in
      if 2 ^ 63 \<le> t then Err Backend else Ok (if 0 \<le> t then of_int t else 0))" for x
    by (cases what) (simp_all add: spent_def Let_def hit_def cost_def sum_list_triv)
  have pos: "0 \<le> sum_list (map cost (filter hit (usage_tbl d)))" "0 \<le> cost row"
    using rows by (auto intro!: sum_list_nonneg simp: cost_def row split: counted_what.splits)
  have reading: "spent f what since x = Ok k \<Longrightarrow> 0 \<le> sum_list (map cost (filter hit (usage_tbl x)))
      \<Longrightarrow> int (unat k) = sum_list (map cost (filter hit (usage_tbl x)))" for x k
    by (auto simp: spent Let_def unsigned_of_int take_bit_int_eq_self split: if_splits)
  define amount where "amount = (case what of Tokens \<Rightarrow> unat (tokens_total (nu_tokens new)) | Requests \<Rightarrow> 1)"
  have "cost row = int amount"
    by (simp add: cost_def amount_def row unat_tokens_total split: counted_what.splits)
  then have "int (unat n') = int (unat n + (if hit row then amount else 0))"
    using reading [OF assms(3)] reading [OF assms(4)] pos by (auto simp: row(1))
  then have "unat n' = unat n + (if hit row then amount else 0)" by (simp only: of_nat_eq_iff)
  moreover have "spent f what since (snd (sweep_usage moment d')) = spent f what since d'"
  proof -
    have "filter hit (usage_tbl (snd (sweep_usage moment d'))) = filter hit (usage_tbl d')"
      using assms(5) by (auto simp: sweep_usage_def hit_def intro!: filter_cong)
    then show ?thesis by (simp only: spent)
  qed
  ultimately show ?thesis using assms(4) by (simp add: hit_def cover row(2) amount_def)
qed

definition sample_usage :: new_usage where
  "sample_usage = \<lparr>nu_trace = TraceId (replicate 16 1), nu_turn = None, nu_tenant = TenantId ''a'', nu_user = UserId ''m'',
     nu_api = ApiId ''chat'', nu_model = None, nu_tokens = \<lparr>tok_input = TokenCount 3, tok_output = TokenCount 4\<rparr>,
     nu_served = Upstream, nu_served_by = None, nu_latency = Latency 9\<rparr>"

theorem spent_counts_requests_witness:
  "\<exists>u d. record_usage sample_crates sample_usage (Timestamp 5) fresh_db = Ok (u, d)
     \<and> spent \<lparr>uf_tenant = Some (TenantId ''a''), uf_user = None, uf_api = None\<rparr> Tokens (Timestamp 5) (snd (sweep_usage (Timestamp 4) d)) = Ok 7"
proof -
  let ?f = "\<lparr>uf_tenant = Some (TenantId ''a''), uf_user = None, uf_api = None\<rparr>"
  obtain u d where d: "record_usage sample_crates sample_usage (Timestamp 5) fresh_db = Ok (u, d)"
    by (simp add: record_usage_def Let_def sample_crates_def sample_calendar_def from_unix_seconds_def)
  have zero: "spent ?f Tokens (Timestamp 5) fresh_db = Ok 0" by (simp add: spent_def fresh_db_def)
  have seven: "spent ?f Tokens (Timestamp 5) d = Ok 7"
    using d by (auto simp: record_usage_def Let_def rbind_Ok_iff spent_def fresh_db_def sample_usage_def usage_matches_def is_none_or_def)
  have "spent ?f Tokens (Timestamp 5) (snd (sweep_usage (Timestamp 4) d)) = Ok 7"
    using spent_counts_requests [OF store_steps.Start d zero seven, of "Timestamp 4"] by simp
  then show ?thesis using d by blast
qed

text \<open>
  C32: deleting the only tenant that owns a plugin leaves its wasm behind with no owner: no
  disowning by anybody, of that checksum or any other, takes it away, so the wasm does not go when
  its last owner does.
\<close>

theorem deleted_owner_leaves_wasm:
  assumes "delete_tenant t d = Ok d'" "p \<in> set (plugins_tbl d)" "lookup t_id (tenant_str t) (tenants d) = Some r"
    "\<forall>w\<in>set (owners_tbl d). ow_plugin w = p_row p \<longrightarrow> ow_tenant w = Some (t_row r)"
  shows "p \<in> set (plugins_tbl d') \<and> \<not> list_ex (\<lambda>w. ow_plugin w = p_row p) (owners_tbl d')
    \<and> (disown_plugin c checksum owner d' = Ok (x, d'') \<longrightarrow> p \<in> set (plugins_tbl d''))"
proof -
  have d': "plugins_tbl d' = plugins_tbl d" "owners_tbl d' = filter (\<lambda>w. ow_tenant w \<noteq> Some (t_row r)) (owners_tbl d)"
    using assms(1,3) by (auto simp: delete_tenant_def delete_tenant_row_def drop_limits_def drop_rules_def)
  then have none: "\<forall>w\<in>set (owners_tbl d'). ow_plugin w \<noteq> p_row p" using assms(4) by auto
  have "p \<in> set (plugins_tbl d'')" if out: "disown_plugin c checksum owner d' = Ok (x, d'')"
  proof -
    obtain plg d1 swept where one: "delete_owner c checksum owner d' = Ok (plg, d1)" and two: "delete_unowned c plg d1 = Ok (swept, d'')"
      using out by (auto simp: disown_plugin_def rbind_Ok_iff)
    then have "plugins_tbl d1 = plugins_tbl d'" "plr_row_id plg \<noteq> p_row p"
      using none by (auto simp: delete_owner_def Let_def rbind_Ok_iff list_ex_iff split: if_splits)
    then show ?thesis
      using two assms(2) d'(1) by (auto simp: delete_unowned_def delete_plugin_row_def Let_def split: if_splits option.splits)
  qed
  then show ?thesis using assms(2) d'(1) none by (auto simp: list_ex_iff)
qed

text \<open>One tenant and the one plugin it owns.\<close>

definition owned_db :: db where
  "owned_db = fresh_db\<lparr>tenants := [\<lparr>t_row = 1, t_id = ''a'', t_key = replicate 16 7, t_created = 5\<rparr>],
     plugins_tbl := [\<lparr>p_row = 1, p_checksum = sample_hex (replicate 32 0), p_kind = ''request'', p_wasm = [], p_created = 6\<rparr>],
     owners_tbl := [\<lparr>ow_plugin = 1, ow_tenant = Some 1, ow_created = 6\<rparr>]\<rparr>"

theorem deleted_owner_leaves_wasm_witness:
  "\<exists>d' p. delete_tenant (TenantId ''a'') owned_db = Ok d' \<and> p \<in> set (plugins_tbl d')
     \<and> \<not> list_ex (\<lambda>w. ow_plugin w = p_row p) (owners_tbl d')"
proof -
  let ?r = "\<lparr>t_row = 1, t_id = ''a'', t_key = replicate 16 7, t_created = 5\<rparr>"
  let ?p = "\<lparr>p_row = 1, p_checksum = sample_hex (replicate 32 0), p_kind = ''request'', p_wasm = [], p_created = 6\<rparr>"
  have r: "lookup t_id (tenant_str (TenantId ''a'')) (tenants owned_db) = Some ?r"
    by (simp add: owned_db_def lookup_def)
  then obtain d' where d': "delete_tenant (TenantId ''a'') owned_db = Ok d'" by (simp add: delete_tenant_def)
  have "?p \<in> set (plugins_tbl owned_db)" "\<forall>w\<in>set (owners_tbl owned_db). ow_plugin w = p_row ?p \<longrightarrow> ow_tenant w = Some (t_row ?r)"
    by (simp_all add: owned_db_def)
  from deleted_owner_leaves_wasm [OF d' this(1) r this(2)] show ?thesis using d' by blast
qed

end
