(* ===== verification/Dispatch.thy ===== *)
theory Dispatch
  imports Routes "HOL-Library.Multiset"
begin

text \<open>
  Choosing which endpoint behind a rule a request is sent to:
  \<open>crates/ip-gateway/src/dispatch.rs\<close>. Counters are words of the width of the atomics, so they
  wrap as the atomics do. A plan is shared behind an \<open>Arc\<close>; it is named by its place in the list
  of plans of a dispatcher's state, and every atomic access is one step on that state.
\<close>

section \<open>Plans\<close>

definition UNKNOWN_LATENCY :: u64 where
  "UNKNOWN_LATENCY = 1000"

definition SMOOTHING :: u64 where
  "SMOOTHING = 5"

definition BATCH :: nat where
  "BATCH = 128"

record endpoint_load =
  in_flight :: u32
  latency :: u64

definition default_load :: endpoint_load where
  "default_load = \<lparr>in_flight = 0, latency = 0\<rparr>"

definition score :: "endpoint_load \<Rightarrow> u64" where
  "score l =
     (let lat = (if latency l = 0 then UNKNOWN_LATENCY else latency l) in
      (ucast (in_flight l) + 1) * lat)"

definition answered :: "endpoint_load \<Rightarrow> u64 \<Rightarrow> endpoint_load" where
  "answered l micros =
     l\<lparr>latency := (if latency l = 0 then micros
                  else latency l - latency l div SMOOTHING + micros div SMOOTHING)\<rparr>"

record plan =
  live :: "nat list"
  shares :: "u64 list"
  turn :: u64
  load :: "endpoint_load list"

fun running_shares :: "u64 \<Rightarrow> u64 list \<Rightarrow> u64 list" where
  "running_shares running [] = []"
| "running_shares running (w # ws) = (running + w) # running_shares (running + w) ws"

definition live_of :: "weighted list \<Rightarrow> nat list" where
  "live_of targets =
     (let alive = map fst (filter (\<lambda>(_, t). \<not> is_drained (w_weight t)) (enumerate 0 targets)) in
      if alive = [] then [0..<length targets] else alive)"

definition plan_of :: "weighted list \<Rightarrow> plan" where
  "plan_of targets =
     (let alive = live_of targets in
      \<lparr>live = alive,
       shares = running_shares 0 (map (\<lambda>at. ucast (weight_get (w_weight (targets ! at)))) alive),
       turn = 0,
       load = map (\<lambda>_. default_load) targets\<rparr>)"

definition plan_total :: "plan \<Rightarrow> u64" where
  "plan_total p = (if shares p = [] then 0 else last (shares p))"

definition in_turn :: "plan \<Rightarrow> nat \<times> plan" where
  "in_turn p =
     (live p ! unat (turn p mod of_nat (length (live p))), p\<lparr>turn := turn p + 1\<rparr>)"

text \<open>\<open>slice::partition_point\<close> on a slice that is partitioned by the test.\<close>

definition partition_point :: "('a \<Rightarrow> bool) \<Rightarrow> 'a list \<Rightarrow> nat" where
  "partition_point P xs = length (takeWhile P xs)"

definition at_share :: "plan \<Rightarrow> u64 \<Rightarrow> nat" where
  "at_share p rolled =
     live p ! min (partition_point (\<lambda>running. running \<le> rolled) (shares p)) (length (live p) - 1)"

definition lightest :: "plan \<Rightarrow> nat" where
  "lightest p =
     fst (foldl (\<lambda>(lightest, least) at.
            let s = score (load p ! at) in if s < least then (at, s) else (lightest, least))
          (live p ! 0, - 1) (live p))"

definition roll :: "u64 option \<Rightarrow> u64 \<Rightarrow> u64" where
  "roll entropy tot = (case entropy of None \<Rightarrow> tot div 2 | Some bytes \<Rightarrow> bytes mod tot)"

definition by_share :: "u64 option \<Rightarrow> plan \<Rightarrow> nat" where
  "by_share entropy p = (if plan_total p = 0 then live p ! 0 else at_share p (roll entropy (plan_total p)))"

definition pick :: "strategy \<Rightarrow> u64 option \<Rightarrow> plan \<Rightarrow> nat \<times> plan" where
  "pick strategy entropy p =
     (case strategy of
        RoundRobin \<Rightarrow> in_turn p
      | Ratio \<Rightarrow> (by_share entropy p, p)
      | LeastLoad \<Rightarrow> (lightest p, p))"

section \<open>The dispatcher\<close>

record chosen =
  ch_endpoint :: endpoint
  ch_plan :: nat
  ch_at :: nat
  ch_started :: nat

record answer =
  an_plan :: nat
  an_at :: nat
  an_micros :: u64

record dispatcher =
  plans :: "plan list"
  answers :: "answer list"

definition update_load :: "dispatcher \<Rightarrow> nat \<Rightarrow> nat \<Rightarrow> (endpoint_load \<Rightarrow> endpoint_load) \<Rightarrow> dispatcher" where
  "update_load d pid at f =
     (let p = plans d ! pid in
      d\<lparr>plans := (plans d)[pid := p\<lparr>load := (load p)[at := f (load p ! at)]\<rparr>]\<rparr>)"

text \<open>\<open>Dispatcher::choose\<close>: picks, then counts the request against the endpoint picked.\<close>

definition choose_at :: "dispatcher \<Rightarrow> nat \<Rightarrow> strategy \<Rightarrow> u64 option \<Rightarrow> nat \<times> dispatcher" where
  "choose_at d pid strategy entropy =
     (let (at, p) = pick strategy entropy (plans d ! pid) in (at, d\<lparr>plans := (plans d)[pid := p]\<rparr>))"

definition count_against :: "dispatcher \<Rightarrow> nat \<Rightarrow> nat \<Rightarrow> dispatcher" where
  "count_against d pid at = update_load d pid at (\<lambda>l. l\<lparr>in_flight := in_flight l + 1\<rparr>)"

definition dispatcher_choose ::
  "dispatcher \<Rightarrow> nat \<Rightarrow> strategy \<Rightarrow> weighted list \<Rightarrow> u64 option \<Rightarrow> nat \<Rightarrow> chosen \<times> dispatcher" where
  "dispatcher_choose d pid strategy targets entropy now =
     (let (at, d') = choose_at d pid strategy entropy in
      (\<lparr>ch_endpoint = w_endpoint (targets ! at), ch_plan = pid, ch_at = at, ch_started = now\<rparr>,
       count_against d' pid at))"

text \<open>\<open>Drop for Chosen\<close>; \<open>elapsed\<close> is what the clock says since it was chosen, in microseconds.\<close>

definition micros_of :: "nat \<Rightarrow> u64" where
  "micros_of elapsed = max (if elapsed < 2 ^ 64 then of_nat elapsed else - 1) 1"

definition drop_chosen :: "dispatcher \<Rightarrow> chosen \<Rightarrow> nat \<Rightarrow> dispatcher" where
  "drop_chosen d c elapsed =
     (let d' = update_load d (ch_plan c) (ch_at c) (\<lambda>l. l\<lparr>in_flight := in_flight l - 1\<rparr>) in
      d'\<lparr>answers := answers d' @ [\<lparr>an_plan = ch_plan c, an_at = ch_at c, an_micros = micros_of elapsed\<rparr>]\<rparr>)"

definition fold_answers :: "dispatcher \<Rightarrow> nat \<times> dispatcher" where
  "fold_answers d =
     (let batch = take BATCH (answers d) in
      (length batch,
       foldl (\<lambda>d a. update_load d (an_plan a) (an_at a) (\<lambda>l. answered l (an_micros a)))
         (d\<lparr>answers := drop BATCH (answers d)\<rparr>) batch))"

section \<open>Well-formed plans\<close>

definition plan_ok :: "plan \<Rightarrow> bool" where
  "plan_ok p = (live p \<noteq> [] \<and> distinct (live p) \<and> (\<forall>at\<in>set (live p). at < length (load p))
     \<and> length (shares p) = length (live p) \<and> length (load p) < 2 ^ 32)"

lemma length_running_shares [simp]: "length (running_shares r ws) = length ws"
  by (induction ws arbitrary: r) auto

lemma live_of_alive:
  "set (map fst (filter (\<lambda>(_, t). P t) (enumerate 0 xs))) = {i. i < length xs \<and> P (xs ! i)}"
  by (force simp: in_set_enumerate_eq)

lemma distinct_live_of: "distinct (live_of ts)"
proof -
  have "distinct (map fst (filter P (enumerate 0 ts)))" for P
    by (rule distinct_map_filter) simp
  then show ?thesis
    unfolding live_of_def Let_def by auto
qed

text \<open>The live endpoints are those not drained, or every one when all are.\<close>

lemma set_live_of:
  "set (live_of ts) =
     (if \<forall>t\<in>set ts. is_drained (w_weight t) then {0..<length ts}
      else {i. i < length ts \<and> \<not> is_drained (w_weight (ts ! i))})"
proof -
  let ?alive = "map fst (filter (\<lambda>(_, t). \<not> is_drained (w_weight t)) (enumerate 0 ts))"
  have set_alive: "set ?alive = {i. i < length ts \<and> \<not> is_drained (w_weight (ts ! i))}"
    by (rule live_of_alive)
  have "?alive = [] \<longleftrightarrow> (\<forall>t\<in>set ts. is_drained (w_weight t))"
    using set_alive by (metis (mono_tags, lifting) empty_Collect_eq in_set_conv_nth set_empty)
  then show ?thesis
    using set_alive unfolding live_of_def Let_def by auto
qed

lemma plan_of_ok:
  assumes "ts \<noteq> []" "length ts < 2 ^ 32"
  shows "plan_ok (plan_of ts)"
proof -
  have "live_of ts \<noteq> []"
    using assms(1) by (auto simp: live_of_def Let_def)
  moreover have "\<forall>at\<in>set (live_of ts). at < length ts"
    by (auto simp: set_live_of)
  ultimately show ?thesis
    using assms(2) distinct_live_of by (simp add: plan_ok_def plan_of_def Let_def)
qed

lemma plan_of_simps [simp]:
  "live (plan_of ts) = live_of ts" "load (plan_of ts) = map (\<lambda>_. default_load) ts"
  "turn (plan_of ts) = 0"
  by (simp_all add: plan_of_def Let_def)

text \<open>A plan keeps what it was built with while turns are taken and loads change.\<close>

definition used_plan :: "weighted list \<Rightarrow> u64 \<Rightarrow> endpoint_load list \<Rightarrow> plan" where
  "used_plan ts t ls = (plan_of ts)\<lparr>turn := t, load := ls\<rparr>"

lemma used_plan_simps [simp]:
  "live (used_plan ts t ls) = live_of ts" "shares (used_plan ts t ls) = shares (plan_of ts)"
  "turn (used_plan ts t ls) = t" "load (used_plan ts t ls) = ls"
  by (simp_all add: used_plan_def)

lemma used_plan_ok:
  "ts \<noteq> [] \<Longrightarrow> length ts < 2 ^ 32 \<Longrightarrow> length ls = length ts \<Longrightarrow> plan_ok (used_plan ts t ls)"
  using plan_of_ok [of ts] by (simp add: plan_ok_def)

section \<open>Picking\<close>

lemma plan_ok_lengths:
  assumes "plan_ok p"
  shows "0 < length (live p)" "length (live p) < 2 ^ 64"
proof -
  have "card (set (live p)) \<le> card {0..<length (load p)}"
    using assms by (intro card_mono) (auto simp: plan_ok_def)
  then have "length (live p) \<le> length (load p)"
    using assms by (simp add: plan_ok_def distinct_card)
  then show "length (live p) < 2 ^ 64"
    using assms by (simp add: plan_ok_def)
  show "0 < length (live p)"
    using assms by (simp add: plan_ok_def)
qed

lemma in_turn_at:
  assumes "plan_ok p"
  shows "fst (in_turn p) = live p ! (unat (turn p) mod length (live p))"
  using plan_ok_lengths [OF assms] by (simp add: in_turn_def unat_mod unat_of_nat_lt)

text \<open>The scan of \<^const>\<open>lightest\<close> keeps an endpoint no later one beats.\<close>

lemma lightest_scan:
  assumes "foldl (\<lambda>(l, m) at. let s = sc at in if s < m then (at, s) else (l, m)) (a, m) xs = (b, k :: u64)"
  shows "(\<forall>x\<in>set xs. k \<le> sc x) \<and> k \<le> m \<and> (b = a \<and> k = m \<or> b \<in> set xs \<and> k = sc b)"
  using assms
proof (induction xs arbitrary: a m)
  case (Cons x xs)
  show ?case
  proof (cases "sc x < m")
    case True
    with Cons.prems Cons.IH [of x "sc x"] show ?thesis by (auto simp: Let_def)
  next
    case False
    with Cons.prems Cons.IH [of a m] show ?thesis by (auto simp: Let_def)
  qed
qed simp

lemma lightest_spec:
  assumes "plan_ok p"
  shows "lightest p \<in> set (live p)"
    and "at \<in> set (live p) \<Longrightarrow> score (load p ! lightest p) \<le> score (load p ! at)"
proof -
  obtain b k where scan: "foldl (\<lambda>(l, m) at. let s = score (load p ! at) in if s < m then (at, s) else (l, m))
      (live p ! 0, - 1) (live p) = (b, k)"
    by fastforce
  note spec = lightest_scan [OF scan]
  have b: "lightest p = b"
    using scan by (simp add: lightest_def)
  have first: "live p ! 0 \<in> set (live p)"
    using plan_ok_lengths(1) [OF assms] by simp
  show "lightest p \<in> set (live p)"
    using spec first b by auto
  show "score (load p ! lightest p) \<le> score (load p ! at)" if "at \<in> set (live p)"
  proof (cases "b = live p ! 0 \<and> k = - 1")
    case True
    then have "score (load p ! at) = - 1"
      using spec that by (metis word_order.extremum_uniqueI)
    then show ?thesis by simp
  next
    case False
    then show ?thesis using spec that b by auto
  qed
qed

lemma pick_live:
  assumes "plan_ok p"
  shows "fst (pick s e p) \<in> set (live p)"
proof -
  have n: "0 < length (live p)"
    by (rule plan_ok_lengths(1) [OF assms])
  show ?thesis
  proof (cases s)
    case RoundRobin
    then show ?thesis using n in_turn_at [OF assms] by (simp add: pick_def)
  next
    case LeastLoad
    then show ?thesis using lightest_spec(1) [OF assms] by (simp add: pick_def)
  next
    case Ratio
    have "live p ! min k (length (live p) - 1) \<in> set (live p)" for k
      using n by (intro nth_mem min.strict_coboundedI2) simp
    moreover have "live p ! 0 \<in> set (live p)"
      using n by (rule nth_mem)
    ultimately show ?thesis using Ratio by (simp add: pick_def by_share_def at_share_def)
  qed
qed

lemma pick_keeps: "plan_ok p \<Longrightarrow> plan_ok (snd (pick s e p)) \<and> load (snd (pick s e p)) = load p
    \<and> live (snd (pick s e p)) = live p"
  by (cases s) (auto simp: pick_def in_turn_def plan_ok_def)

section \<open>Turns\<close>

fun take_turns :: "nat \<Rightarrow> plan \<Rightarrow> nat list" where
  "take_turns 0 p = []"
| "take_turns (Suc k) p = fst (in_turn p) # take_turns k (snd (in_turn p))"

lemma take_turns_map:
  assumes "plan_ok p" "unat (turn p) + k \<le> 2 ^ 64"
  shows "take_turns k p = map (\<lambda>i. live p ! ((unat (turn p) + i) mod length (live p))) [0..<k]"
  using assms
proof (induction k arbitrary: p)
  case (Suc k)
  let ?q = "snd (in_turn p)"
  have q: "plan_ok ?q" "live ?q = live p"
    using Suc.prems(1) by (auto simp: in_turn_def plan_ok_def)
  show ?case
  proof (cases k)
    case 0
    then show ?thesis using in_turn_at [OF Suc.prems(1)] by simp
  next
    case (Suc k')
    then have "unat (turn p + 1) = unat (turn p) + 1"
      using Suc.prems(2) by (subst unat_word_ariths) simp
    then have t: "unat (turn ?q) = Suc (unat (turn p))"
      by (simp add: in_turn_def)
    then have "take_turns k ?q = map (\<lambda>i. live p ! ((unat (turn p) + Suc i) mod length (live p))) [0..<k]"
      using Suc.IH [OF q(1)] Suc.prems(2) q(2) by simp
    then show ?thesis
      using in_turn_at [OF Suc.prems(1)]
      by (simp add: upt_conv_Cons map_Suc_upt [symmetric] comp_def del: upt_Suc map_Suc_upt)
  qed
qed simp

lemma rotate_map: "map (\<lambda>i. xs ! ((t + i) mod length xs)) [0..<length xs] = rotate t xs"
  by (rule nth_equalityI) (auto simp: nth_rotate)

lemma mset_rotate [simp]: "mset (rotate t xs) = mset xs"
proof (induction t)
  case (Suc t)
  have "mset (rotate1 ys) = mset ys" for ys :: "'a list"
    by (cases ys) auto
  then show ?case using Suc by simp
qed simp

lemma mset_rounds:
  "mset (map (\<lambda>i. xs ! ((t + i) mod length xs)) [0..<k * length xs]) = repeat_mset k (mset xs)"
proof (induction k)
  case (Suc k)
  let ?f = "\<lambda>i. xs ! ((t + i) mod length xs)"
  have "[0..<Suc k * length xs] = [0..<k * length xs] @ map (\<lambda>i. i + k * length xs) [0..<length xs]"
    using upt_add_eq_append [of 0 "k * length xs" "length xs"]
    by (simp add: map_add_upt add.commute)
  then have "map ?f [0..<Suc k * length xs]
      = map ?f [0..<k * length xs] @ map (\<lambda>i. ?f (i + k * length xs)) [0..<length xs]"
    by simp
  also have "map (\<lambda>i. ?f (i + k * length xs)) [0..<length xs] = map ?f [0..<length xs]"
    by (simp add: add.assoc [symmetric])
  finally show ?case
    using Suc by (simp add: rotate_map)
qed simp

section \<open>Shares\<close>

fun running_sums :: "nat \<Rightarrow> nat list \<Rightarrow> nat list" where
  "running_sums a [] = []"
| "running_sums a (w # ws) = (a + w) # running_sums (a + w) ws"

lemma unat_running_shares:
  "unat r + sum_list (map unat ws) < 2 ^ 64
   \<Longrightarrow> map unat (running_shares r ws) = running_sums (unat r) (map unat ws)"
proof (induction ws arbitrary: r)
  case (Cons w ws)
  then have "unat (r + w) = unat r + unat w"
    by (subst unat_word_ariths) simp
  with Cons show ?case by simp
qed simp

text \<open>A draw falls in the share whose running total is the first above it.\<close>

lemma share_of_draw:
  "a \<le> r \<Longrightarrow> j < length ws \<Longrightarrow>
   length (takeWhile (\<lambda>s. s \<le> r) (running_sums a ws)) = j
   \<longleftrightarrow> a + sum_list (take j ws) \<le> r \<and> r < a + sum_list (take (Suc j) ws)"
proof (induction ws arbitrary: a j)
  case (Cons w ws)
  show ?case
  proof (cases "a + w \<le> r")
    case True
    with Cons show ?thesis by (cases j) (auto simp: add.assoc)
  next
    case False
    with Cons.prems show ?thesis by (cases j) auto
  qed
qed simp

definition live_weights :: "weighted list \<Rightarrow> nat list" where
  "live_weights ts = map (\<lambda>at. unat (weight_get (w_weight (ts ! at)))) (live_of ts)"

lemma sum_live_weights:
  assumes "ts \<noteq> []" "length ts < 2 ^ 32"
  shows "sum_list (live_weights ts) < 2 ^ 64"
proof -
  have le: "w \<le> 2 ^ 32 - 1" if "w \<in> set (live_weights ts)" for w
  proof -
    from that have "\<exists>x :: u32. w = unat x"
      unfolding live_weights_def by auto
    then obtain x :: u32 where "w = unat x" ..
    then show ?thesis using unat_less [of x] by simp
  qed
  have "length (live_weights ts) = card (set (live_of ts))"
    by (simp add: live_weights_def distinct_card distinct_live_of)
  also have "\<dots> \<le> card {0..<length ts}"
    by (rule card_mono) (auto simp: set_live_of split: if_splits)
  finally have len: "length (live_weights ts) \<le> 2 ^ 32"
    using assms(2) by simp
  have "sum_list (live_weights ts) \<le> length (live_weights ts) * (2 ^ 32 - 1)"
    using sum_list_mono2 [of "live_weights ts" "replicate (length (live_weights ts)) (2 ^ 32 - 1)"] le
    by (simp add: sum_list_replicate)
  also have "\<dots> \<le> 2 ^ 32 * (2 ^ 32 - 1)"
    by (rule mult_le_mono1 [OF len])
  also have "\<dots> < (2 ^ 64 :: nat)" by simp
  finally show ?thesis .
qed

lemma shares_plan_of:
  assumes "ts \<noteq> []" "length ts < 2 ^ 32"
  shows "map unat (shares (plan_of ts)) = running_sums 0 (live_weights ts)"
proof -
  let ?ws = "map (\<lambda>at. ucast (weight_get (w_weight (ts ! at)))) (live_of ts) :: u64 list"
  have ws: "map unat ?ws = live_weights ts"
    by (simp add: live_weights_def unsigned_ucast_eq take_bit_nat_eq_self unsigned_less
        less_trans [OF unat_less])
  show ?thesis
    using unat_running_shares [of 0 ?ws] sum_live_weights [OF assms] ws
    by (simp add: plan_of_def Let_def)
qed

lemma length_running_sums [simp]: "length (running_sums a ws) = length ws"
  by (induction ws arbitrary: a) auto

lemma last_running_sums: "ws \<noteq> [] \<Longrightarrow> last (running_sums a ws) = a + sum_list ws"
proof (induction ws arbitrary: a)
  case (Cons w ws)
  have "running_sums (a + w) ws = [] \<longleftrightarrow> ws = []"
    by (cases ws) auto
  with Cons show ?case by (cases "ws = []") (auto simp: add.assoc)
qed simp

lemma total_plan_of:
  assumes "ts \<noteq> []" "length ts < 2 ^ 32"
  shows "unat (plan_total (plan_of ts)) = sum_list (live_weights ts)"
proof -
  have ne: "live_weights ts \<noteq> []"
    using plan_of_ok [OF assms] by (auto simp: live_weights_def plan_ok_def plan_of_def Let_def)
  then have "shares (plan_of ts) \<noteq> []"
    using shares_plan_of [OF assms] by (metis length_running_sums length_map length_0_conv)
  then have "unat (plan_total (plan_of ts)) = last (map unat (shares (plan_of ts)))"
    by (simp add: plan_total_def last_map)
  then show ?thesis
    using shares_plan_of [OF assms] last_running_sums [OF ne, of 0] by simp
qed

lemma takeWhile_unat:
  "length (takeWhile (\<lambda>s. s \<le> r) xs) = length (takeWhile (\<lambda>s. s \<le> unat r) (map unat xs))"
  by (simp add: takeWhile_map comp_def word_le_nat_alt)

text \<open>Which draws reach the endpoint at place \<open>j\<close> of the live ones.\<close>

lemma at_share_draws:
  assumes "ts \<noteq> []" "length ts < 2 ^ 32" "j < length (live_of ts)" "r < sum_list (live_weights ts)"
  shows "at_share (plan_of ts) (of_nat r) = live_of ts ! j
    \<longleftrightarrow> sum_list (take j (live_weights ts)) \<le> r \<and> r < sum_list (take (Suc j) (live_weights ts))"
proof -
  let ?p = "plan_of ts" and ?ws = "live_weights ts"
  let ?k = "\<lambda>r. length (takeWhile (\<lambda>s. s \<le> r) (running_sums 0 ?ws))"
  have len: "length ?ws = length (live_of ts)" by (simp add: live_weights_def)
  have r: "unat (of_nat r :: u64) = r"
    using assms(4) sum_live_weights [OF assms(1,2)] by (intro unat_of_nat_lt) simp
  have at: "at_share ?p (of_nat r) = live_of ts ! min (?k r) (length (live_of ts) - 1)"
    using shares_plan_of [OF assms(1,2)] r
    by (simp add: at_share_def partition_point_def takeWhile_unat)
  have "?k r \<noteq> length ?ws"
  proof
    assume "?k r = length ?ws"
    then have "takeWhile (\<lambda>s. s \<le> r) (running_sums 0 ?ws) = running_sums 0 ?ws"
      by (metis length_running_sums takeWhile_eq_take take_all order_refl)
    then have "last (running_sums 0 ?ws) \<le> r"
      using assms(3) len by (metis last_in_set length_running_sums length_greater_0_conv
          less_zeroE set_takeWhileD linorder_neqE_nat)
    then show False
      using assms(3,4) len last_running_sums [of ?ws 0] by fastforce
  qed
  then have k: "?k r < length (live_of ts)"
    using length_takeWhile_le [of "\<lambda>s. s \<le> r" "running_sums 0 ?ws"] len by simp
  moreover from k have "min (?k r) (length (live_of ts) - 1) = ?k r"
    by (intro min.absorb1) linarith
  ultimately have "at_share ?p (of_nat r) = live_of ts ! j \<longleftrightarrow> ?k r = j"
    using at assms(3) distinct_live_of [of ts] by (simp add: nth_eq_iff_index_eq)
  then show ?thesis
    using share_of_draw [of 0 r j ?ws] assms(3) len by simp
qed

section \<open>Loads\<close>

lemma smoothed_le: "h - h div 5 + m div 5 \<le> max h (m :: nat)"
proof (cases "m \<le> h")
  case True
  then have "m div 5 \<le> h div 5" by (rule div_le_mono)
  then show ?thesis using True by (simp add: max_def)
next
  case False
  then show ?thesis by (simp add: max_def)
qed

lemma smoothed_ge: "min h m \<le> h - h div 5 + (m :: nat) div 5"
proof (cases "h \<le> m")
  case True
  then have "h div 5 \<le> m div 5" by (rule div_le_mono)
  moreover have "h div 5 \<le> h" by simp
  ultimately show ?thesis using True by linarith
next
  case False
  then show ?thesis by (simp add: min_def)
qed

lemma unat_answered:
  "unat (latency (answered l m)) =
     (if latency l = 0 then unat m else unat (latency l) - unat (latency l) div 5 + unat m div 5)"
proof (cases "latency l = 0")
  case False
  let ?h = "latency l"
  have 5: "unat (SMOOTHING :: u64) = 5" by (simp add: SMOOTHING_def)
  have sub: "unat (?h - ?h div SMOOTHING) = unat ?h - unat ?h div 5"
    using 5 by (simp add: unat_sub word_le_nat_alt unat_div)
  have "max (unat ?h) (unat m) < 2 ^ 64"
    using unat_less [of ?h] unat_less [of m] by simp
  then have "unat ?h - unat ?h div 5 + unat m div 5 < 2 ^ 64"
    by (rule le_less_trans [OF smoothed_le])
  then show ?thesis
    using False 5 sub by (simp add: answered_def unat_word_ariths unat_div)
qed (simp add: answered_def)

lemma micros_of_pos: "micros_of e \<noteq> 0"
  by (auto simp: micros_of_def max_def)

section \<open>Requests in flight\<close>

text \<open>
  Requests run at once, so \<open>choose\<close> is two atomic steps: an endpoint is picked, and the request is
  counted against it. A chosen endpoint is dropped, and answers are folded in, at any moment.
\<close>

record world =
  disp :: dispatcher
  picked :: "(nat \<times> nat) list"
  outstanding :: "chosen list"

inductive dispatch_step :: "world \<Rightarrow> world \<Rightarrow> bool" where
  Pick: "pid < length (plans (disp w)) \<Longrightarrow> choose_at (disp w) pid s e = (at, d)
    \<Longrightarrow> dispatch_step w (w\<lparr>disp := d, picked := (pid, at) # picked w\<rparr>)"
| Count: "(ch_plan c, ch_at c) \<in> set (picked w)
    \<Longrightarrow> dispatch_step w (w\<lparr>disp := count_against (disp w) (ch_plan c) (ch_at c),
          picked := remove1 (ch_plan c, ch_at c) (picked w), outstanding := c # outstanding w\<rparr>)"
| Drop: "c \<in> set (outstanding w)
    \<Longrightarrow> dispatch_step w (w\<lparr>disp := drop_chosen (disp w) c elapsed, outstanding := remove1 c (outstanding w)\<rparr>)"
| Fold: "dispatch_step w (w\<lparr>disp := snd (fold_answers (disp w))\<rparr>)"

inductive_cases dispatch_stepE: "dispatch_step w w'"

definition place_ok :: "dispatcher \<Rightarrow> nat \<Rightarrow> nat \<Rightarrow> bool" where
  "place_ok d pid at = (pid < length (plans d) \<and> at < length (load (plans d ! pid)))"

definition carried :: "chosen list \<Rightarrow> nat \<Rightarrow> nat \<Rightarrow> nat" where
  "carried cs pid at = length (filter (\<lambda>c. ch_plan c = pid \<and> ch_at c = at) cs)"

definition flight_of :: "dispatcher \<Rightarrow> nat \<Rightarrow> nat \<Rightarrow> u32" where
  "flight_of d pid at = in_flight (load (plans d ! pid) ! at)"

definition world_ok :: "world \<Rightarrow> bool" where
  "world_ok w =
     ((\<forall>p\<in>set (plans (disp w)). plan_ok p)
      \<and> (\<forall>(pid, at)\<in>set (picked w). place_ok (disp w) pid at)
      \<and> (\<forall>c\<in>set (outstanding w). place_ok (disp w) (ch_plan c) (ch_at c))
      \<and> (\<forall>a\<in>set (answers (disp w)). place_ok (disp w) (an_plan a) (an_at a))
      \<and> (\<forall>pid at. place_ok (disp w) pid at
            \<longrightarrow> flight_of (disp w) pid at = of_nat (carried (outstanding w) pid at)))"

text \<open>Changing one endpoint's load keeps every plan and every place.\<close>

lemma update_load_plans:
  "pid < length (plans d) \<Longrightarrow> plans (update_load d pid at f) =
     (plans d)[pid := (plans d ! pid)\<lparr>load := (load (plans d ! pid))[at := f (load (plans d ! pid) ! at)]\<rparr>]"
  by (simp add: update_load_def Let_def)

lemma update_load_keeps:
  assumes "place_ok d pid at"
  shows "place_ok (update_load d pid at f) q i \<longleftrightarrow> place_ok d q i"
    and "(\<forall>p\<in>set (plans d). plan_ok p) \<Longrightarrow> \<forall>p\<in>set (plans (update_load d pid at f)). plan_ok p"
    and "answers (update_load d pid at f) = answers d"
    and "flight_of (update_load d pid at f) q i =
      (if q = pid \<and> i = at then in_flight (f (load (plans d ! pid) ! at)) else flight_of d q i)"
proof -
  have pid: "pid < length (plans d)" and at: "at < length (load (plans d ! pid))"
    using assms by (auto simp: place_ok_def)
  show "place_ok (update_load d pid at f) q i \<longleftrightarrow> place_ok d q i"
    using pid at by (cases "q = pid") (auto simp: place_ok_def update_load_plans)
  show "\<forall>p\<in>set (plans (update_load d pid at f)). plan_ok p" if "\<forall>p\<in>set (plans d). plan_ok p"
  proof -
    have "plan_ok ((plans d ! pid)\<lparr>load := (load (plans d ! pid))[at := l]\<rparr>)" for l
      using that pid by (simp add: plan_ok_def)
    then show ?thesis
      using that set_update_subset_insert [of "plans d" pid] by (auto simp: update_load_plans [OF pid])
  qed
  show "answers (update_load d pid at f) = answers d"
    by (simp add: update_load_def Let_def)
  show "flight_of (update_load d pid at f) q i =
      (if q = pid \<and> i = at then in_flight (f (load (plans d ! pid) ! at)) else flight_of d q i)"
    using pid at by (cases "q = pid") (auto simp: flight_of_def update_load_plans)
qed

lemma answered_in_flight [simp]: "in_flight (answered l m) = in_flight l"
  by (simp add: answered_def)

lemma fold_batch_keeps:
  assumes "\<forall>a\<in>set as. place_ok d (an_plan a) (an_at a)" "\<forall>p\<in>set (plans d). plan_ok p"
  shows "let d' = foldl (\<lambda>d a. update_load d (an_plan a) (an_at a) (\<lambda>l. answered l (an_micros a))) d as in
     (\<forall>p\<in>set (plans d'). plan_ok p) \<and> answers d' = answers d
     \<and> (\<forall>q i. place_ok d' q i = place_ok d q i) \<and> (\<forall>q i. flight_of d' q i = flight_of d q i)"
  using assms
proof (induction as arbitrary: d)
  case (Cons a as)
  let ?d = "update_load d (an_plan a) (an_at a) (\<lambda>l. answered l (an_micros a))"
  have place: "place_ok d (an_plan a) (an_at a)"
    using Cons.prems(1) by simp
  note keeps = update_load_keeps [OF place, of "\<lambda>l. answered l (an_micros a)"]
  have "flight_of ?d q i = flight_of d q i" for q i
    by (simp add: keeps(4)) (simp add: flight_of_def)
  then show ?case
    using Cons.IH [of ?d] Cons.prems keeps by (simp add: Let_def)
qed simp

lemma choose_at_keeps:
  assumes "pid < length (plans d)" "\<forall>p\<in>set (plans d). plan_ok p" "choose_at d pid s e = (at, d')"
  shows "\<forall>p\<in>set (plans d'). plan_ok p" "place_ok d' pid at" "answers d' = answers d"
    "place_ok d' q i = place_ok d q i" "flight_of d' q i = flight_of d q i"
proof -
  let ?p = "plans d ! pid"
  have ok: "plan_ok ?p" using assms(1,2) by simp
  note kept = pick_keeps [OF ok, of s e]
  have d': "d' = d\<lparr>plans := (plans d)[pid := snd (pick s e ?p)]\<rparr>" and at: "at = fst (pick s e ?p)"
    using assms(3) by (auto simp: choose_at_def Let_def split: prod.splits)
  have "at < length (load ?p)"
    using pick_live [OF ok, of s e] ok at by (auto simp: plan_ok_def)
  then show "place_ok d' pid at"
    using assms(1) kept d' by (simp add: place_ok_def)
  show "\<forall>p\<in>set (plans d'). plan_ok p"
    using assms(2) kept d' set_update_subset_insert [of "plans d" pid] by auto
  show "answers d' = answers d" using d' by simp
  show "place_ok d' q i = place_ok d q i"
    using assms(1) kept d' by (cases "q = pid") (auto simp: place_ok_def)
  show "flight_of d' q i = flight_of d q i"
    using assms(1) kept d' by (cases "q = pid") (auto simp: flight_of_def)
qed

lemma carried_remove1:
  "c \<in> set cs \<Longrightarrow> carried cs pid at =
     carried (remove1 c cs) pid at + (if ch_plan c = pid \<and> ch_at c = at then 1 else 0)"
  by (induction cs) (auto simp: carried_def)

lemma count_keeps_ok:
  assumes ok: "world_ok w" and c: "(ch_plan c, ch_at c) \<in> set (picked w)"
  shows "world_ok (w\<lparr>disp := count_against (disp w) (ch_plan c) (ch_at c),
          picked := remove1 (ch_plan c, ch_at c) (picked w), outstanding := c # outstanding w\<rparr>)"
proof -
  have place: "place_ok (disp w) (ch_plan c) (ch_at c)"
    using ok c by (auto simp: world_ok_def)
  note keeps = update_load_keeps [OF place, of "\<lambda>l. l\<lparr>in_flight := in_flight l + 1\<rparr>"]
  have flight: "flight_of (count_against (disp w) (ch_plan c) (ch_at c)) q i
      = of_nat (carried (c # outstanding w) q i)" if "place_ok (disp w) q i" for q i
    using ok that keeps(4) [of q i]
    by (auto simp: world_ok_def count_against_def flight_of_def carried_def)
  have "\<forall>p\<in>set (plans (count_against (disp w) (ch_plan c) (ch_at c))). plan_ok p"
    using ok keeps(2) by (simp add: world_ok_def count_against_def)
  then show ?thesis
    using ok place keeps(1,3) flight
    by (auto simp: world_ok_def count_against_def dest: notin_set_remove1 in_set_remove1 [THEN iffD1]
        set_remove1_subset [THEN subsetD])
qed

lemma drop_keeps_ok:
  assumes ok: "world_ok w" and c: "c \<in> set (outstanding w)"
  shows "world_ok (w\<lparr>disp := drop_chosen (disp w) c e, outstanding := remove1 c (outstanding w)\<rparr>)"
proof -
  have place: "place_ok (disp w) (ch_plan c) (ch_at c)"
    using ok c by (auto simp: world_ok_def)
  note keeps = update_load_keeps [OF place, of "\<lambda>l. l\<lparr>in_flight := in_flight l - 1\<rparr>"]
  let ?d = "drop_chosen (disp w) c e"
  let ?u = "update_load (disp w) (ch_plan c) (ch_at c) (\<lambda>l. l\<lparr>in_flight := in_flight l - 1\<rparr>)"
  have d: "plans ?d = plans ?u" "answers ?d = answers (disp w)
      @ [\<lparr>an_plan = ch_plan c, an_at = ch_at c, an_micros = micros_of e\<rparr>]"
    using keeps(3) by (simp_all add: drop_chosen_def Let_def)
  have places: "place_ok ?d q i = place_ok (disp w) q i" "flight_of ?d q i = flight_of ?u q i" for q i
    using keeps(1) d(1) by (simp_all add: place_ok_def flight_of_def)
  have flight: "flight_of ?d q i = of_nat (carried (remove1 c (outstanding w)) q i)"
    if "place_ok (disp w) q i" for q i
    using ok that keeps(4) [of q i] carried_remove1 [OF c, of q i] places(2)
    by (auto simp: world_ok_def flight_of_def)
  show ?thesis
    using ok place keeps(2) d places(1) flight
    by (auto simp: world_ok_def dest: set_remove1_subset [THEN subsetD])
qed

lemma fold_keeps_ok:
  assumes ok: "world_ok w"
  shows "world_ok (w\<lparr>disp := snd (fold_answers (disp w))\<rparr>)"
proof -
  let ?d = "(disp w)\<lparr>answers := drop BATCH (answers (disp w))\<rparr>"
  have "\<forall>a\<in>set (take BATCH (answers (disp w))). place_ok ?d (an_plan a) (an_at a)"
    "\<forall>p\<in>set (plans ?d). plan_ok p"
    using ok by (auto simp: world_ok_def place_ok_def dest: in_set_takeD)
  note keeps = fold_batch_keeps [OF this]
  then show ?thesis
    using ok
    by (auto simp: world_ok_def fold_answers_def Let_def place_ok_def flight_of_def dest: in_set_dropD)
qed

lemma pick_keeps_ok:
  assumes ok: "world_ok w" and "pid < length (plans (disp w))" "choose_at (disp w) pid s e = (at, d)"
  shows "world_ok (w\<lparr>disp := d, picked := (pid, at) # picked w\<rparr>)"
proof -
  have "\<forall>p\<in>set (plans (disp w)). plan_ok p"
    using ok by (simp add: world_ok_def)
  note keeps = choose_at_keeps [OF assms(2) this assms(3)]
  then show ?thesis
    using ok by (auto simp: world_ok_def)
qed

lemma dispatch_step_keeps: "dispatch_step w w' \<Longrightarrow> world_ok w \<Longrightarrow> world_ok w'"
  by (erule dispatch_stepE)
    (simp_all add: count_keeps_ok drop_keeps_ok fold_keeps_ok pick_keeps_ok)

lemma dispatch_steps_keep: "dispatch_step\<^sup>*\<^sup>* w w' \<Longrightarrow> world_ok w \<Longrightarrow> world_ok w'"
  by (induction rule: rtranclp_induct) (auto intro: dispatch_step_keeps)

definition world_start :: "weighted list list \<Rightarrow> world" where
  "world_start rules =
     \<lparr>disp = \<lparr>plans = map plan_of rules, answers = []\<rparr>, picked = [], outstanding = []\<rparr>"

lemma world_start_ok:
  assumes "\<forall>ts\<in>set rules. ts \<noteq> [] \<and> length ts < 2 ^ 32"
  shows "world_ok (world_start rules)"
  using assms
  by (auto simp: world_ok_def world_start_def plan_of_ok place_ok_def flight_of_def carried_def
      default_load_def)

lemma score_exact:
  assumes "unat (latency l) < 2 ^ 32"
  shows "unat (score l) = (unat (in_flight l) + 1) * (if latency l = 0 then 1000 else unat (latency l))"
proof -
  let ?lat = "if latency l = 0 then UNKNOWN_LATENCY else latency l"
  have fl: "unat (in_flight l) < 2 ^ 32"
    using unat_less [of "in_flight l"] by simp
  then have inc: "unat (ucast (in_flight l) + 1 :: u64) = unat (in_flight l) + 1"
    by (simp add: unat_word_ariths unsigned_ucast_eq take_bit_nat_eq_self)
  have lat: "unat ?lat = (if latency l = 0 then 1000 else unat (latency l))"
    by (simp add: UNKNOWN_LATENCY_def)
  then have "unat ?lat < 2 ^ 32" using assms by simp
  then have "(unat (in_flight l) + 1) * unat ?lat \<le> 2 ^ 32 * (2 ^ 32 - 1)"
    using fl by (intro mult_le_mono) auto
  also have "\<dots> < (2 ^ 64 :: nat)" by simp
  finally have "unat ((ucast (in_flight l) + 1) * ?lat) = (unat (in_flight l) + 1) * unat ?lat"
    using inc by (subst unat_word_ariths) simp
  then show ?thesis
    using lat by (simp add: score_def Let_def)
qed

section \<open>Properties\<close>

text \<open>
  Whatever the strategy, the draw, the turn and the loads, a request goes to an
  endpoint of the rule, and to a drained one only when every endpoint of the rule is
  drained.
\<close>

lemma pick_avoids_drained:
  assumes "ts \<noteq> []" "length ts < 2 ^ 32" "length ls = length ts"
  shows "fst (pick s e (used_plan ts t ls)) < length ts
    \<and> (is_drained (w_weight (ts ! fst (pick s e (used_plan ts t ls))))
       \<longrightarrow> (\<forall>x\<in>set ts. is_drained (w_weight x)))"
  using pick_live [OF used_plan_ok [OF assms], of s e t]
  by (auto simp: set_live_of split: if_splits)

definition sample_rule :: "weighted list" where
  "sample_rule = [weighing (sample_endpoint 81) (Weight 0), weighing (sample_endpoint 82) (Weight 3)]"

lemma sample_rule_facts:
  "sample_rule \<noteq> []" "length sample_rule < 2 ^ 32" "length [default_load, default_load] = length sample_rule"
  "live_of sample_rule = [1]"
  by (simp_all add: sample_rule_def live_of_def weighing_def is_drained_def Let_def)



text \<open>
  C8: ratio dispatch shares draws out in exact proportion to the weights: of the draws
  below the plan's total, as many reach a live endpoint as its weight says.
\<close>

theorem at_share_proportional:
  assumes "ts \<noteq> []" "length ts < 2 ^ 32" "at \<in> set (live_of ts)"
  shows "card {r. r < unat (plan_total (plan_of ts)) \<and> at_share (plan_of ts) (of_nat r) = at}
    = unat (weight_get (w_weight (ts ! at)))"
proof -
  let ?ws = "live_weights ts"
  obtain j where j: "j < length (live_of ts)" "live_of ts ! j = at"
    using assms(3) by (metis in_set_conv_nth)
  have le: "sum_list (take (Suc j) ?ws) \<le> sum_list ?ws"
    by (metis append_take_drop_id le_add1 sum_list.append)
  have "{r. r < sum_list ?ws \<and> at_share (plan_of ts) (of_nat r) = at}
      = {sum_list (take j ?ws)..<sum_list (take (Suc j) ?ws)}"
    using at_share_draws [OF assms(1,2) j(1)] j(2) le by auto
  moreover have "sum_list (take (Suc j) ?ws) = sum_list (take j ?ws) + unat (weight_get (w_weight (ts ! at)))"
    using j by (simp add: live_weights_def take_Suc_conv_app_nth)
  ultimately show ?thesis
    using total_plan_of [OF assms(1,2)] by simp
qed

theorem at_share_proportional_witness:
  "card {r. r < unat (plan_total (plan_of sample_rule)) \<and> at_share (plan_of sample_rule) (of_nat r) = 1} = 3"
  using at_share_proportional [OF sample_rule_facts(1,2), of 1] sample_rule_facts(4)
  by (simp add: sample_rule_def weighing_def)

text \<open>
  C10: least load dispatch picks a live endpoint no other live endpoint beats, measured
  without overflow: the requests in front of a new one times what the endpoint takes, as
  long as every endpoint has been taking less than \<open>2\<^sup>3\<^sup>2\<close> microseconds.
\<close>

theorem lightest_waits_least:
  assumes "ts \<noteq> []" "length ts < 2 ^ 32" "length ls = length ts"
    and "\<forall>l\<in>set ls. unat (latency l) < 2 ^ 32" and "at \<in> set (live_of ts)"
  shows "let wait = (\<lambda>i. (unat (in_flight (ls ! i)) + 1)
               * (if latency (ls ! i) = 0 then 1000 else unat (latency (ls ! i))));
             best = lightest (used_plan ts t ls)
         in best \<in> set (live_of ts) \<and> wait best \<le> wait at"
proof -
  let ?p = "used_plan ts t ls"
  have ok: "plan_ok ?p" by (rule used_plan_ok [OF assms(1-3)])
  have best: "lightest ?p \<in> set (live_of ts)" "score (ls ! lightest ?p) \<le> score (ls ! at)"
    using lightest_spec(1) [OF ok] lightest_spec(2) [OF ok, of at] assms(5) by simp_all
  have exact: "unat (score (ls ! i)) = (unat (in_flight (ls ! i)) + 1)
      * (if latency (ls ! i) = 0 then 1000 else unat (latency (ls ! i)))" if "i \<in> set (live_of ts)" for i
    using that ok assms(4) by (intro score_exact) (auto simp: plan_ok_def)
  show ?thesis
    using best exact [OF best(1)] exact [OF assms(5)] by (simp add: Let_def word_le_nat_alt)
qed

theorem lightest_waits_least_witness:
  "lightest (used_plan sample_rule 7 [default_load, default_load]) = 1"
  using lightest_waits_least [OF sample_rule_facts(1-3), of 1 7]
  by (simp add: sample_rule_facts(4) default_load_def Let_def)

text \<open>
  C11: what an endpoint takes moves towards each new answer and never past it: after
  \<open>answered\<close> the latency lies between the old one and the new measurement, so it does not
  overflow, and it does not fall back to zero, which would read as never having answered.
\<close>

theorem answered_between:
  assumes "latency l \<noteq> 0" "m \<noteq> 0"
  shows "min (latency l) m \<le> latency (answered l m) \<and> latency (answered l m) \<le> max (latency l) m
    \<and> latency (answered l m) \<noteq> 0"
proof -
  let ?h = "unat (latency l)" and ?m = "unat m" and ?n = "unat (latency (answered l m))"
  have n: "?n = ?h - ?h div 5 + ?m div 5"
    using assms(1) by (simp add: unat_answered)
  have pos: "0 < ?h" "0 < ?m"
    using assms by (simp_all add: unat_gt_0)
  have lo: "min ?h ?m \<le> ?n"
    using smoothed_ge n by simp
  have hi: "?n \<le> max ?h ?m"
    using smoothed_le n by simp
  have "0 < ?n"
    using lo pos by linarith
  then have "latency (answered l m) \<noteq> 0" by auto
  then show ?thesis
    using lo hi by (auto simp: word_le_nat_alt min_def max_def split: if_splits)
qed

theorem answered_between_witness:
  "latency (answered \<lparr>in_flight = 0, latency = 1000\<rparr> 500) = 900
   \<and> latency (answered \<lparr>in_flight = 0, latency = 1000\<rparr> 500) \<noteq> 0"
  using answered_between [of "\<lparr>in_flight = 0, latency = 1000\<rparr>" 500]
  by (simp add: answered_def SMOOTHING_def)

text \<open>
  C7: requests in flight are conserved. However many requests are picked, counted, dropped
  and folded in whatever order, an endpoint's counter is the number of requests that were
  sent to it and are not done, modulo the counter's width; it is zero when none is left.
\<close>

theorem in_flight_conserved:
  assumes "\<forall>ts\<in>set rules. ts \<noteq> [] \<and> length ts < 2 ^ 32"
    and "dispatch_step\<^sup>*\<^sup>* (world_start rules) w" and "place_ok (disp w) pid at"
  shows "flight_of (disp w) pid at = of_nat (carried (outstanding w) pid at)"
  using dispatch_steps_keep [OF assms(2) world_start_ok [OF assms(1)]] assms(3)
  by (simp add: world_ok_def)

theorem in_flight_conserved_witness:
  "let d = disp (world_start [sample_rule]);
       c = \<lparr>ch_endpoint = sample_endpoint 82, ch_plan = 0, ch_at = 1, ch_started = 0\<rparr>
   in flight_of (count_against (snd (choose_at d 0 RoundRobin None)) 0 1) 0 1 = of_nat (carried [c] 0 1)"
proof -
  let ?w = "world_start [sample_rule]"
  let ?c = "\<lparr>ch_endpoint = sample_endpoint 82, ch_plan = 0, ch_at = 1, ch_started = 0\<rparr>"
  let ?d = "snd (choose_at (disp ?w) 0 RoundRobin None)"
  have at: "choose_at (disp ?w) 0 RoundRobin None = (1, ?d)"
    by (simp add: world_start_def choose_at_def pick_def in_turn_def sample_rule_facts)
  have "dispatch_step ?w (?w\<lparr>disp := ?d, picked := [(0, 1)]\<rparr>)" (is "dispatch_step ?w ?v")
    using dispatch_step.Pick [of 0 ?w, OF _ at] by (simp add: world_start_def)
  moreover have "dispatch_step ?v (?v\<lparr>disp := count_against ?d 0 1, picked := [], outstanding := [?c]\<rparr>)"
    using dispatch_step.Count [of ?c ?v] by (simp add: world_start_def)
  ultimately have "dispatch_step\<^sup>*\<^sup>* ?w (?v\<lparr>disp := count_against ?d 0 1, picked := [], outstanding := [?c]\<rparr>)"
    by (meson rtranclp.rtrancl_refl rtranclp.rtrancl_into_rtrancl)
  moreover have "place_ok (count_against ?d 0 1) 0 1"
    by (simp add: place_ok_def count_against_def update_load_def choose_at_def pick_def in_turn_def
        world_start_def sample_rule_def Let_def)
  ultimately show ?thesis
    using in_flight_conserved [of "[sample_rule]" _ 0 1] sample_rule_facts by (fastforce simp: Let_def)
qed

end
