(* ===== verification/Route_Table.thy ===== *)
theory Route_Table
  imports Dispatch
begin

text \<open>
  The routing table: \<open>crates/ip-gateway/src/table.rs\<close>, with the rules configured upstreams
  contribute (\<open>crates/ip-config/src/upstream.rs\<close>). The \<open>HashMap\<close> of groups is a map from
  authorities to lists; \<open>sort_by\<close> is a stable sort. The \<open>url\<close> package is outside the repository:
  a parsed url is the record of what its accessors return.
\<close>

section \<open>Configured upstreams\<close>

record url =
  url_host_str :: "string option"
  url_port_or_known_default :: "u16 option"
  url_scheme :: string
  url_path :: string

record socket_addr =
  sa_ip :: ip_addr
  sa_port :: u16

datatype config_error = UpstreamHost api_id | UpstreamPort api_id | ConfigValue core_error

record route_override =
  ro_protocol :: "protocol option"
  ro_host :: "host option"
  ro_port :: "port option"
  ro_path :: "abs_path option"

definition no_override :: route_override where
  "no_override = \<lparr>ro_protocol = None, ro_host = None, ro_port = None, ro_path = None\<rparr>"

record upstream_target =
  ut_url :: url
  ut_weight :: weight

record upstream_config =
  up_id :: api_id
  up_base_url :: url
  up_route :: "route_override option"
  up_weight :: weight
  up_strategy :: strategy
  up_targets :: "upstream_target list"

definition upstream_route_key ::
  "upstream_config \<Rightarrow> socket_addr \<Rightarrow> (config_error, route_key) result" where
  "upstream_route_key u listen =
     (let ov = unwrap_or (up_route u) no_override;
          protocol = unwrap_or (ro_protocol ov) Http in
      rbind (case ro_host ov of
               Some h \<Rightarrow> Ok h
             | None \<Rightarrow> map_err ConfigValue (host_new (ip_fmt (sa_ip listen)))) (\<lambda>h.
      rbind (case ro_port ov of
               Some p \<Rightarrow> Ok p
             | None \<Rightarrow> map_err ConfigValue (port_new (sa_port listen))) (\<lambda>p.
      rbind (case ro_path ov of
               Some a \<Rightarrow> Ok a
             | None \<Rightarrow> map_err ConfigValue (abs_path_new (''/'' @ api_str (up_id u)))) (\<lambda>a.
      Ok (RouteKey (endpoint_new protocol h p a))))))"

definition upstream_endpoint :: "upstream_config \<Rightarrow> url \<Rightarrow> (config_error, endpoint) result" where
  "upstream_endpoint u url =
     rbind (ok_or (url_host_str url) (UpstreamHost (up_id u))) (\<lambda>h.
     rbind (ok_or (url_port_or_known_default url) (UpstreamPort (up_id u))) (\<lambda>p.
     map_err ConfigValue
       (rbind (protocol_from_str (url_scheme url)) (\<lambda>protocol.
        rbind (host_new h) (\<lambda>host.
        rbind (port_new p) (\<lambda>port.
        rbind (abs_path_new (url_path url)) (\<lambda>path.
        Ok (endpoint_new protocol host port path))))))))"

fun upstream_weighted ::
  "upstream_config \<Rightarrow> upstream_target list \<Rightarrow> (config_error, weighted list) result" where
  "upstream_weighted u [] = Ok []"
| "upstream_weighted u (t # ts) =
     rbind (upstream_endpoint u (ut_url t)) (\<lambda>e.
     rbind (upstream_weighted u ts) (\<lambda>ws.
     Ok (weighing e (ut_weight t) # ws)))"

definition upstream_route_target :: "upstream_config \<Rightarrow> (config_error, route_target) result" where
  "upstream_route_target u =
     rbind (upstream_endpoint u (up_base_url u)) (\<lambda>e.
     rbind (upstream_weighted u (up_targets u)) (\<lambda>ws.
     map_err ConfigValue (from_weighted (weighing e (up_weight u) # ws))))"

definition upstream_route_rule ::
  "upstream_config \<Rightarrow> socket_addr \<Rightarrow> (config_error, route_rule) result" where
  "upstream_route_rule u listen =
     rbind (upstream_route_key u listen) (\<lambda>k.
     rbind (upstream_route_target u) (\<lambda>t.
     Ok \<lparr>r_api = up_id u, r_key = k, r_target = t, r_strategy = up_strategy u\<rparr>))"

section \<open>The table\<close>

type_synonym authority = "protocol \<times> host \<times> port"

definition authority :: "endpoint \<Rightarrow> authority" where
  "authority e = (ep_protocol e, ep_host e, ep_port e)"

record planned =
  p_rule :: route_rule
  p_plan :: plan

definition planned_from :: "route_rule \<Rightarrow> planned" where
  "planned_from r = \<lparr>p_rule = r, p_plan = plan_of (target_weighted (r_target r))\<rparr>"

record resolution =
  res_rule :: route_rule
  res_targets :: "weighted list"
  res_plan :: plan

datatype route_error = ReservedPath abs_path | RouteConfig config_error

type_synonym routing_table = "authority \<rightharpoonup> planned list"

definition rule_path :: "route_rule \<Rightarrow> string" where
  "rule_path r = path_str (ep_path (key_endpoint (r_key r)))"

definition rule_authority :: "route_rule \<Rightarrow> authority" where
  "rule_authority r = authority (key_endpoint (r_key r))"

definition push_rule :: "routing_table \<Rightarrow> route_rule \<Rightarrow> routing_table" where
  "push_rule t r =
     t(rule_authority r \<mapsto> unwrap_or (t (rule_authority r)) [] @ [planned_from r])"

definition longest_first :: "planned list \<Rightarrow> planned list" where
  "longest_first ps = sort_key (\<lambda>p. - int (length (rule_path (p_rule p)))) ps"

definition from_rules :: "route_rule list \<Rightarrow> routing_table" where
  "from_rules rules = (\<lambda>a. map_option longest_first (foldl push_rule Map.empty rules a))"

fun add_dynamic :: "route_rule list \<Rightarrow> route_rule list \<Rightarrow> route_rule list" where
  "add_dynamic rules [] = rules"
| "add_dynamic rules (r # rs) =
     add_dynamic (if \<exists>c\<in>set rules. r_key c = r_key r then rules else rules @ [r]) rs"

fun first_reserved :: "route_rule list \<Rightarrow> abs_path option" where
  "first_reserved [] = None"
| "first_reserved (r # rs) =
     (let p = ep_path (key_endpoint (r_key r)) in if is_reserved p then Some p else first_reserved rs)"

definition assemble ::
  "route_rule list \<Rightarrow> route_rule list \<Rightarrow> (route_error, routing_table) result" where
  "assemble configured dynamic =
     (let rules = add_dynamic configured dynamic in
      case first_reserved rules of
        Some p \<Rightarrow> Err (ReservedPath p)
      | None \<Rightarrow> Ok (from_rules rules))"

definition build ::
  "socket_addr \<Rightarrow> upstream_config list \<Rightarrow> route_rule list
   \<Rightarrow> (route_error, routing_table) result" where
  "build listen upstreams dynamic =
     rbind (map_err RouteConfig
       (collect_results (map (\<lambda>u. upstream_route_rule u listen) upstreams))) (\<lambda>configured.
     assemble configured dynamic)"

section \<open>Looking a request up\<close>

definition remainder_of :: "string \<Rightarrow> string \<Rightarrow> string option" where
  "remainder_of rule requested =
     (if rule = ''/'' then Some requested
      else let rule = unwrap_or (strip_suffix rule ''/'') rule in
        if requested = rule then Some []
        else case strip_prefix requested rule of
               Some rest \<Rightarrow> if starts_with rest (CHR ''/'') then Some rest else None
             | None \<Rightarrow> None)"

definition join :: "string \<Rightarrow> string \<Rightarrow> string" where
  "join target remainder =
     (if remainder = [] then target else unwrap_or (strip_suffix target ''/'') target @ remainder)"

fun join_targets :: "string \<Rightarrow> weighted list \<Rightarrow> weighted list option" where
  "join_targets remainder [] = Some []"
| "join_targets remainder (t # ts) =
     (let e = w_endpoint t in
      case ok (abs_path_new (join (path_str (ep_path e)) remainder)) of
        None \<Rightarrow> None
      | Some path \<Rightarrow>
          map_option
            ((#) (weighing (endpoint_new (ep_protocol e) (ep_host e) (ep_port e) path) (w_weight t)))
            (join_targets remainder ts))"

fun resolve_group :: "planned list \<Rightarrow> string \<Rightarrow> resolution option" where
  "resolve_group [] requested = None"
| "resolve_group (p # ps) requested =
     (case remainder_of (rule_path (p_rule p)) requested of
        None \<Rightarrow> resolve_group ps requested
      | Some remainder \<Rightarrow>
          map_option (\<lambda>ts. \<lparr>res_rule = p_rule p, res_targets = ts, res_plan = p_plan p\<rparr>)
            (join_targets remainder (target_weighted (r_target (p_rule p)))))"

definition resolve :: "routing_table \<Rightarrow> route_key \<Rightarrow> resolution option" where
  "resolve t k =
     (case t (authority (key_endpoint k)) of
        None \<Rightarrow> None
      | Some ps \<Rightarrow> resolve_group ps (path_str (ep_path (key_endpoint k))))"

definition split_authority :: "string \<Rightarrow> u16 \<Rightarrow> string \<times> u16" where
  "split_authority raw dflt =
     (let parse = (\<lambda>s. map_option (of_nat :: nat \<Rightarrow> u16) (parse_unsigned 16 s)) in
      case Option.bind (strip_prefix raw ''['') (\<lambda>rest. split_once rest (CHR '']'')) of
        Some (inside, after) \<Rightarrow>
          (inside, unwrap_or (Option.bind (strip_prefix after '':'') parse) dflt)
      | None \<Rightarrow>
          (case rsplit_once raw (CHR '':'') of
             Some (name, port) \<Rightarrow>
               if CHR '':'' \<notin> set name then (name, unwrap_or (parse port) dflt) else (raw, dflt)
           | None \<Rightarrow> (raw, dflt)))"

definition request_key :: "protocol \<Rightarrow> string \<Rightarrow> u16 \<Rightarrow> string \<Rightarrow> (core_error, route_key) result" where
  "request_key protocol host listen_port path =
     (let (host, port) = split_authority host listen_port in
      rbind (host_new host) (\<lambda>h.
      rbind (port_new port) (\<lambda>p.
      rbind (abs_path_new path) (\<lambda>a.
      Ok (RouteKey (endpoint_new protocol h p a))))))"

section \<open>What a rule covers\<close>

definition norm_path :: "string \<Rightarrow> string" where
  "norm_path rule = (if rule = ''/'' then [] else unwrap_or (strip_suffix rule ''/'') rule)"

definition covers :: "string \<Rightarrow> string \<Rightarrow> bool" where
  "covers rule requested =
     (\<exists>rest. requested = norm_path rule @ rest \<and> (rest = [] \<or> starts_with rest (CHR ''/'')))"

lemma norm_path_cases:
  "rule = norm_path rule @ ''/'' \<or> (rule = norm_path rule \<and> \<not> ends_with rule (CHR ''/''))"
proof (cases "strip_suffix rule ''/''")
  case None
  moreover from None have "\<not> ends_with rule (CHR ''/'')"
    by (auto simp: strip_suffix_None_iff ends_with_iff)
  ultimately show ?thesis
    by (cases "rule = ''/''") (auto simp: norm_path_def)
next
  case (Some r)
  moreover from Some have "rule = r @ ''/''"
    by (simp add: strip_suffix_Some_iff)
  ultimately show ?thesis
    by (cases "rule = ''/''") (simp_all add: norm_path_def)
qed

lemma norm_path_length:
  "(length rule = length (norm_path rule) + 1 \<and> rule = norm_path rule @ ''/'')
   \<or> (length rule = length (norm_path rule) \<and> rule = norm_path rule \<and> \<not> ends_with rule (CHR ''/''))"
proof -
  consider "rule = norm_path rule @ ''/''" | "rule = norm_path rule" "\<not> ends_with rule (CHR ''/'')"
    using norm_path_cases by blast
  then show ?thesis
  proof cases
    case 1
    then have "length rule = length (norm_path rule @ ''/'')" by (rule arg_cong)
    also have "\<dots> = length (norm_path rule) + 1" by simp
    finally show ?thesis using 1 by blast
  next
    case 2
    then have "length rule = length (norm_path rule)" by (intro arg_cong [of _ _ length])
    then show ?thesis using 2 by blast
  qed
qed

lemma remainder_of_Some_iff:
  assumes "starts_with req (CHR ''/'')"
  shows "remainder_of rule req = Some rest
    \<longleftrightarrow> req = norm_path rule @ rest \<and> (rest = [] \<or> starts_with rest (CHR ''/''))"
proof (cases "rule = ''/''")
  case True
  then show ?thesis using assms by (auto simp: remainder_of_def norm_path_def)
next
  case False
  let ?n = "unwrap_or (strip_suffix rule ''/'') rule"
  have "remainder_of rule req = Some rest \<longleftrightarrow>
      (if req = ?n then rest = [] else req = ?n @ rest \<and> starts_with rest (CHR ''/''))"
    using False by (auto simp: remainder_of_def Let_def strip_prefix_Some_iff split: option.splits)
  then show ?thesis
    using False by (auto simp: norm_path_def starts_with_def)
qed

lemma covers_iff:
  "starts_with req (CHR ''/'') \<Longrightarrow> covers rule req \<longleftrightarrow> remainder_of rule req \<noteq> None"
  by (auto simp: covers_def remainder_of_Some_iff)

text \<open>
  Of two rules that cover a request, the one written longer is the more specific one; two
  written alike in length are the same.
\<close>

lemma prefix_len: "n1 @ r1 = n2 @ r2 \<Longrightarrow> length n1 \<le> length n2 \<Longrightarrow> \<exists>m. n2 = n1 @ m \<and> r1 = m @ r2"
  by (auto simp: append_eq_append_conv2)

lemma covers_longer:
  assumes "covers a req" "covers b req" "length a \<le> length b"
  shows "length (norm_path a) \<le> length (norm_path b)"
proof (rule ccontr)
  assume "\<not> ?thesis"
  then have lt: "length (norm_path b) < length (norm_path a)" by simp
  have la: "length a = length (norm_path a) + 1 \<or> (a = norm_path a \<and> \<not> ends_with a (CHR ''/''))"
    using norm_path_length [of a] by blast
  have lb: "length b \<le> length (norm_path b) + 1"
    using norm_path_length [of b] by linarith
  have short: "a = norm_path a \<and> \<not> ends_with a (CHR ''/'')"
    using la lb lt assms(3) by linarith
  then have "length (norm_path a) = length (norm_path b) + 1"
    using lb lt assms(3) norm_path_length [of a] by linarith
  moreover obtain ra rb where ra: "req = norm_path a @ ra" and rb: "req = norm_path b @ rb"
    and "rb = [] \<or> starts_with rb (CHR ''/'')"
    using assms(1,2) unfolding covers_def by blast
  moreover obtain m where m: "norm_path a = norm_path b @ m" "rb = m @ ra"
    using prefix_len [of "norm_path b" rb "norm_path a" ra] ra rb lt by auto
  ultimately have "length m = 1" "starts_with m (CHR ''/'')"
    by (auto simp: starts_with_def split: list.splits)
  then have "ends_with (norm_path a) (CHR ''/'')"
    using m(1) by (auto simp: ends_with_iff starts_with_iff)
  then show False
    using short by simp
qed

lemma covers_same_length:
  assumes "covers a req" "covers b req" "length a = length b"
  shows "a = b"
proof -
  have "length (norm_path a) = length (norm_path b)"
    using covers_longer [OF assms(1,2)] covers_longer [OF assms(2,1)] assms(3) by simp
  moreover obtain r1 r2 where "norm_path a @ r1 = norm_path b @ r2"
    using assms(1,2) by (metis covers_def)
  ultimately have "norm_path a = norm_path b" by simp
  then show ?thesis
    using norm_path_length [of a] norm_path_length [of b] assms(3) by (metis n_not_Suc_n Suc_eq_plus1)
qed

section \<open>The groups of a table\<close>

lemma foldl_push_rule:
  "foldl push_rule t rules a =
     (let g = filter (\<lambda>r. rule_authority r = a) rules in
      if g = [] then t a else Some (unwrap_or (t a) [] @ map planned_from g))"
proof (induction rules arbitrary: t)
  case (Cons r rules)
  then show ?case
    by (auto simp: push_rule_def Let_def)
qed simp

lemma from_rules_group:
  "from_rules rules a =
     (let g = filter (\<lambda>r. rule_authority r = a) rules in
      if g = [] then None else Some (longest_first (map planned_from g)))"
  by (simp add: from_rules_def foldl_push_rule Let_def)

lemma resolve_group_find:
  "resolve_group ps req =
     (case List.find (\<lambda>p. remainder_of (rule_path (p_rule p)) req \<noteq> None) ps of
        None \<Rightarrow> None
      | Some p \<Rightarrow> map_option (\<lambda>ts. \<lparr>res_rule = p_rule p, res_targets = ts, res_plan = p_plan p\<rparr>)
          (join_targets (the (remainder_of (rule_path (p_rule p)) req))
             (target_weighted (r_target (p_rule p)))))"
  by (induction ps) (auto split: option.splits)

lemma find_sort_key:
  assumes "List.find P (sort_key f xs) = Some x"
  shows "x \<in> set xs" "P x" "y \<in> set xs \<Longrightarrow> P y \<Longrightarrow> f x \<le> f y"
proof -
  show "x \<in> set xs" "P x"
    using find_member [OF assms] by auto
  show "f x \<le> f y" if "y \<in> set xs" "P y"
    using find_sorted [OF sorted_sort_key assms, of y] that by simp
qed

text \<open>The rules of a table that cover a request.\<close>

definition matching :: "route_rule list \<Rightarrow> route_key \<Rightarrow> route_rule list" where
  "matching rules k =
     filter (\<lambda>r. rule_authority r = authority (key_endpoint k)
                 \<and> remainder_of (rule_path r) (path_str (ep_path (key_endpoint k))) \<noteq> None) rules"

text \<open>The rule a lookup stops at.\<close>

definition stopped_at :: "route_rule list \<Rightarrow> route_key \<Rightarrow> route_rule option" where
  "stopped_at rules k =
     map_option p_rule (List.find (\<lambda>p. remainder_of (rule_path (p_rule p)) (path_str (ep_path (key_endpoint k))) \<noteq> None)
       (longest_first (map planned_from (filter (\<lambda>r. rule_authority r = authority (key_endpoint k)) rules))))"

lemma p_rule_planned [simp]: "p_rule (planned_from r) = r" "p_plan (planned_from r) = plan_of (target_weighted (r_target r))"
  by (simp_all add: planned_from_def)

lemma resolve_from_rules:
  "resolve (from_rules rules) k =
     (case stopped_at rules k of
        None \<Rightarrow> None
      | Some r \<Rightarrow> map_option (\<lambda>ts. \<lparr>res_rule = r, res_targets = ts, res_plan = plan_of (target_weighted (r_target r))\<rparr>)
          (join_targets (the (remainder_of (rule_path r) (path_str (ep_path (key_endpoint k)))))
             (target_weighted (r_target r))))"
proof -
  let ?req = "path_str (ep_path (key_endpoint k))"
  let ?g = "filter (\<lambda>r. rule_authority r = authority (key_endpoint k)) rules"
  let ?ps = "longest_first (map planned_from ?g)"
  have planned: "p_plan p = plan_of (target_weighted (r_target (p_rule p)))"
    if "List.find P ?ps = Some p" for P p
    using find_member [OF that] by (auto simp: longest_first_def)
  show ?thesis
    by (auto simp: resolve_def from_rules_group Let_def resolve_group_find stopped_at_def longest_first_def
        split: option.splits dest: planned [unfolded longest_first_def])
qed

lemma stopped_at_Some:
  assumes "stopped_at rules k = Some r"
  shows "r \<in> set (matching rules k)"
    and "q \<in> set (matching rules k) \<Longrightarrow> length (rule_path q) \<le> length (rule_path r)"
proof -
  let ?P = "\<lambda>p. remainder_of (rule_path (p_rule p)) (path_str (ep_path (key_endpoint k))) \<noteq> None"
  let ?ps = "map planned_from (filter (\<lambda>r. rule_authority r = authority (key_endpoint k)) rules)"
  obtain p where p: "List.find ?P (sort_key (\<lambda>p. - int (length (rule_path (p_rule p)))) ?ps) = Some p" "p_rule p = r"
    using assms by (auto simp: stopped_at_def longest_first_def)
  note found = find_sort_key [OF p(1)]
  show "r \<in> set (matching rules k)"
    using found(1,2) p(2) by (auto simp: matching_def)
  show "length (rule_path q) \<le> length (rule_path r)" if "q \<in> set (matching rules k)"
    using found(3) [of "planned_from q"] that p(2) by (auto simp: matching_def)
qed

lemma stopped_at_None: "stopped_at rules k = None \<longleftrightarrow> matching rules k = []"
  by (auto simp: stopped_at_def matching_def longest_first_def find_None_iff filter_empty_conv)

section \<open>Where a covered request is sent\<close>

text \<open>An endpoint behind a rule, with the part of the request path the rule did not claim.\<close>

definition extended :: "string \<Rightarrow> weighted \<Rightarrow> weighted" where
  "extended rest t =
     t\<lparr>w_endpoint := (w_endpoint t)\<lparr>ep_path := AbsPath (join (path_str (ep_path (w_endpoint t))) rest)\<rparr>\<rparr>"

lemma join_ok:
  assumes "path_ok (AbsPath target)" "list_all path_char rest" "rest = [] \<or> starts_with rest (CHR ''/'')"
  shows "path_ok (AbsPath (join target rest)) \<longleftrightarrow> length (join target rest) \<le> 2048"
proof (cases "rest = []")
  case True
  then show ?thesis using assms(1) by (simp add: join_def path_ok_def)
next
  case False
  let ?base = "unwrap_or (strip_suffix target ''/'') target"
  have base: "target = ?base \<or> target = ?base @ ''/''"
    by (cases "strip_suffix target ''/''") (auto simp: strip_suffix_Some_iff)
  have "list_all path_char ?base"
    using assms(1) base by (metis abs_path.sel list_all_append path_ok_def)
  moreover have "starts_with (?base @ rest) (CHR ''/'')"
  proof (cases ?base)
    case Nil
    then show ?thesis using assms(3) False by simp
  next
    case (Cons c cs)
    then show ?thesis using assms(1) base by (auto simp: path_ok_def starts_with_iff)
  qed
  ultimately show ?thesis
    using False assms(2) by (simp add: path_ok_def join_def)
qed

lemma join_targets_extended:
  "join_targets rest ts =
     (if \<forall>t\<in>set ts. path_ok (AbsPath (join (path_str (ep_path (w_endpoint t))) rest))
      then Some (map (extended rest) ts) else None)"
proof (induction ts)
  case (Cons t ts)
  have ext: "weighing (endpoint_new (ep_protocol (w_endpoint t)) (ep_host (w_endpoint t)) (ep_port (w_endpoint t))
      (AbsPath (join (path_str (ep_path (w_endpoint t))) rest))) (w_weight t) = extended rest t"
    by (simp add: weighing_def endpoint_new_def extended_def)
  have new: "ok (abs_path_new raw) = (if path_ok (AbsPath raw) then Some (AbsPath raw) else None)" for raw
  proof (cases "ok (abs_path_new raw)")
    case None
    moreover have "path_ok (AbsPath raw) \<Longrightarrow> ok (abs_path_new raw) = Some (AbsPath raw)"
      by (simp add: ok_Some_iff)
    ultimately show ?thesis by auto
  next
    case (Some p)
    then show ?thesis by (auto simp: ok_Some_iff)
  qed
  show ?case
    using Cons ext by (simp add: new Let_def)
qed simp

definition candidate :: "route_rule list \<Rightarrow> route_key \<Rightarrow> route_rule \<Rightarrow> bool" where
  "candidate rules k r =
     (r \<in> set rules \<and> rule_authority r = authority (key_endpoint k)
      \<and> covers (rule_path r) (path_str (ep_path (key_endpoint k))))"

definition most_specific :: "route_rule list \<Rightarrow> route_key \<Rightarrow> route_rule \<Rightarrow> bool" where
  "most_specific rules k r =
     (candidate rules k r
      \<and> (\<forall>q. candidate rules k q \<longrightarrow> length (norm_path (rule_path q)) \<le> length (norm_path (rule_path r))))"

lemma matching_candidate:
  "path_ok (ep_path (key_endpoint k)) \<Longrightarrow> r \<in> set (matching rules k) \<longleftrightarrow> candidate rules k r"
  by (auto simp: matching_def candidate_def covers_iff path_ok_def)

lemma stopped_at_most_specific:
  assumes "path_ok (ep_path (key_endpoint k))" "stopped_at rules k = Some r"
  shows "most_specific rules k r"
  using stopped_at_Some [OF assms(2)] matching_candidate [OF assms(1)]
  by (auto simp: most_specific_def candidate_def intro: covers_longer)

section \<open>Assembling a table\<close>

definition in_table :: "routing_table \<Rightarrow> route_rule \<Rightarrow> bool" where
  "in_table t r = (\<exists>a ps. t a = Some ps \<and> r \<in> p_rule ` set ps)"

lemma in_table_from_rules: "in_table (from_rules rules) r \<longleftrightarrow> r \<in> set rules"
proof
  assume "in_table (from_rules rules) r"
  then show "r \<in> set rules"
    by (auto simp: in_table_def from_rules_group Let_def longest_first_def split: if_splits)
next
  assume "r \<in> set rules"
  then show "in_table (from_rules rules) r"
    unfolding in_table_def
    by (intro exI [of _ "rule_authority r"])
      (force simp: from_rules_group Let_def longest_first_def filter_empty_conv image_iff)
qed

text \<open>The stored rules that stand: the first under each key no configured rule claims.\<close>

fun standing :: "route_key set \<Rightarrow> route_rule list \<Rightarrow> route_rule list" where
  "standing claimed [] = []"
| "standing claimed (r # rs) =
     (if r_key r \<in> claimed then standing claimed rs else r # standing (insert (r_key r) claimed) rs)"

lemma add_dynamic_standing: "add_dynamic rules ds = rules @ standing (r_key ` set rules) ds"
proof (induction ds arbitrary: rules)
  case (Cons d ds)
  have "(\<exists>c\<in>set rules. r_key c = r_key d) \<longleftrightarrow> r_key d \<in> r_key ` set rules"
    unfolding image_iff by metis
  then show ?case
    using Cons by (simp add: insert_commute)
qed simp

lemma standing_member: "r \<in> set (standing K ds) \<Longrightarrow> r \<in> set ds \<and> r_key r \<notin> K"
  by (induction K ds rule: standing.induct) (auto split: if_splits)

lemma standing_first: "r \<in> set (standing K ds) \<Longrightarrow> List.find (\<lambda>d. r_key d = r_key r) ds = Some r"
proof (induction K ds rule: standing.induct)
  case (2 K d ds)
  show ?case
  proof (cases "r_key d \<in> K")
    case True
    then have "r_key d \<noteq> r_key r"
      using 2 standing_member [of r K ds] by auto
    then show ?thesis using 2 True by simp
  next
    case False
    then show ?thesis
      using 2 standing_member [of r "insert (r_key d) K" ds] by auto
  qed
qed simp

lemma standing_distinct: "distinct (map r_key (standing K ds))"
proof (induction K ds rule: standing.induct)
  case (2 K r rs)
  have "r_key r \<noteq> r_key q" if "q \<in> set (standing (insert (r_key r) K) rs)" for q
    using standing_member [OF that] by auto
  then show ?case using 2 by auto
qed simp

lemma standing_complete:
  "d \<in> set ds \<Longrightarrow> r_key d \<notin> K \<Longrightarrow> \<exists>r\<in>set (standing K ds). r_key r = r_key d"
proof (induction K ds rule: standing.induct)
  case (2 K r rs)
  then show ?case by (cases "r_key d = r_key r") auto
qed simp

lemma first_reserved_None: "first_reserved rules = None \<longleftrightarrow> (\<forall>r\<in>set rules. \<not> is_reserved (ep_path (key_endpoint (r_key r))))"
  by (induction rules) (auto simp: Let_def)

lemma assemble_Ok_iff:
  "assemble cs ds = Ok t \<longleftrightarrow>
     (\<forall>r\<in>set (cs @ standing (r_key ` set cs) ds). \<not> is_reserved (ep_path (key_endpoint (r_key r))))
     \<and> t = from_rules (cs @ standing (r_key ` set cs) ds)"
proof -
  let ?rules = "cs @ standing (r_key ` set cs) ds"
  have "assemble cs ds = (case first_reserved ?rules of Some p \<Rightarrow> Err (ReservedPath p) | None \<Rightarrow> Ok (from_rules ?rules))"
    by (simp only: assemble_def Let_def add_dynamic_standing)
  then show ?thesis
    using first_reserved_None [of ?rules] by (cases "first_reserved ?rules") auto
qed

lemma reserved_covered:
  assumes "is_reserved (AbsPath req)" "covers rule req" "starts_with rule (CHR ''/'')"
    and "\<not> is_reserved (AbsPath rule)"
  shows "rule = ''/''"
proof (rule ccontr)
  assume slash: "rule \<noteq> ''/''"
  obtain r where r: "req = ''/_ip'' @ r" "r = [] \<or> starts_with r (CHR ''/'')"
    using assms(1) by (auto simp: is_reserved_def RESERVED_PATH_PREFIX_def strip_prefix_Some_iff split: option.splits)
  obtain rest where rest: "req = norm_path rule @ rest" "rest = [] \<or> starts_with rest (CHR ''/'')"
    using assms(2) unfolding covers_def by blast
  have n: "norm_path rule \<noteq> []"
  proof
    assume "norm_path rule = []"
    then show False
      using norm_path_cases [of rule] slash assms(3) by (auto simp: starts_with_iff)
  qed
  show False
  proof (cases "length (norm_path rule) < 4")
    case True
    then obtain m where m: "''/_ip'' = norm_path rule @ m" "rest = m @ r"
      using prefix_len [of "norm_path rule" rest "''/_ip''" r] rest(1) r(1) by auto
    then have "length (''/_ip'') = length (norm_path rule) + length m"
      by (metis length_append)
    then have "m \<noteq> []" using True by auto
    then have "starts_with m (CHR ''/'')"
      using m(2) rest(2) by (cases m) (auto simp: starts_with_def)
    then show False
      using m(1) n by (auto simp: starts_with_iff Cons_eq_append_conv)
  next
    case False
    then obtain m where m: "norm_path rule = ''/_ip'' @ m" "r = m @ rest"
      using prefix_len [of "''/_ip''" r "norm_path rule" rest] rest(1) r(1) by auto
    then have "m = [] \<or> starts_with m (CHR ''/'')"
      using r(2) by (cases m) (auto simp: starts_with_def)
    then have "is_reserved (AbsPath rule)"
      using m(1) norm_path_cases [of rule]
      by (auto simp: is_reserved_def RESERVED_PATH_PREFIX_def strip_prefix_Some_iff starts_with_iff split: option.splits)
    then show False using assms(4) by simp
  qed
qed

lemma stopped_at_join:
  assumes "path_ok (ep_path (key_endpoint k))" "rule_ok r" "candidate rules k r"
    and "rest = the (remainder_of (rule_path r) (path_str (ep_path (key_endpoint k))))"
    and "t \<in> set (target_weighted (r_target r))"
  shows "path_ok (AbsPath (join (path_str (ep_path (w_endpoint t))) rest))
    \<longleftrightarrow> length (join (path_str (ep_path (w_endpoint t))) rest) \<le> 2048"
proof -
  let ?req = "path_str (ep_path (key_endpoint k))"
  have slash: "starts_with ?req (CHR ''/'')" and chars: "list_all path_char ?req"
    using assms(1) by (auto simp: path_ok_def)
  have "remainder_of (rule_path r) ?req = Some rest"
    using assms(3,4) covers_iff [OF slash] by (auto simp: candidate_def)
  then have "?req = norm_path (rule_path r) @ rest" "rest = [] \<or> starts_with rest (CHR ''/'')"
    using remainder_of_Some_iff [OF slash] by auto
  moreover then have "list_all path_char rest"
    using chars by (metis list_all_append)
  moreover have "path_ok (AbsPath (path_str (ep_path (w_endpoint t))))"
    using assms(2,5) by (auto simp: rule_ok_def target_ok_def endpoint_ok_def)
  ultimately show ?thesis by (intro join_ok)
qed

text \<open>A concrete rule, for the witnesses.\<close>

definition sample_route :: "string \<Rightarrow> u16 \<Rightarrow> route_rule" where
  "sample_route path n =
     \<lparr>r_api = ApiId ''chat'', r_key = RouteKey ((sample_endpoint 80)\<lparr>ep_path := AbsPath path\<rparr>),
      r_target = RouteTarget [weighted_new (sample_endpoint n)], r_strategy = RoundRobin\<rparr>"

lemma sample_route_simps [simp]:
  "rule_path (sample_route path n) = path" "r_key (sample_route path n) = RouteKey ((sample_endpoint 80)\<lparr>ep_path := AbsPath path\<rparr>)"
  "target_weighted (r_target (sample_route path n)) = [weighted_new (sample_endpoint n)]"
  "rule_authority (sample_route path n) = authority (sample_endpoint 80)"
  "authority ((sample_endpoint 80)\<lparr>ep_path := p\<rparr>) = authority (sample_endpoint 80)"
  by (simp_all add: sample_route_def rule_path_def rule_authority_def authority_def)

lemma sample_route_ok: "path_ok (AbsPath path) \<Longrightarrow> n \<noteq> 0 \<Longrightarrow> rule_ok (sample_route path n)"
  using sample_endpoint_ok [of 80] sample_endpoint_ok [of n]
  by (simp add: sample_route_def rule_ok_def target_ok_def endpoint_ok_def weighted_new_def
      id_ok_def id_char_def ascii_alphanumeric_def ascii_digit_def ascii_upper_def ascii_lower_def code_def)

lemma sample_paths_ok:
  "path_ok (AbsPath ''/'')" "path_ok (AbsPath ''/chat'')" "path_ok (AbsPath ''/chat/v1'')" "path_ok (AbsPath ''/_ip'')"
  by (simp_all add: path_ok_def path_char_def ascii_graphic_def starts_with_def code_def)

section \<open>Properties\<close>

text \<open>
  C3: a lookup is the longest match. It returns the most specific rule whose protocol,
  host and port are the request's and whose path covers the request's path on a segment
  boundary, with every target extended by the part of the path the rule did not claim; it
  returns nothing only when no rule covers the request, or when the most specific one has a
  target whose extended path would be longer than a path may be.
\<close>

theorem resolve_most_specific:
  assumes "\<forall>r\<in>set rules. rule_ok r" "path_ok (ep_path (key_endpoint k))"
  shows "case resolve (from_rules rules) k of
      Some res \<Rightarrow> most_specific rules k (res_rule res)
        \<and> (\<exists>rest. path_str (ep_path (key_endpoint k)) = norm_path (rule_path (res_rule res)) @ rest
              \<and> res_targets res = map (extended rest) (target_weighted (r_target (res_rule res))))
    | None \<Rightarrow> (\<forall>r. \<not> candidate rules k r)
        \<or> (\<exists>r rest. most_specific rules k r
              \<and> path_str (ep_path (key_endpoint k)) = norm_path (rule_path r) @ rest
              \<and> (\<exists>t\<in>set (target_weighted (r_target r)).
                    2048 < length (join (path_str (ep_path (w_endpoint t))) rest)))"
proof (cases "stopped_at rules k")
  case None
  then have "\<forall>r. \<not> candidate rules k r"
    by (simp add: stopped_at_None matching_candidate [OF assms(2), symmetric])
  then show ?thesis using None by (simp add: resolve_from_rules)
next
  case (Some r)
  let ?req = "path_str (ep_path (key_endpoint k))"
  let ?rest = "the (remainder_of (rule_path r) ?req)"
  have best: "most_specific rules k r"
    by (rule stopped_at_most_specific [OF assms(2) Some])
  then have cand: "candidate rules k r" and ok: "rule_ok r"
    using assms(1) by (auto simp: most_specific_def candidate_def)
  have slash: "starts_with ?req (CHR ''/'')"
    using assms(2) by (simp add: path_ok_def)
  have "remainder_of (rule_path r) ?req = Some ?rest"
    using cand covers_iff [OF slash] by (auto simp: candidate_def)
  then have req: "?req = norm_path (rule_path r) @ ?rest"
    using remainder_of_Some_iff [OF slash] by blast
  show ?thesis
  proof (cases "join_targets ?rest (target_weighted (r_target r))")
    case None
    then have "\<exists>t\<in>set (target_weighted (r_target r)). 2048 < length (join (path_str (ep_path (w_endpoint t))) ?rest)"
      using stopped_at_join [OF assms(2) ok cand refl]
      by (auto simp: join_targets_extended not_le split: if_splits)
    then show ?thesis
      using None Some best req by (auto simp: resolve_from_rules)
  next
    case (Some ts)
    then have "ts = map (extended ?rest) (target_weighted (r_target r))"
      by (simp add: join_targets_extended split: if_splits)
    then show ?thesis
      using Some \<open>stopped_at rules k = Some r\<close> best req by (auto simp: resolve_from_rules)
  qed
qed

theorem resolve_most_specific_witness:
  "let rules = [sample_route ''/'' 81, sample_route ''/chat'' 82];
       k = RouteKey ((sample_endpoint 80)\<lparr>ep_path := AbsPath ''/chat/v1''\<rparr>)
   in \<exists>res. resolve (from_rules rules) k = Some res \<and> most_specific rules k (res_rule res)
        \<and> rule_path (res_rule res) = ''/chat''"
proof -
  let ?rules = "[sample_route ''/'' 81, sample_route ''/chat'' 82]"
  let ?k = "RouteKey ((sample_endpoint 80)\<lparr>ep_path := AbsPath ''/chat/v1''\<rparr>)"
  have stop: "stopped_at ?rules ?k = Some (sample_route ''/chat'' 82)"
    by (simp add: stopped_at_def longest_first_def remainder_of_def Let_def strip_suffix_def starts_with_def)
  have "\<exists>res. resolve (from_rules ?rules) ?k = Some res \<and> res_rule res = sample_route ''/chat'' 82"
    unfolding resolve_from_rules stop
    by (simp add: join_targets_extended weighted_new_def sample_endpoint_def
        join_def remainder_of_def Let_def strip_suffix_def starts_with_def path_ok_def path_char_def
        ascii_graphic_def code_def)
  then show ?thesis
    using resolve_most_specific [of ?rules ?k] sample_paths_ok by (auto simp: sample_route_ok)
qed



text \<open>
  C5: configuration wins. An assembled table holds every configured rule, and of the stored
  rules exactly the first under each key no configured rule claims; and nothing in it lies
  under the path the gateway keeps for itself.
\<close>

theorem assemble_config_wins:
  assumes "assemble configured dynamic = Ok t"
  shows "(\<forall>r\<in>set configured. in_table t r)
    \<and> (\<forall>r. in_table t r \<longrightarrow> r \<notin> set configured \<longrightarrow> r_key r \<notin> r_key ` set configured
          \<and> List.find (\<lambda>d. r_key d = r_key r) dynamic = Some r)
    \<and> (\<forall>d\<in>set dynamic. \<exists>r. in_table t r \<and> r_key r = r_key d)
    \<and> (\<forall>r. in_table t r \<longrightarrow> \<not> is_reserved (ep_path (key_endpoint (r_key r))))"
proof -
  let ?s = "standing (r_key ` set configured) dynamic"
  have t: "t = from_rules (configured @ ?s)"
    and clear: "\<forall>r\<in>set (configured @ ?s). \<not> is_reserved (ep_path (key_endpoint (r_key r)))"
    using assms by (auto simp: assemble_Ok_iff)
  have mem: "in_table t r \<longleftrightarrow> r \<in> set configured \<or> r \<in> set ?s" for r
    by (simp add: t in_table_from_rules)
  have kept: "\<exists>r. in_table t r \<and> r_key r = r_key d" if "d \<in> set dynamic" for d
  proof (cases "r_key d \<in> r_key ` set configured")
    case True
    then obtain c where "c \<in> set configured" "r_key c = r_key d" by (auto simp: image_iff)
    then show ?thesis using mem by blast
  next
    case False
    then show ?thesis using standing_complete [OF that] mem by blast
  qed
  have stored: "r_key r \<notin> r_key ` set configured \<and> List.find (\<lambda>d. r_key d = r_key r) dynamic = Some r"
    if "in_table t r" "r \<notin> set configured" for r
    using that mem standing_member [of r] standing_first [of r] by blast
  show ?thesis
  proof (intro conjI)
    show "\<forall>r\<in>set configured. in_table t r" using mem by blast
    show "\<forall>r. in_table t r \<longrightarrow> r \<notin> set configured \<longrightarrow> r_key r \<notin> r_key ` set configured
        \<and> List.find (\<lambda>d. r_key d = r_key r) dynamic = Some r"
      using stored by blast
    show "\<forall>d\<in>set dynamic. \<exists>r. in_table t r \<and> r_key r = r_key d" using kept by blast
    show "\<forall>r. in_table t r \<longrightarrow> \<not> is_reserved (ep_path (key_endpoint (r_key r)))"
      using mem clear by auto
  qed
qed

theorem assemble_config_wins_witness:
  "\<exists>t. assemble [sample_route ''/chat'' 81] [sample_route ''/chat'' 82, sample_route ''/'' 83] = Ok t
     \<and> in_table t (sample_route ''/chat'' 81) \<and> \<not> in_table t (sample_route ''/chat'' 82)"
proof -
  let ?c = "[sample_route ''/chat'' 81]" and ?d = "[sample_route ''/chat'' 82, sample_route ''/'' 83]"
  have "\<exists>t. assemble ?c ?d = Ok t"
    by (simp add: assemble_Ok_iff is_reserved_def RESERVED_PATH_PREFIX_def sample_endpoint_def)
  then obtain t where t: "assemble ?c ?d = Ok t" ..
  have "sample_route ''/chat'' 82 \<notin> set ?c"
    by (simp add: sample_route_def weighted_new_def sample_endpoint_def)
  then show ?thesis
    using assemble_config_wins [OF t] t by auto
qed

text \<open>
  C6: no stored or configured rule takes the gateway's own endpoints over. A request under
  the reserved prefix is matched by the catch-all rule \<open>/\<close> at most.
\<close>

theorem reserved_paths_kept:
  assumes "assemble configured dynamic = Ok t" "\<forall>r\<in>set configured \<union> set dynamic. rule_ok r"
    and "path_ok (ep_path (key_endpoint k))" "is_reserved (ep_path (key_endpoint k))"
    and "resolve t k = Some res"
  shows "rule_path (res_rule res) = ''/''"
proof -
  let ?rules = "configured @ standing (r_key ` set configured) dynamic"
  have t: "t = from_rules ?rules" and clear: "\<forall>r\<in>set ?rules. \<not> is_reserved (ep_path (key_endpoint (r_key r)))"
    using assms(1) by (auto simp: assemble_Ok_iff)
  obtain r where stop: "stopped_at ?rules k = Some r" and res: "res_rule res = r"
    using assms(5) unfolding t resolve_from_rules by (auto split: option.splits)
  have cand: "candidate ?rules k r"
    using stopped_at_most_specific [OF assms(3) stop] by (simp add: most_specific_def)
  then have "rule_ok r"
    using assms(2) standing_member by (auto simp: candidate_def)
  then have "starts_with (rule_path r) (CHR ''/'')"
    by (simp add: rule_ok_def endpoint_ok_def path_ok_def rule_path_def)
  moreover have "\<not> is_reserved (AbsPath (rule_path r))"
    using clear cand by (auto simp: candidate_def rule_path_def)
  ultimately show ?thesis
    using reserved_covered [of "path_str (ep_path (key_endpoint k))" "rule_path r"] assms(4) cand res
    by (simp add: candidate_def)
qed

theorem reserved_paths_kept_witness:
  "\<exists>t res. assemble [sample_route ''/'' 81] [] = Ok t
     \<and> resolve t (RouteKey ((sample_endpoint 80)\<lparr>ep_path := AbsPath ''/_ip''\<rparr>)) = Some res
     \<and> rule_path (res_rule res) = ''/''"
proof -
  let ?rules = "[sample_route ''/'' 81]" and ?k = "RouteKey ((sample_endpoint 80)\<lparr>ep_path := AbsPath ''/_ip''\<rparr>)"
  have t: "assemble ?rules [] = Ok (from_rules ?rules)"
    by (simp add: assemble_Ok_iff is_reserved_def RESERVED_PATH_PREFIX_def)
  have "stopped_at ?rules ?k = Some (sample_route ''/'' 81)"
    by (simp add: stopped_at_def longest_first_def remainder_of_def)
  then have "\<exists>res. resolve (from_rules ?rules) ?k = Some res"
    by (simp add: resolve_from_rules join_targets_extended weighted_new_def sample_endpoint_def
        join_def remainder_of_def Let_def strip_suffix_def starts_with_def path_ok_def path_char_def
        ascii_graphic_def code_def)
  then obtain res where res: "resolve (from_rules ?rules) ?k = Some res" ..
  have reserved: "is_reserved (AbsPath ''/_ip'')"
    by (simp add: is_reserved_def RESERVED_PATH_PREFIX_def)
  show ?thesis
    using reserved_paths_kept [OF t, of ?k res] res t reserved sample_paths_ok by (auto simp: sample_route_ok)
qed

lemma split_authority_plain:
  assumes "host_ok h" "CHR '':'' \<notin> set (host_str h)"
  shows "split_authority (host_str h @ '':'' @ show_nat (unat (p :: u16))) d = (host_str h, p)"
    and "split_authority (host_str h) d = (host_str h, d)"
proof -
  have no: "strip_prefix (host_str h @ r) ''['' = None" if "r = [] \<or> starts_with r (CHR '':'')" for r
  proof (rule ccontr)
    assume "strip_prefix (host_str h @ r) ''['' \<noteq> None"
    then obtain x where "host_str h @ r = ''['' @ x" by (auto simp: strip_prefix_Some_iff)
    then show False
      using host_no_sep(2) [OF assms(1)] that by (cases "host_str h") (auto simp: starts_with_def)
  qed
  have "rsplit_once (host_str h @ CHR '':'' # show_nat (unat p)) (CHR '':'') = Some (host_str h, show_nat (unat p))"
    by (simp add: rsplit_once_Some_iff digit_text_no_sep)
  moreover have "parse_unsigned 16 (show_nat (unat p)) = Some (unat p)"
    using unat_less [of p] by (intro parse_show_nat) simp
  ultimately show "split_authority (host_str h @ '':'' @ show_nat (unat p)) d = (host_str h, p)"
    using no [of "'':'' @ show_nat (unat p)"] assms(2) by (simp add: split_authority_def Let_def starts_with_def)
  have "rsplit_once (host_str h) (CHR '':'') = None"
    using assms(2) by (simp add: rsplit_once_None_iff)
  then show "split_authority (host_str h) d = (host_str h, d)"
    using no [of "[]"] by (simp add: split_authority_def Let_def)
qed

lemma split_authority_bracketed:
  assumes "host_ok h"
  shows "split_authority (''['' @ host_str h @ '']:'' @ show_nat (unat (p :: u16))) d = (host_str h, p)"
    and "split_authority (''['' @ host_str h @ '']'') d = (host_str h, d)"
proof -
  have split: "split_once (host_str h @ CHR '']'' # r) (CHR '']'') = Some (host_str h, r)" for r
    using host_no_sep(3) [OF assms] by (simp add: split_once_Some_iff)
  have pre: "strip_prefix (CHR ''['' # r) ''['' = Some r" "strip_prefix (CHR '':'' # r) '':'' = Some r" for r
    by (simp_all add: strip_prefix_Some_iff)
  have "parse_unsigned 16 (show_nat (unat p)) = Some (unat p)"
    using unat_less [of p] by (intro parse_show_nat) simp
  then show "split_authority (''['' @ host_str h @ '']:'' @ show_nat (unat p)) d = (host_str h, p)"
    using split by (simp add: split_authority_def Let_def pre)
  show "split_authority (''['' @ host_str h @ '']'') d = (host_str h, d)"
    using split [of "[]"] by (simp add: split_authority_def Let_def pre)
qed

text \<open>
  C12: the key a request is looked up by is read off its \<open>Host\<close> header whole: a name or an IPv4
  address with a port, or without one, which takes the listening port, and any host in brackets,
  as IPv6 is written, with or without a port.
\<close>

theorem request_key_reads_host:
  assumes "host_ok h" "p \<noteq> 0" "d \<noteq> 0" "path_ok a"
  shows "let key = (\<lambda>port. Ok (RouteKey \<lparr>ep_protocol = proto, ep_host = h, ep_port = Port port, ep_path = a\<rparr>));
             port = show_nat (unat p); path = path_str a in
      request_key proto (''['' @ host_str h @ '']:'' @ port) d path = key p
    \<and> request_key proto (''['' @ host_str h @ '']'') d path = key d
    \<and> (CHR '':'' \<notin> set (host_str h) \<longrightarrow>
          request_key proto (host_str h @ '':'' @ port) d path = key p
        \<and> request_key proto (host_str h) d path = key d)"
proof -
  have key: "request_key proto raw d (path_str a)
      = Ok (RouteKey \<lparr>ep_protocol = proto, ep_host = h, ep_port = Port q, ep_path = a\<rparr>)"
    if "split_authority raw d = (host_str h, q)" "q = p \<or> q = d" for raw q
    using that assms by (auto simp: request_key_def endpoint_new_def rbind_Ok_iff)
  show ?thesis
    unfolding Let_def
    using key [OF split_authority_bracketed(1) [OF assms(1)]] key [OF split_authority_bracketed(2) [OF assms(1)]]
      key [OF split_authority_plain(1) [OF assms(1)]] key [OF split_authority_plain(2) [OF assms(1)]]
    by blast
qed

theorem request_key_reads_host_witness:
  "request_key Http ''127.0.0.1:8080'' 443 ''/chat''
   = Ok (RouteKey \<lparr>ep_protocol = Http, ep_host = Host ''127.0.0.1'', ep_port = Port 8080, ep_path = AbsPath ''/chat''\<rparr>)"
proof -
  have "host_ok (Host ''127.0.0.1'')"
    using sample_endpoint_ok [of 80] by (simp add: sample_endpoint_def endpoint_ok_def)
  moreover have "show_nat 8080 = ''8080''" by (simp add: show_nat.simps)
  ultimately show ?thesis
    using request_key_reads_host [of "Host ''127.0.0.1''" 8080 443 "AbsPath ''/chat''" Http]
      sample_paths_ok by (simp add: Let_def)
qed

end
