(* ===== verification/Http.thy ===== *)
theory Http
  imports Route_Table
begin

text \<open>
  Requests and responses, and what a proxy does to their headers before the next hop:
  \<open>crates/ip-gateway/src/body.rs\<close> and \<open>flow/headers.rs\<close>. The \<open>http\<close> and \<open>httpdate\<close> packages are
  outside the repository: what they parse is the record \<open>http_crates\<close>, a \<open>HeaderMap\<close> is the list of
  its entries (lower case names, in the order the values of one name are kept) and a body is the list
  of frames its stream yields, the last of which may be an error.
\<close>

section \<open>Messages\<close>

type_synonym header_map = "(string \<times> bytes) list"

definition hm_get_all :: "header_map \<Rightarrow> string \<Rightarrow> bytes list" where
  "hm_get_all h n = map snd (filter (\<lambda>(m, v). m = n) h)"

definition hm_get :: "header_map \<Rightarrow> string \<Rightarrow> bytes option" where
  "hm_get h n = (case hm_get_all h n of [] \<Rightarrow> None | v # _ \<Rightarrow> Some v)"

definition hm_remove :: "string \<Rightarrow> header_map \<Rightarrow> header_map" where
  "hm_remove n h = filter (\<lambda>(m, v). m \<noteq> n) h"

definition hm_insert :: "string \<Rightarrow> bytes \<Rightarrow> header_map \<Rightarrow> header_map" where
  "hm_insert n v h = hm_remove n h @ [(n, v)]"

datatype frame = FrameData bytes | FrameTrailers header_map

type_synonym gateway_body = "(string, frame) result list"

record uri =
  uri_scheme :: "string option"
  uri_authority :: "string option"
  uri_path :: string
  uri_query :: "string option"

record request =
  req_method :: string
  req_uri :: uri
  req_headers :: header_map
  req_body :: gateway_body

record response =
  resp_status :: u16
  resp_headers :: header_map
  resp_body :: gateway_body

text \<open>
  \<open>HeaderValue::to_str\<close>, \<open>HeaderName::from_bytes\<close>, \<open>HeaderValue::from_bytes\<close>, \<open>Scheme::try_from\<close>,
  \<open>Authority::try_from\<close>, \<open>Uri::builder\<close> over the three, and \<open>parse_http_date\<close> in nanoseconds since
  the epoch.
\<close>

record http_crates =
  value_to_str :: "bytes \<Rightarrow> string option"
  name_from_bytes :: "bytes \<Rightarrow> string option"
  value_from_bytes :: "bytes \<Rightarrow> bytes option"
  scheme_try_from :: "string \<Rightarrow> string option"
  authority_try_from :: "string \<Rightarrow> string option"
  uri_build :: "string \<Rightarrow> string \<Rightarrow> string \<Rightarrow> (string, uri) result"
  parse_http_date :: "string \<Rightarrow> int option"

section \<open>Bodies\<close>

definition from_bytes :: "bytes \<Rightarrow> gateway_body" where
  "from_bytes b = (if b = [] then [] else [Ok (FrameData b)])"

definition empty_body :: gateway_body where
  "empty_body = from_bytes []"

text \<open>\<open>BodyExt::collect\<close> and \<open>to_bytes\<close>: the data of every frame, or the first error.\<close>

fun collect_body :: "gateway_body \<Rightarrow> (string, bytes) result" where
  "collect_body [] = Ok []"
| "collect_body (Err e # fs) = Err e"
| "collect_body (Ok (FrameData d) # fs) = rbind (collect_body fs) (\<lambda>b. Ok (d @ b))"
| "collect_body (Ok (FrameTrailers t) # fs) = collect_body fs"

section \<open>Text\<close>

text \<open>\<open>str::trim\<close>.\<close>

definition trim :: "string \<Rightarrow> string" where
  "trim s = concat (rev (dropWhile is_whitespace (rev (dropWhile is_whitespace (chars s)))))"

definition eq_ignore_ascii_case :: "string \<Rightarrow> string \<Rightarrow> bool" where
  "eq_ignore_ascii_case a b = (to_ascii_lowercase a = to_ascii_lowercase b)"

definition byte_lowercase :: "byte \<Rightarrow> byte" where
  "byte_lowercase b = (if 65 \<le> b \<and> b \<le> 90 then b + 32 else b)"

section \<open>Headers\<close>

definition CONNECTION :: string where "CONNECTION = ''connection''"
definition CONTENT_LENGTH :: string where "CONTENT_LENGTH = ''content-length''"
definition CONTENT_TYPE :: string where "CONTENT_TYPE = ''content-type''"
definition HOST :: string where "HOST = ''host''"
definition TE :: string where "TE = ''te''"

definition HOP_BY_HOP :: "string list" where
  "HOP_BY_HOP =
     [CONNECTION, ''keep-alive'', ''proxy-connection'', ''proxy-authenticate'', ''proxy-authorization'',
      ''trailer'', ''transfer-encoding'', ''upgrade'']"

definition listed_names :: "http_crates \<Rightarrow> header_map \<Rightarrow> string list" where
  "listed_names X h =
     concat (map (\<lambda>v. case value_to_str X v of
         None \<Rightarrow> []
       | Some s \<Rightarrow> List.map_filter (\<lambda>n. name_from_bytes X (as_bytes (trim n))) (split_by (\<lambda>c. c = CHR '','') s))
       (hm_get_all h CONNECTION))"

definition strip_hop_by_hop :: "http_crates \<Rightarrow> header_map \<Rightarrow> header_map" where
  "strip_hop_by_hop X h =
     (let listed = listed_names X h;
          h = fold hm_remove (listed @ HOP_BY_HOP) h;
          trailers_only = list_all (\<lambda>v. map byte_lowercase v = as_bytes ''trailers'') (hm_get_all h TE) in
      if \<not> trailers_only then hm_remove TE h else h)"

definition authority_of_request :: "http_crates \<Rightarrow> request \<Rightarrow> string \<Rightarrow> string" where
  "authority_of_request X rq listen =
     (case uri_authority (req_uri rq) of
        Some a \<Rightarrow> a
      | None \<Rightarrow> unwrap_or (Option.bind (hm_get (req_headers rq) HOST) (value_to_str X)) listen)"

definition target_uri :: "http_crates \<Rightarrow> endpoint \<Rightarrow> string option \<Rightarrow> (string, uri) result" where
  "target_uri X target query =
     rbind (ok_or (scheme_try_from X (protocol_name (ep_protocol target)))
              (protocol_name (ep_protocol target) @ '' is not a uri scheme'')) (\<lambda>scheme.
     let authority = host_str (ep_host target) @ '':'' @ show_nat (unat (port_get (ep_port target))) in
     rbind (ok_or (authority_try_from X authority) (authority @ '' is not a uri authority'')) (\<lambda>authority.
     let path = (case query of
           Some q \<Rightarrow> path_str (ep_path target) @ ''?'' @ q
         | None \<Rightarrow> path_str (ep_path target)) in
     uri_build X scheme authority path))"

text \<open>What the caller of \<open>rewrite\<close> reports as malformed is the text of the error.\<close>

definition rewrite :: "http_crates \<Rightarrow> request \<Rightarrow> endpoint \<Rightarrow> (string, request) result" where
  "rewrite X rq target =
     rbind (target_uri X target (uri_query (req_uri rq))) (\<lambda>uri.
     let host = host_str (ep_host target) @ '':'' @ show_nat (unat (port_get (ep_port target))) in
     rbind (ok_or (value_from_bytes X (as_bytes host)) (host @ '' is not a host header'')) (\<lambda>host.
     Ok (rq\<lparr>req_uri := uri, req_headers := hm_insert HOST host (strip_hop_by_hop X (req_headers rq))\<rparr>)))"

definition is_event_stream :: "http_crates \<Rightarrow> header_map \<Rightarrow> bool" where
  "is_event_stream X h =
     (case Option.bind (hm_get h CONTENT_TYPE) (value_to_str X) of
        None \<Rightarrow> False
      | Some v \<Rightarrow> eq_ignore_ascii_case (trim (hd (split_by (\<lambda>c. c = CHR '';'') v))) ''text/event-stream'')"

definition set_length :: "nat \<Rightarrow> header_map \<Rightarrow> header_map" where
  "set_length n h = hm_insert CONTENT_LENGTH (as_bytes (show_nat n)) h"

section \<open>What survives\<close>

lemma hm_get_all_remove [simp]: "hm_get_all (hm_remove n h) m = (if m = n then [] else hm_get_all h m)"
  by (induction h) (auto simp: hm_get_all_def hm_remove_def)

lemma hm_get_all_insert [simp]: "hm_get_all (hm_insert n v h) m = (if m = n then [v] else hm_get_all h m)"
proof -
  have "hm_get_all (a @ [(n, v)]) m = hm_get_all a m @ (if m = n then [v] else [])" for a
    by (simp add: hm_get_all_def)
  then show ?thesis by (simp add: hm_insert_def)
qed

lemma hm_get_all_removes: "hm_get_all (fold hm_remove ns h) m = (if m \<in> set ns then [] else hm_get_all h m)"
  by (induction ns arbitrary: h) auto

lemma hm_get_remove [simp]: "hm_get (hm_remove n h) m = (if m = n then None else hm_get h m)"
  by (simp add: hm_get_def)

lemma hm_get_insert [simp]: "hm_get (hm_insert n v h) m = (if m = n then Some v else hm_get h m)"
  by (simp add: hm_get_def)

lemma strip_hop_by_hop_keeps:
  "hm_get_all (strip_hop_by_hop X h) n =
     (if n \<in> set HOP_BY_HOP \<or> n \<in> set (listed_names X h)
         \<or> n = TE \<and> \<not> list_all (\<lambda>v. map byte_lowercase v = as_bytes ''trailers'') (hm_get_all h TE)
      then [] else hm_get_all h n)"
  by (auto simp: strip_hop_by_hop_def Let_def hm_get_all_removes)

end
