(* ===== verification/Streams.thy ===== *)
theory Streams
  imports Http
begin

text \<open>
  Streamed answers run through a chunk chain one server sent event at a time:
  \<open>crates/ip-gateway/src/sse.rs\<close>. The channel to the caller is what was sent over it and how many
  more frames its receiver takes before it is dropped; plugins share a state \<open>'p\<close> they may change.
\<close>

section \<open>Line endings\<close>

datatype processor_error = Failed string | Refused string

type_synonym 'p body_processor = "bytes \<Rightarrow> 'p \<Rightarrow> (processor_error, bytes) result \<times> 'p"

definition LF :: byte where "LF = 10"
definition CR :: byte where "CR = 13"

datatype ending = LineEnd nat | NotEnd | UnknownEnd

definition ending_at :: "bytes \<Rightarrow> nat \<Rightarrow> bool \<Rightarrow> ending" where
  "ending_at buffer at at_end =
     (if at < length buffer then
        if buffer ! at = LF then LineEnd 1
        else if buffer ! at = CR then
          if at + 1 < length buffer then if buffer ! (at + 1) = LF then LineEnd 2 else LineEnd 1
          else if at_end then LineEnd 1 else UnknownEnd
        else NotEnd
      else if at_end then NotEnd else UnknownEnd)"

lemma ending_at_pos: "ending_at buffer at at_end = LineEnd n \<Longrightarrow> 0 < n \<and> at + n \<le> length buffer"
  by (auto simp: ending_at_def split: if_splits)

function event_end_from :: "bytes \<Rightarrow> bool \<Rightarrow> nat \<Rightarrow> nat option" where
  "event_end_from buffer at_end at =
     (if at < length buffer then
        (case ending_at buffer at at_end of
           LineEnd first \<Rightarrow>
             (case ending_at buffer (at + first) at_end of
                LineEnd second \<Rightarrow> Some (at + first + second)
              | UnknownEnd \<Rightarrow> None
              | NotEnd \<Rightarrow> event_end_from buffer at_end (at + first))
         | UnknownEnd \<Rightarrow> None
         | NotEnd \<Rightarrow> event_end_from buffer at_end (at + 1))
      else None)"
  by pat_completeness auto
termination
  by (relation "measure (\<lambda>(b, e, at). length b - at)") (auto dest: ending_at_pos)

definition event_end :: "bytes \<Rightarrow> bool \<Rightarrow> nat option" where
  "event_end buffer at_end = event_end_from buffer at_end 0"

declare event_end_from.simps [simp del]

lemma event_end_from_bound: "event_end_from buffer at_end at = Some n \<Longrightarrow> at < n \<and> n \<le> length buffer"
proof (induction buffer at_end at rule: event_end_from.induct)
  case (1 buffer at_end at)
  note ended = 1(3) [unfolded event_end_from.simps [of buffer at_end at]]
  have here: "at < length buffer" using ended by (simp split: if_splits)
  show ?case
  proof (cases "ending_at buffer at at_end")
    case (LineEnd first)
    then show ?thesis
      using ended here ending_at_pos [OF LineEnd] 1(1) [OF here LineEnd]
      by (auto split: ending.splits dest!: ending_at_pos)
  qed (use ended here 1(2) [OF here] in auto)
qed

section \<open>The channel\<close>

record 'p stream =
  st_sent :: gateway_body
  st_room :: "nat option"
  st_plugins :: 'p

definition send_frame :: "(string, frame) result \<Rightarrow> 'p stream \<Rightarrow> bool \<times> 'p stream" where
  "send_frame f st =
     (if st_room st = Some 0 then (False, st)
      else (True, st\<lparr>st_sent := st_sent st @ [f], st_room := map_option (\<lambda>n. n - 1) (st_room st)\<rparr>))"

fun replace_crlf :: "string \<Rightarrow> string" where
  "replace_crlf [] = []"
| "replace_crlf [c] = [c]"
| "replace_crlf (c # d # s) =
     (if c = CHR 0x0D \<and> d = CHR 0x0A then CHR 0x0A # replace_crlf s else c # replace_crlf (d # s))"

definition error_event :: "string \<Rightarrow> bytes" where
  "error_event reason =
     as_bytes (''event: error'' @ [CHR 0x0A]
       @ concat (map (\<lambda>line. ''data: '' @ line @ [CHR 0x0A])
           (split_by (\<lambda>c. c = CHR 0x0A \<or> c = CHR 0x0D) (replace_crlf reason)))
       @ [CHR 0x0A])"

fun run_chain :: "'p body_processor list \<Rightarrow> bytes \<Rightarrow> 'p \<Rightarrow> (processor_error, bytes) result \<times> 'p" where
  "run_chain [] event p = (Ok event, p)"
| "run_chain (f # fs) event p =
     (case f event p of
        (Err e, p) \<Rightarrow> (Err e, p)
      | (Ok event, p) \<Rightarrow> run_chain fs event p)"

text \<open>Whether the stream goes on, what is left of the buffer, and the channel after.\<close>

function forward_events ::
  "'p body_processor list \<Rightarrow> bool \<Rightarrow> bytes \<Rightarrow> 'p stream \<Rightarrow> bool \<times> bytes \<times> 'p stream" where
  "forward_events chain at_end pending st =
     (case event_end pending at_end of
        None \<Rightarrow> (True, pending, st)
      | Some n \<Rightarrow>
          (let (r, p) = run_chain chain (take n pending) (st_plugins st);
               st = st\<lparr>st_plugins := p\<rparr>;
               pending = drop n pending in
           case r of
             Err (Refused reason) \<Rightarrow> (False, pending, snd (send_frame (Ok (FrameData (error_event reason))) st))
           | Err (Failed detail) \<Rightarrow> (False, pending, snd (send_frame (Err detail) st))
           | Ok event \<Rightarrow>
               (let (sent, st) = send_frame (Ok (FrameData event)) st in
                if \<not> sent then (False, pending, st) else forward_events chain at_end pending st)))"
  by pat_completeness auto
termination
  by (relation "measure (\<lambda>(c, e, b, st). length b)") (auto simp: event_end_def dest: event_end_from_bound)

declare forward_events.simps [simp del]

definition flush :: "bytes \<Rightarrow> 'p stream \<Rightarrow> bool \<times> bytes \<times> 'p stream" where
  "flush pending st =
     (if pending = [] then (True, [], st)
      else let (sent, st) = send_frame (Ok (FrameData pending)) st in (sent, [], st))"

fun pump :: "'p body_processor list \<Rightarrow> gateway_body \<Rightarrow> bytes \<Rightarrow> 'p stream \<Rightarrow> 'p stream" where
  "pump chain [] pending st =
     (let (go, pending, st) = forward_events chain True pending st in
      if go then snd (snd (flush pending st)) else st)"
| "pump chain (Err e # fs) pending st = snd (send_frame (Err e) st)"
| "pump chain (Ok (FrameData d) # fs) pending st =
     (let (go, pending, st) = forward_events chain False (pending @ d) st in
      if go then pump chain fs pending st else st)"
| "pump chain (Ok (FrameTrailers t) # fs) pending st =
     (let (go, pending, st) = forward_events chain True pending st in
      if \<not> go then st
      else let (flushed, pending, st) = flush pending st in
        if \<not> flushed then st
        else let (sent, st) = send_frame (Ok (FrameTrailers t)) st in
          if \<not> sent then st else pump chain fs pending st)"

definition stream_chunks :: "gateway_body \<Rightarrow> 'p body_processor list \<Rightarrow> nat option \<Rightarrow> 'p \<Rightarrow> 'p stream" where
  "stream_chunks body chain room p = pump chain body [] \<lparr>st_sent = [], st_room = room, st_plugins = p\<rparr>"

section \<open>An event ends where it ends, whatever follows\<close>

lemma ending_at_append:
  "ending_at b at False \<noteq> UnknownEnd \<Longrightarrow> ending_at (b @ c) at e = ending_at b at False"
  by (auto simp: ending_at_def nth_append split: if_splits)

lemma event_end_from_append:
  "event_end_from b False at = Some n \<Longrightarrow> event_end_from (b @ c) e at = Some n"
proof (induction b False at rule: event_end_from.induct)
  case (1 b at)
  have now: "ending_at (b @ c) at e = ending_at b at False" and in_b: "at < length b"
    using 1(3) ending_at_append [of b at c e] by (subst (asm) event_end_from.simps; auto split: if_splits ending.splits)+
  show ?case
  proof (cases "ending_at b at False")
    case (LineEnd first)
    then have next': "ending_at (b @ c) (at + first) e = ending_at b (at + first) False"
      using 1(3) in_b ending_at_append [of b "at + first" c e] by (subst (asm) event_end_from.simps) (auto split: ending.splits)
    show ?thesis
    proof (cases "ending_at b (at + first) False")
      case NotEnd
      then have "event_end_from (b @ c) e (at + first) = Some n"
        using 1(1) [OF in_b LineEnd NotEnd] 1(3) in_b LineEnd by (subst (asm) (2) event_end_from.simps) auto
      then show ?thesis using LineEnd NotEnd now next' in_b by (subst event_end_from.simps) auto
    qed (use 1(3) in_b LineEnd now next' in \<open>subst (asm) event_end_from.simps, subst event_end_from.simps, auto\<close>)+
  next
    case NotEnd
    then have "event_end_from (b @ c) e (at + 1) = Some n"
      using 1(2) [OF in_b NotEnd] 1(3) in_b by (subst (asm) (2) event_end_from.simps) auto
    then show ?thesis using NotEnd now in_b by (subst event_end_from.simps) auto
  qed (use 1(3) in_b in \<open>subst (asm) event_end_from.simps, auto\<close>)
qed

lemma event_end_append: "event_end b False = Some n \<Longrightarrow> event_end (b @ c) e = Some n"
  and event_end_bound: "event_end b e = Some n \<Longrightarrow> 0 < n \<and> n \<le> length b"
  unfolding event_end_def using event_end_from_append event_end_from_bound by blast+

section \<open>Splitting a body changes nothing\<close>

lemma forward_none: "event_end b e = None \<Longrightarrow> forward_events chain e b st = (True, b, st)"
  by (subst forward_events.simps) simp

lemma forward_some:
  assumes "event_end b e = Some n" "run_chain chain (take n b) (st_plugins st) = (x, p)"
  shows "forward_events chain e b st =
    (case x of
       Err (Refused reason) \<Rightarrow> (False, drop n b, snd (send_frame (Ok (FrameData (error_event reason))) (st\<lparr>st_plugins := p\<rparr>)))
     | Err (Failed detail) \<Rightarrow> (False, drop n b, snd (send_frame (Err detail) (st\<lparr>st_plugins := p\<rparr>)))
     | Ok event \<Rightarrow>
         (let (sent, st') = send_frame (Ok (FrameData event)) (st\<lparr>st_plugins := p\<rparr>) in
          if \<not> sent then (False, drop n b, st') else forward_events chain e (drop n b) st'))"
  using assms by (subst forward_events.simps) (simp add: Let_def)

text \<open>Either the stream goes on over the rest of the buffer, or it stops where it stopped.\<close>

lemma forward_events_append:
  "forward_events chain e (b @ c) st =
     (case forward_events chain False b st of
        (True, r, st1) \<Rightarrow> forward_events chain e (r @ c) st1
      | (False, r, st1) \<Rightarrow> (False, r @ c, st1))"
proof (induction "length b" arbitrary: b st rule: less_induct)
  case less
  show ?case
  proof (cases "event_end b False")
    case None
    then show ?thesis by (simp add: forward_none)
  next
    case (Some n)
    then have here: "event_end (b @ c) e = Some n" "take n (b @ c) = take n b" "drop n (b @ c) = drop n b @ c" "length (drop n b) < length b"
      using event_end_append [OF Some, of c e] event_end_bound [OF Some] by auto
    obtain x p where ran: "run_chain chain (take n b) (st_plugins st) = (x, p)" by fastforce
    note whole = forward_some [OF here(1), unfolded here(2,3), OF ran] and part = forward_some [OF Some ran]
    show ?thesis
    proof (cases x)
      case (Inl err)
      then show ?thesis by (cases err) (simp_all add: whole part)
    next
      case (Inr event)
      then show ?thesis using less [OF here(4)] by (simp add: whole part split: prod.split)
    qed
  qed
qed

lemma pump_join:
  "pump chain (Ok (FrameData d) # Ok (FrameData e) # fs) pending st = pump chain (Ok (FrameData (d @ e)) # fs) pending st"
  using forward_events_append [of chain False "pending @ d" e st] by (simp split: prod.splits bool.splits)

lemma pump_concat:
  "pump chain (map (\<lambda>d. Ok (FrameData d)) (d # ds) @ fs) pending st = pump chain (Ok (FrameData (d @ concat ds)) # fs) pending st"
proof (induction ds arbitrary: d)
  case (Cons e ds)
  have "pump chain (map (\<lambda>d. Ok (FrameData d)) (d # e # ds) @ fs) pending st
      = pump chain (map (\<lambda>d. Ok (FrameData d)) ((d @ e) # ds) @ fs) pending st"
    using pump_join by simp
  then show ?case using Cons [of "d @ e"] by simp
qed simp

lemma event_end_Nil [simp]: "event_end [] e = None"
  by (simp add: event_end_def event_end_from.simps)

section \<open>The error event\<close>

lemma ending_at_shift: "ending_at (a @ b) (length a + at) e = ending_at b at e"
  by (simp add: ending_at_def nth_append)

lemma event_end_from_shift: "event_end_from (a @ b) e (length a + at) = map_option (\<lambda>n. length a + n) (event_end_from b e at)"
proof (induction b e at rule: event_end_from.induct)
  case (1 b e at)
  have far: "ending_at (a @ b) (length a + at + n) e = ending_at b (at + n) e"
    "event_end_from (a @ b) e (length a + at + n) = event_end_from (a @ b) e (length a + (at + n))" for n
    using ending_at_shift [of a b "at + n" e] by (simp_all add: add.assoc)
  have step: "event_end_from (a @ b) e (length a + at + 1) = map_option (\<lambda>n. length a + n) (event_end_from b e (at + 1))"
    if "at < length b" "ending_at b at e = NotEnd"
    using 1(2) [OF that] far(2) [of 1] by simp
  show ?case
    by (subst (1 2) event_end_from.simps)
      (auto simp: ending_at_shift far 1(1) step [simplified] split: ending.split)
qed

lemma event_end_Cons: "x \<noteq> LF \<Longrightarrow> x \<noteq> CR \<Longrightarrow> event_end (x # b) e = map_option Suc (event_end b e)"
  using event_end_from_shift [of "[x]" b e 0]
  by (simp add: event_end_def event_end_from.simps [of "x # b" e 0] ending_at_def)

lemma event_end_text:
  "LF \<notin> set l \<Longrightarrow> CR \<notin> set l \<Longrightarrow> event_end (l @ b) e = map_option (\<lambda>n. length l + n) (event_end b e)"
  by (induction l) (cases "event_end b e"; auto simp: event_end_Cons)+

lemma event_end_line:
  "event_end (LF # LF # b) e = Some 2"
  "x \<noteq> LF \<Longrightarrow> x \<noteq> CR \<Longrightarrow> event_end (LF # x # b) e = map_option Suc (event_end (x # b) e)"
  using event_end_from_shift [of "[LF]" "x # b" e 0]
  by (simp_all add: event_end_def event_end_from.simps [of "LF # _" e 0] ending_at_def)

lemma event_end_lines:
  assumes "ls \<noteq> []" "\<And>l. l \<in> set ls \<Longrightarrow> l \<noteq> [] \<and> LF \<notin> set l \<and> CR \<notin> set l"
  shows "event_end (concat (map (\<lambda>l. l @ [LF]) ls) @ [LF]) e = Some (length (concat (map (\<lambda>l. l @ [LF]) ls) @ [LF]))"
  using assms
proof (induction ls rule: list_nonempty_induct)
  case (single l)
  then show ?case by (simp add: event_end_text event_end_line)
next
  case (cons l ls)
  obtain m ms where ls: "ls = m # ms" using cons(1) by (cases ls) auto
  obtain x m' where m: "m = x # m'" "x \<noteq> LF" "x \<noteq> CR" using cons(3) [of m] ls by (cases m) auto
  have "event_end (concat (map (\<lambda>l. l @ [LF]) ls) @ [LF]) e = Some (length (concat (map (\<lambda>l. l @ [LF]) ls) @ [LF]))"
    using cons by simp
  then have "event_end (LF # concat (map (\<lambda>l. l @ [LF]) ls) @ [LF]) e = Some (Suc (length (concat (map (\<lambda>l. l @ [LF]) ls) @ [LF])))"
    using ls m by (simp add: event_end_line)
  then show ?case using cons(3) [of l] by (simp add: event_end_text)
qed

lemma error_event_lines:
  "error_event reason = concat (map (\<lambda>l. l @ [LF]) (as_bytes ''event: error'' #
     map (\<lambda>line. as_bytes (''data: '' @ line)) (split_by (\<lambda>c. c = CHR 0x0A \<or> c = CHR 0x0D) (replace_crlf reason)))) @ [LF]"
  by (simp add: error_event_def as_bytes_def map_concat comp_def LF_def code_def)

section \<open>Properties\<close>

text \<open>
  C33: how an upstream cut its answer into frames makes no difference: the events the chunk chain
  sees, what the caller is sent, where a refusal or a gone caller stops the stream and what is left
  over are those of the same bytes arriving in one piece, whatever frames come after them.
\<close>

theorem stream_split_irrelevant:
  "stream_chunks (map (\<lambda>d. Ok (FrameData d)) ds @ rest) chain room p
     = stream_chunks (Ok (FrameData (concat ds)) # rest) chain room p"
proof (cases ds)
  case Nil
  then show ?thesis by (simp add: stream_chunks_def forward_events.simps [of chain False "[]"])
next
  case (Cons d ds')
  then show ?thesis using pump_concat [of chain d ds' rest "[]"] by (simp add: stream_chunks_def)
qed

text \<open>
  The event that tells a caller why a plugin refused is one event and nothing more, whatever
  text the plugin gave as its reason: it ends exactly where the event that was built ends.
\<close>

lemma error_event_framed: "event_end (error_event reason) at_end = Some (length (error_event reason))"
proof -
  let ?lines = "split_by (\<lambda>c. c = CHR 0x0A \<or> c = CHR 0x0D) (replace_crlf reason)"
  have char: "c = CHR 0x0A" if "of_nat (code c) = LF" for c
    using that as_bytes_inj [of "[c]" "[CHR 0x0A]"] by (simp add: as_bytes_def LF_def code_def)
  have cr: "c = CHR 0x0D" if "of_nat (code c) = CR" for c
    using that as_bytes_inj [of "[c]" "[CHR 0x0D]"] by (simp add: as_bytes_def CR_def code_def)
  have chars: "LF \<notin> set (as_bytes t) \<and> CR \<notin> set (as_bytes t)" if "CHR 0x0A \<notin> set t" "CHR 0x0D \<notin> set t" for t
    unfolding as_bytes_def set_map using that char [OF sym] cr [OF sym] by blast
  have "l \<noteq> [] \<and> LF \<notin> set l \<and> CR \<notin> set l"
    if l: "l \<in> set (as_bytes ''event: error'' # map (\<lambda>line. as_bytes (''data: '' @ line)) ?lines)" for l
  proof -
    consider "l = as_bytes ''event: error''" | line where "line \<in> set ?lines" "l = as_bytes (''data: '' @ line)"
      using l by auto
    then show ?thesis
    proof cases
      case 1
      then show ?thesis using chars [of "''event: error''"] by (simp add: as_bytes_def)
    next
      case 2
      then have "CHR 0x0A \<notin> set (''data: '' @ line)" "CHR 0x0D \<notin> set (''data: '' @ line)"
        using split_by_parts [OF 2(1)] by fastforce+
      then show ?thesis using chars [of "''data: '' @ line"] 2(2) by (simp add: as_bytes_def)
    qed
  qed
  then show ?thesis unfolding error_event_lines by (intro event_end_lines) auto
qed

end
