(* ===== verification/Measure.thy ===== *)
theory Measure
  imports Streams Periods
begin

text \<open>
  What an answer says it cost, read out of the answer itself: \<open>crates/ip-gateway/src/measure.rs\<close>. The
  \<open>serde_json\<close> package is outside the repository: a document is a value of \<open>json\<close> and reading one out
  of bytes is the parameter \<open>parse\<close>.
\<close>

section \<open>Documents\<close>

datatype number = PosInt u64 | OtherNumber

datatype json =
    JNull
  | JBool bool
  | JNumber number
  | JString string
  | JArray "json list"
  | JObject "(string \<times> json) list"

type_synonym json_parser = "bytes \<Rightarrow> json option"

fun json_get :: "json \<Rightarrow> string \<Rightarrow> json option" where
  "json_get (JObject entries) key = map_of entries key"
| "json_get _ key = None"

text \<open>\<open>Value::pointer\<close> on a path of two names.\<close>

definition json_pointer :: "json \<Rightarrow> string \<Rightarrow> string \<Rightarrow> json option" where
  "json_pointer v a b = Option.bind (json_get v a) (\<lambda>w. json_get w b)"

fun as_u64 :: "json \<Rightarrow> u64 option" where
  "as_u64 (JNumber (PosInt n)) = Some n"
| "as_u64 _ = None"

fun as_str :: "json \<Rightarrow> string option" where
  "as_str (JString s) = Some s"
| "as_str _ = None"

definition or_else :: "'a option \<Rightarrow> 'a option \<Rightarrow> 'a option" where
  "or_else x y = (case x of Some a \<Rightarrow> Some a | None \<Rightarrow> y)"

section \<open>Measuring\<close>

definition INPUT_KEYS :: "string list" where
  "INPUT_KEYS = [''input_tokens'', ''prompt_tokens'', ''promptTokenCount'']"

definition OUTPUT_KEYS :: "string list" where
  "OUTPUT_KEYS = [''output_tokens'', ''completion_tokens'', ''candidatesTokenCount'']"

record measured =
  ms_model :: "model_name option"
  ms_tokens :: tokens

record measuring =
  mg_model :: "model_name option"
  mg_input :: "token_count option"
  mg_output :: "token_count option"

definition measuring_default :: measuring where
  "measuring_default = \<lparr>mg_model = None, mg_input = None, mg_output = None\<rparr>"

definition usage_of :: "json \<Rightarrow> json option" where
  "usage_of v = or_else (json_get v ''usage'') (or_else (json_pointer v ''message'' ''usage'') (json_get v ''usageMetadata''))"

definition model_of :: "json \<Rightarrow> model_name option" where
  "model_of v =
     Option.bind (or_else (json_get v ''model'') (or_else (json_pointer v ''message'' ''model'') (json_get v ''modelVersion''))) (\<lambda>named.
     Option.bind (as_str named) (\<lambda>name. ok (model_name_new name)))"

fun find_map :: "('a \<Rightarrow> 'b option) \<Rightarrow> 'a list \<Rightarrow> 'b option" where
  "find_map f [] = None"
| "find_map f (x # xs) = (case f x of Some y \<Rightarrow> Some y | None \<Rightarrow> find_map f xs)"

definition token_count_of :: "json \<Rightarrow> string list \<Rightarrow> token_count option" where
  "token_count_of usage keys =
     map_option (\<lambda>n. TokenCount (if n < 2 ^ 32 then ucast n else - 1))
       (find_map (\<lambda>key. Option.bind (json_get usage key) as_u64) keys)"

text \<open>\<open>Option::max\<close>, with nothing below every count.\<close>

definition count_max :: "token_count option \<Rightarrow> token_count option \<Rightarrow> token_count option" where
  "count_max x y =
     (case (x, y) of
        (Some a, Some b) \<Rightarrow> Some (if token_get a \<le> token_get b then b else a)
      | (Some a, None) \<Rightarrow> Some a
      | (None, _) \<Rightarrow> y)"

definition measuring_fold :: "measuring \<Rightarrow> json \<Rightarrow> measuring" where
  "measuring_fold m v =
     (let m = (if mg_model m = None then m\<lparr>mg_model := model_of v\<rparr> else m) in
      case usage_of v of
        None \<Rightarrow> m
      | Some usage \<Rightarrow>
          m\<lparr>mg_input := count_max (mg_input m) (token_count_of usage INPUT_KEYS),
            mg_output := count_max (mg_output m) (token_count_of usage OUTPUT_KEYS)\<rparr>)"

definition strip_data :: "bytes \<Rightarrow> bytes option" where
  "strip_data line =
     map_option (\<lambda>data. unwrap_or (strip_prefix data (as_bytes '' '')) data) (strip_prefix line (as_bytes ''data:''))"

definition measuring_read :: "json_parser \<Rightarrow> measuring \<Rightarrow> bytes \<Rightarrow> measuring" where
  "measuring_read parse m b =
     (case parse b of
        Some v \<Rightarrow> measuring_fold m v
      | None \<Rightarrow>
          fold (\<lambda>line m. case Option.bind (strip_data line) parse of None \<Rightarrow> m | Some v \<Rightarrow> measuring_fold m v)
            (split_by (\<lambda>c. c = LF) b) m)"

definition measured_of :: "measuring \<Rightarrow> measured option" where
  "measured_of m =
     (if mg_input m = None \<and> mg_output m = None then None
      else Some \<lparr>ms_model = mg_model m,
                 ms_tokens = \<lparr>tok_input = unwrap_or (mg_input m) (TokenCount 0), tok_output = unwrap_or (mg_output m) (TokenCount 0)\<rparr>\<rparr>)"

definition measure_answer :: "json_parser \<Rightarrow> bytes \<Rightarrow> measured option" where
  "measure_answer parse body = measured_of (measuring_read parse measuring_default body)"

section \<open>Repeating an event changes nothing\<close>

lemma count_max_idem [simp]: "count_max x x = x"
  by (auto simp: count_max_def split: option.splits)

lemma count_max_absorb: "count_max (count_max x y) y = count_max x y"
  by (auto simp: count_max_def split: option.splits)

lemma measuring_fold_twice: "measuring_fold (measuring_fold m v) v = measuring_fold m v"
  by (cases "usage_of v"; cases "model_of v") (auto simp: measuring_fold_def Let_def count_max_absorb)

end
