(* ===== verification/Responses.thy ===== *)
theory Responses
  imports Http Auth
begin

text \<open>
  The cache a repeated request is answered from: \<open>crates/ip-gateway/src/cache.rs\<close>. The hash and the
  hex coding are those of the record \<open>crates\<close>, what the \<open>http\<close> and \<open>httpdate\<close> packages read is
  \<open>http_crates\<close>; a \<open>SystemTime\<close> is in nanoseconds.
\<close>

section \<open>Names\<close>

definition key_part :: "bytes \<Rightarrow> bytes" where
  "key_part part = to_be_bytes (of_nat (length part) :: u64) @ part"

definition key_bytes_of :: "route_key \<Rightarrow> tenant_id \<Rightarrow> bytes \<Rightarrow> bytes" where
  "key_bytes_of route tenant body =
     key_part (as_bytes (endpoint_fmt (key_endpoint route))) @ key_part (as_bytes (tenant_str tenant)) @ key_part body"

definition response_key :: "crates \<Rightarrow> route_key \<Rightarrow> tenant_id \<Rightarrow> bytes \<Rightarrow> (cache_error, cache_key) result" where
  "response_key c route tenant body = cache_key_new Response (hex_encode c (sha256 c (key_bytes_of route tenant body)))"

section \<open>Freshness\<close>

datatype freshness = FreshFor ttl | Unsaid | Never

definition CACHE_CONTROL :: string where "CACHE_CONTROL = ''cache-control''"
definition EXPIRES :: string where "EXPIRES = ''expires''"

definition span :: "nat \<Rightarrow> freshness" where
  "span left = (case ttl_new left of Ok ttl \<Rightarrow> FreshFor ttl | Err _ \<Rightarrow> Never)"

definition expires_says :: "http_crates \<Rightarrow> header_map \<Rightarrow> int \<Rightarrow> freshness" where
  "expires_says X h now =
     (case Option.bind (Option.bind (hm_get h EXPIRES) (value_to_str X)) (parse_http_date X) of
        None \<Rightarrow> Unsaid
      | Some at \<Rightarrow> if now \<le> at then span (nat (at - now)) else Never)"

definition freshness_of :: "http_crates \<Rightarrow> header_map \<Rightarrow> int \<Rightarrow> freshness" where
  "freshness_of X h now =
     (case Option.bind (hm_get h CACHE_CONTROL) (value_to_str X) of
        None \<Rightarrow> expires_says X h now
      | Some control \<Rightarrow>
          (let directives = map trim (split_by (\<lambda>c. c = CHR '','') control) in
           if list_ex (\<lambda>d. d \<in> {''no-store'', ''no-cache'', ''private''}) directives then Never
           else case List.map_filter (\<lambda>d. strip_prefix d ''max-age='') directives of
             seconds # _ \<Rightarrow>
               (case parse_unsigned 64 (trim seconds) of
                  None \<Rightarrow> Unsaid
                | Some n \<Rightarrow> if n = 0 then Never else span (n * 1000000000))
           | [] \<Rightarrow> expires_says X h now))"

section \<open>Entries\<close>

record cached_response =
  cr_content_type :: "bytes option"
  cr_body :: bytes

definition TYPE_LEN :: nat where "TYPE_LEN = 2"

definition encode_response :: "cached_response \<Rightarrow> bytes" where
  "encode_response r =
     (let ct = (case cr_content_type r of None \<Rightarrow> [] | Some v \<Rightarrow> if 65535 < length v then [] else v) in
      to_be_bytes (of_nat (length ct) :: u16) @ ct @ cr_body r)"

definition decode_response :: "http_crates \<Rightarrow> bytes \<Rightarrow> cached_response option" where
  "decode_response X entry =
     Option.bind (split_at_checked entry TYPE_LEN) (\<lambda>(len, rest).
     Option.bind (split_at_checked rest (unat (from_be_bytes len :: u16))) (\<lambda>(ct, body).
     if ct = [] then Some \<lparr>cr_content_type = None, cr_body = body\<rparr>
     else map_option (\<lambda>v. \<lparr>cr_content_type = Some v, cr_body = body\<rparr>) (value_from_bytes X ct)))"

record 's response_cache =
  rc_cache :: "'s cache_ops"
  rc_ttl :: ttl

definition responses_get :: "http_crates \<Rightarrow> 's response_cache \<Rightarrow> cache_key \<Rightarrow> u64 \<Rightarrow> u64 \<Rightarrow> 's \<Rightarrow> cached_response option \<times> 's" where
  "responses_get X R key ms us s =
     (let (found, s) = op_get (rc_cache R) key ms us s in (Option.bind found (decode_response X), s))"

definition responses_put ::
  "'s response_cache \<Rightarrow> cache_key \<Rightarrow> cached_response \<Rightarrow> ttl \<Rightarrow> u64 \<Rightarrow> u64 \<Rightarrow> 's \<Rightarrow> 's option" where
  "responses_put R key r ttl ms us s = op_put (rc_cache R) key (encode_response r) (Some ttl) ms us s"

section \<open>What the names tell apart\<close>

lemma key_part_inj:
  assumes "length a < 2 ^ 64" "length b < 2 ^ 64" "key_part a @ x = key_part b @ y"
  shows "a = b \<and> x = y"
proof -
  have "to_be_bytes (of_nat (length a) :: u64) = to_be_bytes (of_nat (length b) :: u64)" and rest: "a @ x = b @ y"
    using assms(3) by (simp_all add: key_part_def append_eq_append_conv length_to_be_bytes)
  then have "(of_nat (length a) :: u64) = of_nat (length b)" using from_to_be_bytes_64 by metis
  then have "unat (of_nat (length a) :: u64) = unat (of_nat (length b) :: u64)" by (rule arg_cong)
  moreover have "unat (of_nat (length a) :: u64) = length a" by (rule unat_of_nat_lt) (use assms(1) in simp)
  moreover have "unat (of_nat (length b) :: u64) = length b" by (rule unat_of_nat_lt) (use assms(2) in simp)
  ultimately have "length a = length b" by (simp only:)
  then show ?thesis using rest by simp
qed

lemma key_bytes_of_inj:
  assumes "key_bytes_of r t b = key_bytes_of r' t' b'"
    and "endpoint_ok (key_endpoint r)" "endpoint_ok (key_endpoint r')"
    and "length (endpoint_fmt (key_endpoint r)) < 2 ^ 64" "length (endpoint_fmt (key_endpoint r')) < 2 ^ 64"
    and "id_ok (tenant_str t)" "id_ok (tenant_str t')" "length b < 2 ^ 64" "length b' < 2 ^ 64"
  shows "r = r' \<and> t = t' \<and> b = b'"
proof -
  have "as_bytes (endpoint_fmt (key_endpoint r)) = as_bytes (endpoint_fmt (key_endpoint r'))"
    and rest: "key_part (as_bytes (tenant_str t)) @ key_part b = key_part (as_bytes (tenant_str t')) @ key_part b'"
    using key_part_inj [OF _ _ assms(1) [unfolded key_bytes_of_def]] assms(4,5) by simp_all
  then have "r = r'"
    using endpoint_fmt_inj [OF assms(2,3)] by (simp add: as_bytes_inj route_key.expand)
  moreover have "length (tenant_str t) < 2 ^ 64" "length (tenant_str t') < 2 ^ 64"
    using assms(6,7) by (simp_all add: id_ok_def)
  then have "as_bytes (tenant_str t) = as_bytes (tenant_str t') \<and> key_part b = key_part b'"
    using key_part_inj [OF _ _ rest] by simp
  then have "t = t'" "b = b'"
    using key_part_inj [of b b' "[]" "[]"] assms(8,9) by (simp_all add: as_bytes_inj tenant_id.expand)
  ultimately show ?thesis by blast
qed

lemma decode_encode_response:
  assumes "\<forall>v. cr_content_type r = Some v \<longrightarrow> v \<noteq> [] \<and> length v \<le> 65535 \<and> value_from_bytes X v = Some v"
  shows "decode_response X (encode_response r) = Some r"
proof -
  define ct where "ct = (case cr_content_type r of None \<Rightarrow> [] | Some v \<Rightarrow> v)"
  have ct: "length ct < 2 ^ 16" "encode_response r = to_be_bytes (of_nat (length ct) :: u16) @ ct @ cr_body r"
    using assms by (auto simp: ct_def encode_response_def Let_def split: option.splits)
  have "unat (of_nat (length ct) :: u16) = length ct" by (rule unat_of_nat_lt) (use ct(1) in simp)
  then have "split_at_checked (encode_response r) TYPE_LEN = Some (to_be_bytes (of_nat (length ct) :: u16), ct @ cr_body r)"
    "split_at_checked (ct @ cr_body r) (unat (from_be_bytes (to_be_bytes (of_nat (length ct) :: u16)) :: u16)) = Some (ct, cr_body r)"
    by (simp_all add: split_at_checked_def ct(2) TYPE_LEN_def)
  then show ?thesis
    using assms by (cases r; cases "cr_content_type r") (auto simp: decode_response_def ct_def)
qed

lemma sample_sha_length: "length (sha256 sample_crates b) = 32"
  by (simp add: sample_crates_def min_def)

lemma sample_crates_ok: "crates_ok sample_crates"
  using sample_sha_length by (simp add: crates_ok_def sample_crates_def sample_hex_facts DIGEST_BYTES_def)

lemma sample_response_key: "\<exists>k. response_key sample_crates r t b = Ok k"
proof -
  let ?h = "sample_hex (sha256 sample_crates (key_bytes_of r t b))"
  have "length ?h = 64" "list_all hex_digit ?h"
    by (simp_all add: sample_hex_facts sample_sha_length)
  then have "?h \<noteq> []" "list_all ascii_graphic ?h"
    by (auto simp: list_all_iff hex_digit_def ascii_graphic_def ascii_digit_def)
  then show ?thesis
    using cache_key_new_graphic [of ?h Response] by (simp add: response_key_def sample_crates_def)
qed

section \<open>Properties\<close>

text \<open>
  C36: a hit is the same tenant asking the same route the same thing: where the hash tells the bytes of
  two requests apart, one name in the response cache belongs to one route, one tenant and one body,
  whatever bytes the three are made of.
\<close>

theorem response_key_tells_apart:
  assumes "crates_ok c" "response_key c r t b = Ok k" "response_key c r' t' b' = Ok k"
    and "sha256 c (key_bytes_of r t b) = sha256 c (key_bytes_of r' t' b') \<Longrightarrow> key_bytes_of r t b = key_bytes_of r' t' b'"
    and "endpoint_ok (key_endpoint r)" "endpoint_ok (key_endpoint r')" "id_ok (tenant_str t)" "id_ok (tenant_str t')"
    and "length (endpoint_fmt (key_endpoint r)) < 2 ^ 64" "length (endpoint_fmt (key_endpoint r')) < 2 ^ 64" "length b < 2 ^ 64" "length b' < 2 ^ 64"
  shows "r = r' \<and> t = t' \<and> b = b'"
proof -
  have "hex_encode c (sha256 c (key_bytes_of r t b)) = hex_encode c (sha256 c (key_bytes_of r' t' b'))"
    using assms(2,3) by (auto simp: response_key_def cache_key_new_Ok_iff)
  then have "sha256 c (key_bytes_of r t b) = sha256 c (key_bytes_of r' t' b')"
    using assms(1) unfolding crates_ok_def by (metis option.inject)
  then show ?thesis
    using key_bytes_of_inj [OF assms(4)] assms(5-12) by blast
qed

theorem response_key_tells_apart_witness:
  "\<exists>k. response_key sample_crates (RouteKey (sample_endpoint 80)) (TenantId ''a'') [7] = Ok k
     \<and> RouteKey (sample_endpoint 80) = RouteKey (sample_endpoint 80) \<and> TenantId ''a'' = TenantId ''a'' \<and> [7 :: byte] = [7]"
proof -
  obtain k where k: "response_key sample_crates (RouteKey (sample_endpoint 80)) (TenantId ''a'') [7] = Ok k"
    using sample_response_key by blast
  have "length (show_nat 80) = 2" by code_simp
  then have "length (endpoint_fmt (key_endpoint (RouteKey (sample_endpoint 80)))) < 2 ^ 64" "id_ok (tenant_str (TenantId ''a''))"
    "length [7 :: byte] < 2 ^ 64" "endpoint_ok (key_endpoint (RouteKey (sample_endpoint 80)))"
    using sample_endpoint_ok [of 80] by (simp_all add: endpoint_fmt_def sample_endpoint_def id_ok_def id_char_def ascii_alphanumeric_def
        ascii_lower_def ascii_upper_def ascii_digit_def code_def)
  then show ?thesis
    using response_key_tells_apart [OF sample_crates_ok k k] k by blast
qed

end
