(* ===== verification/Limits.thy ===== *)
theory Limits
  imports Store_Lists Sessions "HOL-Library.Multiset"
begin

text \<open>
  What a request is allowed to spend: \<open>crates/ip-gateway/src/limit.rs\<close>. The counters and the usage
  rows a limiter holds are records of their operations. A \<open>HashMap\<close>'s values come in an order of its
  own, the parameter \<open>order\<close>; a call reads the cache's clock three times at most for each limit, the
  readings \<open>clk\<close>. A counter that never returns is None, and so is a panic.
\<close>

section \<open>Which limits decide\<close>

record asking =
  ak_tenant :: tenant_id
  ak_user :: user_id
  ak_api :: api_id

type_synonym deciding = "((counted_what \<times> period) \<times> limit) list"

definition decide :: "asking \<Rightarrow> limit \<Rightarrow> deciding \<Rightarrow> deciding" where
  "decide a l acc =
     (if \<not> scope_holds (lm_scope l) (ak_tenant a) (ak_user a) (ak_api a) then acc
      else let slot = (lm_counted l, lm_period l) in
        case map_of acc slot of
          None \<Rightarrow> acc @ [(slot, l)]
        | Some h \<Rightarrow>
            if narrowness (lm_scope h) < narrowness (lm_scope l)
            then map (\<lambda>(k, x). (k, if k = slot then l else x)) acc else acc)"

definition applying_to :: "(limit list \<Rightarrow> limit list) \<Rightarrow> limit list \<Rightarrow> asking \<Rightarrow> limit list" where
  "applying_to order lims a = order (map snd (fold (decide a) lims []))"

section \<open>Counters\<close>

datatype decision =
    Allowed
  | SpentUp counted_what period allowance timestamp
  | UnknownSpend "cache_error + storage_error"

definition spent_decision :: "calendar \<Rightarrow> limit \<Rightarrow> timestamp \<Rightarrow> decision" where
  "spent_decision kal l now = SpentUp (lm_counted l) (lm_period l) (lm_allowance l) (ends kal (lm_period l) now)"

definition counter_id :: "calendar \<Rightarrow> limit \<Rightarrow> timestamp \<Rightarrow> string" where
  "counter_id kal l now =
     ''limit:'' @ limit_scope_fmt (lm_scope l) @ '':'' @ counted_name (lm_counted l) @ '':''
     @ period_name (lm_period l) @ '':'' @ show_int (unix_seconds (began kal (lm_period l) now))"

definition counter_seconds :: "calendar \<Rightarrow> limit \<Rightarrow> timestamp \<Rightarrow> u64" where
  "counter_seconds kal l now =
     (let left = unix_seconds (ends kal (lm_period l) now) - unix_seconds now in
      max (if 0 \<le> left \<and> left < 2 ^ 64 then of_int left else 1) 1)"

definition counter :: "calendar \<Rightarrow> limit \<Rightarrow> timestamp \<Rightarrow> (cache_key \<times> ttl) option" where
  "counter kal l now =
     (case (cache_key_new System (counter_id kal l now), ttl_seconds (counter_seconds kal l now)) of
        (Ok key, Ok ttl) \<Rightarrow> Some (key, ttl)
      | _ \<Rightarrow> None)"

definition filter_of :: "limit_scope \<Rightarrow> usage_filter" where
  "filter_of scope = \<lparr>uf_tenant = Some (ls_tenant scope), uf_user = ls_user scope, uf_api = ls_api scope\<rparr>"

record 's counter_ops =
  op_count :: "cache_key \<Rightarrow> u64 \<Rightarrow> ttl \<Rightarrow> u64 \<Rightarrow> u64 \<Rightarrow> 's \<Rightarrow> (cache_error, u64 \<times> 's) result option"
  op_counted :: "cache_key \<Rightarrow> u64 \<Rightarrow> 's \<Rightarrow> (cache_error, u64 option) result \<times> 's"
  op_seed :: "cache_key \<Rightarrow> u64 \<Rightarrow> ttl \<Rightarrow> u64 \<Rightarrow> u64 \<Rightarrow> 's \<Rightarrow> (cache_error, u64 \<times> 's) result option"

record ('s, 'd) limiter =
  li_counters :: "'s counter_ops"
  li_spent :: "usage_filter \<Rightarrow> counted_what \<Rightarrow> timestamp \<Rightarrow> 'd \<Rightarrow> (storage_error, u64) result"

type_synonym readings = "nat \<Rightarrow> u64 \<times> u64"

section \<open>The limiter\<close>

definition seeded ::
  "calendar \<Rightarrow> ('s, 'd) limiter \<Rightarrow> limit \<Rightarrow> timestamp \<Rightarrow> cache_key \<Rightarrow> ttl \<Rightarrow> readings \<Rightarrow> 'd \<Rightarrow> 's
   \<Rightarrow> ((cache_error + storage_error, u64) result \<times> 's) option" where
  "seeded kal L l now key ttl clk d s =
     (case op_counted (li_counters L) key (fst (clk 0)) s of
        (Err e, s) \<Rightarrow> Some (Err (Inl e), s)
      | (Ok (Some n), s) \<Rightarrow> Some (Ok n, s)
      | (Ok None, s) \<Rightarrow>
          (case li_spent L (filter_of (lm_scope l)) (lm_counted l) (began kal (lm_period l) now) d of
             Err e \<Rightarrow> Some (Err (Inr e), s)
           | Ok n \<Rightarrow>
               (case op_seed (li_counters L) key n ttl (fst (clk 1)) (snd (clk 1)) s of
                  None \<Rightarrow> None
                | Some (Err e) \<Rightarrow> Some (Err (Inl e), s)
                | Some (Ok (m, s)) \<Rightarrow> Some (Ok m, s))))"

definition rate ::
  "calendar \<Rightarrow> ('s, 'd) limiter \<Rightarrow> limit \<Rightarrow> timestamp \<Rightarrow> readings \<Rightarrow> 'd \<Rightarrow> 's \<Rightarrow> (decision \<times> 's) option" where
  "rate kal L l now clk d s =
     (case counter kal l now of
        None \<Rightarrow> None
      | Some (key, ttl) \<Rightarrow>
          (case seeded kal L l now key ttl clk d s of
             None \<Rightarrow> None
           | Some (Err e, s) \<Rightarrow> Some (Allowed, s)
           | Some (Ok n, s) \<Rightarrow>
               (case op_count (li_counters L) key 1 ttl (fst (clk 2)) (snd (clk 2)) s of
                  None \<Rightarrow> None
                | Some (Err e) \<Rightarrow> Some (Allowed, s)
                | Some (Ok (made, s)) \<Rightarrow>
                    Some (if allowance_get (lm_allowance l) < made then spent_decision kal l now else Allowed, s))))"

definition quota ::
  "calendar \<Rightarrow> ('s, 'd) limiter \<Rightarrow> limit \<Rightarrow> timestamp \<Rightarrow> readings \<Rightarrow> 'd \<Rightarrow> 's \<Rightarrow> (decision \<times> 's) option" where
  "quota kal L l now clk d s =
     (case counter kal l now of
        None \<Rightarrow> None
      | Some (key, ttl) \<Rightarrow>
          (case seeded kal L l now key ttl clk d s of
             None \<Rightarrow> None
           | Some (Err e, s) \<Rightarrow> Some (UnknownSpend e, s)
           | Some (Ok n, s) \<Rightarrow>
               Some (if is_spent (lm_allowance l) n then spent_decision kal l now else Allowed, s)))"

text \<open>The readings of the limit at position \<open>i\<close> of a call.\<close>

definition readings_of :: "readings \<Rightarrow> nat \<Rightarrow> readings" where
  "readings_of clk i = (\<lambda>j. clk (3 * i + j))"

fun admit_limits ::
  "calendar \<Rightarrow> ('s, 'd) limiter \<Rightarrow> timestamp \<Rightarrow> readings \<Rightarrow> 'd \<Rightarrow> nat \<Rightarrow> limit list \<Rightarrow> 's \<Rightarrow> (decision \<times> 's) option" where
  "admit_limits kal L now clk d i [] s = Some (Allowed, s)"
| "admit_limits kal L now clk d i (l # ls) s =
     (case (case lm_counted l of Requests \<Rightarrow> rate | Tokens \<Rightarrow> quota) kal L l now (readings_of clk i) d s of
        None \<Rightarrow> None
      | Some (dec, s) \<Rightarrow>
          if dec \<noteq> Allowed then Some (dec, s) else admit_limits kal L now clk d (i + 1) ls s)"

definition admit ::
  "calendar \<Rightarrow> ('s, 'd) limiter \<Rightarrow> (limit list \<Rightarrow> limit list) \<Rightarrow> limit list \<Rightarrow> asking \<Rightarrow> timestamp \<Rightarrow> readings
   \<Rightarrow> 'd \<Rightarrow> 's \<Rightarrow> (decision \<times> 's) option" where
  "admit kal L order lims a now clk d s = admit_limits kal L now clk d 0 (applying_to order lims a) s"

fun spend_limits ::
  "calendar \<Rightarrow> ('s, 'd) limiter \<Rightarrow> timestamp \<Rightarrow> readings \<Rightarrow> u64 \<Rightarrow> nat \<Rightarrow> limit list \<Rightarrow> 's \<Rightarrow> 's option" where
  "spend_limits kal L now clk tokens i [] s = Some s"
| "spend_limits kal L now clk tokens i (l # ls) s =
     (if lm_counted l \<noteq> Tokens then spend_limits kal L now clk tokens i ls s
      else case counter kal l now of
        None \<Rightarrow> None
      | Some (key, ttl) \<Rightarrow>
          (case op_count (li_counters L) key tokens ttl (fst (clk i)) (snd (clk i)) s of
             None \<Rightarrow> None
           | Some (Err e) \<Rightarrow> spend_limits kal L now clk tokens (i + 1) ls s
           | Some (Ok (n, s)) \<Rightarrow> spend_limits kal L now clk tokens (i + 1) ls s))"

definition spend_tokens ::
  "calendar \<Rightarrow> ('s, 'd) limiter \<Rightarrow> (limit list \<Rightarrow> limit list) \<Rightarrow> limit list \<Rightarrow> asking \<Rightarrow> u64 \<Rightarrow> timestamp \<Rightarrow> readings
   \<Rightarrow> 's \<Rightarrow> 's option" where
  "spend_tokens kal L order lims a tokens now clk s =
     (if tokens = 0 then Some s else spend_limits kal L now clk tokens 0 (applying_to order lims a) s)"

section \<open>The counters' names\<close>

definition limit_ok :: "limit \<Rightarrow> bool" where
  "limit_ok l = limit_scope_ok (lm_scope l)"

lemma counter_id_graphic: "limit_ok l \<Longrightarrow> list_all ascii_graphic (counter_id kal l now)"
proof -
  assume ok: "limit_ok l"
  have digits: "list_all ascii_graphic (show_int i)" for i
    by (auto simp: list_all_iff ascii_graphic_def ascii_digit_def code_def dest!: show_int_chars)
  have "list_all ascii_graphic (limit_scope_fmt (lm_scope l))"
    using ok id_ok_graphic
    by (auto simp: limit_ok_def limit_scope_ok_def limit_scope_fmt_def is_none_or_def ascii_graphic_def code_def split: option.splits)
  moreover have "list_all ascii_graphic (counted_name c)" for c
    by (cases c) (simp_all add: ascii_graphic_def code_def)
  moreover have "list_all ascii_graphic (period_name p)" for p
    by (cases p) (simp_all add: ascii_graphic_def code_def)
  ultimately show ?thesis
    using digits by (simp add: counter_id_def ascii_graphic_def code_def)
qed

lemma counter_seconds_pos: "0 < unat (counter_seconds kal l now)"
proof -
  have "1 \<le> counter_seconds kal l now" by (simp add: counter_seconds_def Let_def)
  then show ?thesis by (simp add: word_le_nat_alt)
qed

lemma counter_new:
  assumes "limit_ok l"
  shows "\<exists>key. cache_key_new System (counter_id kal l now) = Ok key
    \<and> counter kal l now = Some (key, Ttl (unat (counter_seconds kal l now) * 1000000000))"
  using cache_key_new_graphic [OF _ counter_id_graphic [OF assms], of kal now System] counter_seconds_pos [of kal l now]
  by (simp add: counter_def ttl_seconds_def ttl_new_def counter_id_def)

lemma counter_key:
  "counter kal l now = Some (key, ttl) \<Longrightarrow> cache_key_new System (counter_id kal l now) = Ok key"
  by (auto simp: counter_def split: sum.splits)

lemma same_counter:
  assumes "cache_key_new System (counter_id kal l now) = Ok key" "cache_key_new System (counter_id kal m at) = Ok key"
  shows "lm_period l = lm_period m \<and> unix_seconds (began kal (lm_period l) now) = unix_seconds (began kal (lm_period m) at)"
proof -
  let ?b = "\<lambda>l now. show_int (unix_seconds (began kal (lm_period l) now))"
  let ?a = "\<lambda>l. ''limit:'' @ limit_scope_fmt (lm_scope l) @ '':'' @ counted_name (lm_counted l)"
  have digits: "CHR '':'' \<notin> set (show_int i)" for i
    using show_int_chars [of "CHR '':''" i] by (auto simp: ascii_digit_def code_def)
  have names: "CHR '':'' \<notin> set (period_name p)" for p by (cases p) simp_all
  have "(?a l @ CHR '':'' # period_name (lm_period l)) @ CHR '':'' # ?b l now
      = (?a m @ CHR '':'' # period_name (lm_period m)) @ CHR '':'' # ?b m at"
    using assms by (simp add: cache_key_new_Ok_iff counter_id_def)
  from rsplit_unique [OF this digits digits]
  have "?a l @ CHR '':'' # period_name (lm_period l) = ?a m @ CHR '':'' # period_name (lm_period m)" "?b l now = ?b m at"
    by blast+
  then show ?thesis
    using rsplit_unique [of "?a l" "CHR '':''" "period_name (lm_period l)" "?a m" "period_name (lm_period m)"] names
    by (auto simp: show_int_inj period_name_inj)
qed

section \<open>One stretch of a limit\<close>

text \<open>
  The stretch that began at \<open>b\<close> and ends at \<open>e\<close>, in seconds. A call made in it reads the moment \<open>now\<close>
  first and the cache's clock after, and is done with the limits before the stretch ends.
\<close>

definition in_stretch :: "calendar \<Rightarrow> period \<Rightarrow> int \<Rightarrow> int \<Rightarrow> timestamp \<Rightarrow> readings \<Rightarrow> bool" where
  "in_stretch kal p b e now clk =
     (unix_seconds (began kal p now) = b \<and> unix_seconds (ends kal p now) = e
      \<and> 0 \<le> unix_seconds now \<and> unix_seconds now < e
      \<and> (\<forall>i. 1000 * unix_seconds now \<le> int (unat (fst (clk i))) \<and> int (unat (fst (clk i))) < 1000 * e))"

lemma stretch_expiry:
  assumes "in_stretch kal p b e now clk" "lm_period l = p" "1000 * e < 2 ^ 64" "int (unat t) < 1000 * e"
  shows "t < expiry (Some (Ttl (unat (counter_seconds kal l now) * 1000000000))) (fst (clk i))"
proof -
  define left where "left = e - unix_seconds now"
  have left: "0 < left" "1000 * left < 2 ^ 64" and ms: "1000 * e \<le> int (unat (fst (clk i))) + 1000 * left"
    using assms(1,3) by (auto simp: in_stretch_def left_def)
  have "counter_seconds kal l now = max (of_int left) 1"
    using assms(1,2) left by (simp add: counter_seconds_def in_stretch_def left_def Let_def)
  moreover have "unat (of_int left :: u64) = nat left"
    using left by (simp add: unsigned_of_int take_bit_int_eq_self)
  ultimately have secs: "unat (counter_seconds kal l now) = nat left"
    using left by (auto simp: max_def word_le_nat_alt)
  have "nat (1000 * e) \<le> unat (fst (clk i)) + nat left * 1000" using ms left(1) by linarith
  moreover have "nat (1000 * e) \<le> 2 ^ 64 - 1" using assms(3) by simp
  moreover have "nat left * 1000 < 2 ^ 64" using left by (simp add: nat_less_iff flip: nat_mult_distrib)
  ultimately have "nat (1000 * e) \<le> unat (expiry (Some (Ttl (nat left * 1000000000))) (fst (clk i)))"
    by (simp add: expiry_def unat_sat_add unat_u64_or_max as_millis_def)
  then show ?thesis using assms(4) secs by (simp add: word_less_def nat_le_iff)
qed

lemma counted_bytes_inj [simp]: "counted_bytes m = counted_bytes n \<longleftrightarrow> m = n"
  using count_of_bytes by (metis sum.inject(2))

section \<open>Over the contract of the counters\<close>

definition counts_clean :: "('s \<Rightarrow> u64 \<Rightarrow> cache_key \<rightharpoonup> bytes) \<Rightarrow> 's \<Rightarrow> u64 \<Rightarrow> bool" where
  "counts_clean look s T =
     (\<forall>kal l now j t. cache_key_new System (counter_id kal l now) = Ok j \<longrightarrow> T \<le> t \<longrightarrow> (\<exists>was. look s t j = map_option counted_bytes was))"

locale request_limits = system_counters ok good view get put claim remove
  "op_count (li_counters L)" "op_counted (li_counters L)" "op_seed (li_counters L)"
  for ok :: "'s \<Rightarrow> bool" and good view get put claim remove and L :: "('s, 'd) limiter" +
  assumes new_good: "cache_key_new System ident = Ok k \<Longrightarrow> good k"
begin

text \<open>The backend is sound from \<open>T\<close> on, and the counter \<open>k\<close> has reached at least \<open>a\<close> until the stretch ends.\<close>

definition tracked :: "cache_key \<Rightarrow> int \<Rightarrow> 's \<Rightarrow> u64 \<Rightarrow> nat \<Rightarrow> bool" where
  "tracked k e s T a =
     (ok s \<and> counts_clean view s T
      \<and> (0 < a \<longrightarrow> (\<exists>n. a \<le> unat n \<and> (\<forall>t. T \<le> t \<longrightarrow> int (unat t) < 1000 * e \<longrightarrow> view s t k = Some (counted_bytes n)))))"

lemma clean_at:
  "counts_clean view s T \<Longrightarrow> cache_key_new System (counter_id kal l now) = Ok j \<Longrightarrow> T \<le> t
   \<Longrightarrow> \<exists>was. view s t j = map_option counted_bytes was"
  unfolding counts_clean_def by blast

lemma tracked_later:
  assumes "tracked k e s T a" "T \<le> ms" "ok s'" "\<And>t j. good j \<Longrightarrow> ms \<le> t \<Longrightarrow> view s' t j = view s t j" "good k"
  shows "tracked k e s' ms a"
proof -
  have "counts_clean view s' ms"
    unfolding counts_clean_def
  proof (intro allI impI)
    fix kal l now j t assume j: "cache_key_new System (counter_id kal l now) = Ok j" and t: "ms \<le> t"
    then show "\<exists>was. view s' t j = map_option counted_bytes was"
      using clean_at [OF _ j, of s T t] assms(1,2) assms(4) [OF new_good [OF j] t] by (auto simp: tracked_def)
  qed
  moreover have "\<exists>n. a \<le> unat n \<and> (\<forall>t. ms \<le> t \<longrightarrow> int (unat t) < 1000 * e \<longrightarrow> view s' t k = Some (counted_bytes n))" if pos: "0 < a"
  proof -
    obtain n where n: "a \<le> unat n" "\<forall>t. T \<le> t \<longrightarrow> int (unat t) < 1000 * e \<longrightarrow> view s t k = Some (counted_bytes n)"
      using assms(1) pos by (auto simp: tracked_def)
    then show ?thesis using assms(2) assms(4) [OF assms(5)] by (intro exI [of _ n]) auto
  qed
  ultimately show ?thesis using assms(3) by (simp add: tracked_def)
qed

lemma tracked_counted:
  assumes "tracked k e s T a" "T \<le> ms" "cache_key_new System (counter_id kal l now) = Ok j" "good k"
  shows "\<exists>was s'. op_counted (li_counters L) j ms s = (Ok was, s') \<and> tracked k e s' ms a"
proof -
  obtain was where was: "view s ms j = map_option counted_bytes was"
    using clean_at [OF _ assms(3), of s T ms] assms(1,2) by (auto simp: tracked_def)
  obtain s' where "op_counted (li_counters L) j ms s = (Ok was, s')" "ok s'" "\<forall>t i. good i \<longrightarrow> ms \<le> t \<longrightarrow> view s' t i = view s t i"
    using counted_law [OF _ new_good [OF assms(3)] was] assms(1) by (auto simp: tracked_def)
  then show ?thesis using tracked_later [OF assms(1,2) _ _ assms(4)] by blast
qed

text \<open>A write of a counter that outlives the stretch, to a value that is no lower.\<close>

lemma tracked_written:
  assumes "tracked k e s T a" "T \<le> ms" "ok s'" "good k" "good j"
    and new: "\<And>t i. good i \<Longrightarrow> view s' t i = (if i = j then if t < x then Some (counted_bytes n) else None else view s t i)"
    and own: "j = k \<Longrightarrow> a' \<le> unat n \<and> (\<forall>t. int (unat t) < 1000 * e \<longrightarrow> t < x)" and other: "j \<noteq> k \<Longrightarrow> a' = a"
  shows "tracked k e s' ms a'"
proof -
  have "counts_clean view s' ms"
    unfolding counts_clean_def
  proof (intro allI impI)
    fix kal l now i t assume i: "cache_key_new System (counter_id kal l now) = Ok i" and t: "ms \<le> t"
    then show "\<exists>was. view s' t i = map_option counted_bytes was"
      using clean_at [OF _ i, of s T t] assms(1,2) new [OF new_good [OF i], of t]
      by (cases "i = j"; cases "t < x") (auto simp: tracked_def intro: exI [of _ "Some n"] exI [of _ None])
  qed
  moreover have "\<exists>n. a' \<le> unat n \<and> (\<forall>t. ms \<le> t \<longrightarrow> int (unat t) < 1000 * e \<longrightarrow> view s' t k = Some (counted_bytes n))" if pos: "0 < a'"
  proof (cases "j = k")
    case True
    then show ?thesis using own new [OF assms(4)] by (intro exI [of _ n]) auto
  next
    case False
    then have "\<forall>t. view s' t k = view s t k" using new [OF assms(4)] by simp
    moreover obtain n where "a \<le> unat n" "\<forall>t. T \<le> t \<longrightarrow> int (unat t) < 1000 * e \<longrightarrow> view s t k = Some (counted_bytes n)"
      using assms(1) pos other [OF False] by (auto simp: tracked_def)
    ultimately show ?thesis using assms(2) other [OF False] by (intro exI [of _ n]) auto
  qed
  ultimately show ?thesis using assms(3) by (simp add: tracked_def)
qed

lemma tracked_held:
  assumes "tracked k e s T a" "T \<le> ms" "int (unat ms) < 1000 * e" "view s ms k = map_option counted_bytes was" "0 < a"
  shows "\<exists>n. was = Some n \<and> a \<le> unat n"
proof -
  obtain n where "a \<le> unat n" "\<forall>t. T \<le> t \<longrightarrow> int (unat t) < 1000 * e \<longrightarrow> view s t k = Some (counted_bytes n)"
    using assms(1,5) by (auto simp: tracked_def)
  then show ?thesis using assms(2-4) by (cases was) auto
qed

lemma tracked_seed:
  assumes "tracked k e s T a" "T \<le> ms" "int (unat ms) < 1000 * e" "cache_key_new System (counter_id kal l now) = Ok j" "good k"
    and "j = k \<Longrightarrow> \<forall>t. int (unat t) < 1000 * e \<longrightarrow> t < expiry (Some ttl) ms"
  shows "\<exists>m s'. op_seed (li_counters L) j n ttl ms us s = Some (Ok (m, s')) \<and> tracked k e s' ms a"
proof -
  obtain was where was: "view s ms j = map_option counted_bytes was"
    using clean_at [OF _ assms(4), of s T ms] assms(1,2) by (auto simp: tracked_def)
  obtain s' where s': "op_seed (li_counters L) j n ttl ms us s = Some (Ok (unwrap_or was n, s'))" "ok s'"
    "\<forall>t i. good i \<longrightarrow> view s' t i = (if i = j then if t < expiry (Some ttl) ms then Some (counted_bytes (unwrap_or was n)) else None else view s t i)"
    using seed_law [OF _ new_good [OF assms(4)] was] assms(1) unfolding tracked_def by blast
  have "a \<le> unat (unwrap_or was n)" if "j = k"
    using tracked_held [OF assms(1-3), of was] was that by (cases "0 < a") auto
  then have "tracked k e s' ms a"
    using tracked_written [OF assms(1,2) s'(2) assms(5) new_good [OF assms(4)] s'(3) [rule_format]] assms(6) by blast
  then show ?thesis using s'(1) by blast
qed

lemma tracked_count:
  assumes "tracked k e s T a" "T \<le> ms" "int (unat ms) < 1000 * e" "cache_key_new System (counter_id kal l now) = Ok j" "good k"
    and "j = k \<Longrightarrow> \<forall>t. int (unat t) < 1000 * e \<longrightarrow> t < expiry (Some ttl) ms"
  shows "\<exists>made s'. op_count (li_counters L) j n ttl ms us s = Some (Ok (made, s')) \<and> tracked k e s' ms a
    \<and> (j = k \<longrightarrow> n = 1 \<longrightarrow> unat made < 2 ^ 64 - 1 \<longrightarrow> a + 1 \<le> unat made \<and> tracked k e s' ms (a + 1))"
proof -
  obtain was where was: "view s ms j = map_option counted_bytes was"
    using clean_at [OF _ assms(4), of s T ms] assms(1,2) by (auto simp: tracked_def)
  define made where "made = sat_add (unwrap_or was 0) n"
  obtain s' where s': "op_count (li_counters L) j n ttl ms us s = Some (Ok (made, s'))" "ok s'"
    "\<forall>t i. good i \<longrightarrow> view s' t i = (if i = j then if t < expiry (Some ttl) ms then Some (counted_bytes made) else None else view s t i)"
    using count_law [OF _ new_good [OF assms(4)] was] assms(1) unfolding tracked_def made_def by blast
  note written = tracked_written [OF assms(1,2) s'(2) assms(5) new_good [OF assms(4)] s'(3) [rule_format]]
  have low: "a \<le> unat (unwrap_or was 0)" if "j = k"
    using tracked_held [OF assms(1-3), of was] was that by (cases "0 < a") auto
  have grown: "unat made = min (unat (unwrap_or was 0) + unat n) (2 ^ 64 - 1)" by (simp add: made_def unat_sat_add)
  have "unat (unwrap_or was 0) \<le> 2 ^ 64 - 1" using unat_less [of "unwrap_or was (0 :: u64)"] by simp
  then have "a \<le> unat made" if "j = k" using low that grown by simp
  then have kept: "tracked k e s' ms a" using written assms(6) by blast
  have more: "a + 1 \<le> unat made" if "j = k" "n = 1" "unat made < 2 ^ 64 - 1" using low that grown by auto
  then have "tracked k e s' ms (a + 1)" if "j = k" "n = 1" "unat made < 2 ^ 64 - 1" using written [of "a + 1"] assms(6) that by blast
  then show ?thesis using s'(1) kept more by blast
qed

text \<open>What one call does with one limit \<open>l\<close> while the counter \<open>k\<close> of a limit of the period \<open>p\<close> is followed.\<close>

lemma counter_lives:
  assumes "in_stretch kal p b e now clk" "1000 * e < 2 ^ 64" "cache_key_new System (counter_id kal m at) = Ok k"
    "lm_period m = p" "unix_seconds (began kal p at) = b" "cache_key_new System (counter_id kal l now) = Ok j" "j = k"
  shows "\<forall>t. int (unat t) < 1000 * e \<longrightarrow> t < expiry (Some (Ttl (unat (counter_seconds kal l now) * 1000000000))) (fst (clk i))"
  using stretch_expiry [OF assms(1) _ assms(2)] same_counter [of kal l now k m at] assms(3,4,6,7) by auto

lemma seeded_tracked:
  assumes "tracked k e s T a" "T \<le> fst (clk 0)" "fst (clk 0) \<le> fst (clk 1)" "int (unat (fst (clk 1))) < 1000 * e"
    and "cache_key_new System (counter_id kal l now) = Ok j" "good k"
    and "j = k \<Longrightarrow> \<forall>t. int (unat t) < 1000 * e \<longrightarrow> t < expiry (Some ttl) (fst (clk 1))"
  shows "\<exists>r s'. seeded kal L l now j ttl clk d s = Some (r, s') \<and> tracked k e s' (fst (clk 1)) a
    \<and> (is_ok (li_spent L (filter_of (lm_scope l)) (lm_counted l) (began kal (lm_period l) now) d) \<longrightarrow> is_ok r)"
proof -
  obtain was s1 where read: "op_counted (li_counters L) j (fst (clk 0)) s = (Ok was, s1)" "tracked k e s1 (fst (clk 0)) a"
    using tracked_counted [OF assms(1,2,5,6)] by blast
  have wait: "tracked k e s1 (fst (clk 1)) a"
    using tracked_later [OF read(2) assms(3) _ _ assms(6)] read(2) by (simp add: tracked_def)
  show ?thesis
  proof (cases was)
    case (Some n)
    then show ?thesis using read(1) wait by (simp add: seeded_def)
  next
    case None
    show ?thesis
    proof (cases "li_spent L (filter_of (lm_scope l)) (lm_counted l) (began kal (lm_period l) now) d")
      case (Inl err)
      then show ?thesis using read(1) wait None by (simp add: seeded_def)
    next
      case (Inr n)
      then show ?thesis
        using tracked_seed [OF read(2) assms(3,4,5,6,7), of n "snd (clk 1)"] read(1) None by (fastforce simp: seeded_def)
    qed
  qed
qed

lemma limit_tracked:
  assumes tr: "tracked k e s T a" and order: "T \<le> fst (clk 0)" "mono (\<lambda>i. fst (clk i))"
    and now: "in_stretch kal p b e now clk" "1000 * e < 2 ^ 64" and l: "limit_ok l"
    and k: "cache_key_new System (counter_id kal m at) = Ok k" "lm_period m = p" "unix_seconds (began kal p at) = b"
  shows "\<exists>r s'. rate kal L l now clk d s = Some (r, s') \<and> tracked k e s' (fst (clk 2)) a
      \<and> (cache_key_new System (counter_id kal l now) = Ok k \<longrightarrow> r = Allowed \<longrightarrow> unat (allowance_get (lm_allowance l)) < 2 ^ 64 - 1
         \<longrightarrow> is_ok (li_spent L (filter_of (lm_scope l)) (lm_counted l) (began kal (lm_period l) now) d)
         \<longrightarrow> tracked k e s' (fst (clk 2)) (a + 1) \<and> a + 1 \<le> unat (allowance_get (lm_allowance l)))"
    and "\<exists>r s'. quota kal L l now clk d s = Some (r, s') \<and> tracked k e s' (fst (clk 2)) a"
proof -
  define ttl where "ttl = Ttl (unat (counter_seconds kal l now) * 1000000000)"
  obtain j where j: "cache_key_new System (counter_id kal l now) = Ok j" "counter kal l now = Some (j, ttl)"
    using counter_new [OF l] by (auto simp: ttl_def)
  have good: "good k" using new_good [OF k(1)] .
  have live: "\<forall>t. int (unat t) < 1000 * e \<longrightarrow> t < expiry (Some ttl) (fst (clk i))" if "j = k" for i
    using counter_lives [OF now k j(1) that] by (simp add: ttl_def)
  have early: "int (unat (fst (clk i))) < 1000 * e" for i using now(1) by (simp add: in_stretch_def)
  have steps: "fst (clk 0) \<le> fst (clk 1)" "fst (clk 1) \<le> fst (clk 2)" using order(2) by (simp_all add: mono_def)
  obtain r s1 where seed: "seeded kal L l now j ttl clk d s = Some (r, s1)" "tracked k e s1 (fst (clk 1)) a"
    "is_ok (li_spent L (filter_of (lm_scope l)) (lm_counted l) (began kal (lm_period l) now) d) \<longrightarrow> is_ok r"
    using seeded_tracked [OF tr order(1) steps(1) early j(1) good live] by blast
  have idle: "tracked k e s1 (fst (clk 2)) a"
    using tracked_later [OF seed(2) steps(2) _ _ good] seed(2) by (simp add: tracked_def)
  then show "\<exists>r s'. quota kal L l now clk d s = Some (r, s') \<and> tracked k e s' (fst (clk 2)) a"
    using seed(1) j(2) by (cases r) (simp_all add: quota_def)
  obtain made s2 where count: "op_count (li_counters L) j 1 ttl (fst (clk 2)) (snd (clk 2)) s1 = Some (Ok (made, s2))"
    "tracked k e s2 (fst (clk 2)) a"
    "j = k \<longrightarrow> unat made < 2 ^ 64 - 1 \<longrightarrow> a + 1 \<le> unat made \<and> tracked k e s2 (fst (clk 2)) (a + 1)"
    using tracked_count [OF seed(2) steps(2) early j(1) good live, of 1 "snd (clk 2)"] by blast
  show "\<exists>r s'. rate kal L l now clk d s = Some (r, s') \<and> tracked k e s' (fst (clk 2)) a
      \<and> (cache_key_new System (counter_id kal l now) = Ok k \<longrightarrow> r = Allowed \<longrightarrow> unat (allowance_get (lm_allowance l)) < 2 ^ 64 - 1
         \<longrightarrow> is_ok (li_spent L (filter_of (lm_scope l)) (lm_counted l) (began kal (lm_period l) now) d)
         \<longrightarrow> tracked k e s' (fst (clk 2)) (a + 1) \<and> a + 1 \<le> unat (allowance_get (lm_allowance l)))"
  proof (cases r)
    case (Inl err)
    then show ?thesis using seed idle j(2) by (simp add: rate_def)
  next
    case (Inr n)
    have "unat made \<le> unat (allowance_get (lm_allowance l))" if "\<not> allowance_get (lm_allowance l) < made"
      using that by (simp add: not_less word_le_nat_alt)
    then show ?thesis using Inr seed count j by (auto simp: rate_def spent_decision_def)
  qed
qed

text \<open>The limits of one call in turn; \<open>l\<close> is the rate that is followed.\<close>

lemma admit_limits_tracked:
  assumes "tracked k e s T a" "T \<le> fst (clk (3 * i))" "mono (\<lambda>i. fst (clk i))"
    and now: "in_stretch kal (lm_period l) b e now clk" "1000 * e < 2 ^ 64" and ls: "\<forall>m\<in>set ls. limit_ok m"
    and l: "cache_key_new System (counter_id kal l now) = Ok k" "lm_counted l = Requests"
      "unat (allowance_get (lm_allowance l)) < 2 ^ 64 - 1"
      "is_ok (li_spent L (filter_of (lm_scope l)) Requests (began kal (lm_period l) now) d)"
  shows "\<exists>r s' T'. admit_limits kal L now clk d i ls s = Some (r, s') \<and> tracked k e s' T' a \<and> (T' = T \<or> T' \<in> range (\<lambda>i. fst (clk i)))
    \<and> (r = Allowed \<longrightarrow> l \<in> set ls \<longrightarrow> tracked k e s' T' (a + 1) \<and> a + 1 \<le> unat (allowance_get (lm_allowance l)))"
  using assms(1,2) ls
proof (induction ls arbitrary: s T a i)
  case Nil
  then show ?case by auto
next
  case (Cons m ls)
  define c where "c = readings_of clk i"
  have c: "T \<le> fst (c 0)" "mono (\<lambda>i. fst (c i))" "in_stretch kal (lm_period l) b e now c" "fst (c 2) \<le> fst (clk (3 * (i + 1)))"
    using Cons.prems(2) assms(3) now(1) by (auto simp: c_def readings_of_def mono_def in_stretch_def)
  have began_b: "unix_seconds (began kal (lm_period l) now) = b" using now(1) by (simp add: in_stretch_def)
  note one = limit_tracked [OF Cons.prems(1) c(1,2,3) now(2) _ l(1) refl began_b, of m d]
  obtain r s1 where step: "(case lm_counted m of Requests \<Rightarrow> rate | Tokens \<Rightarrow> quota) kal L m now c d s = Some (r, s1)"
    "tracked k e s1 (fst (c 2)) a"
    "m = l \<longrightarrow> r = Allowed \<longrightarrow> tracked k e s1 (fst (c 2)) (a + 1) \<and> a + 1 \<le> unat (allowance_get (lm_allowance l))"
    using one l Cons.prems(3) by (cases "lm_counted m") fastforce+
  show ?case
  proof (cases "r = Allowed")
    case False
    then have "admit_limits kal L now clk d i (m # ls) s = Some (r, s1)" using step(1) by (simp add: c_def)
    moreover have "fst (c 2) \<in> range (\<lambda>i. fst (clk i))" by (simp add: c_def readings_of_def)
    ultimately show ?thesis using step(2) False by blast
  next
    case True
    define a' where "a' = (if m = l then a + 1 else a)"
    have t: "tracked k e s1 (fst (c 2)) a'" using step True by (simp add: a'_def)
    obtain r' s' T' where rest: "admit_limits kal L now clk d (i + 1) ls s1 = Some (r', s')" "tracked k e s' T' a'"
      "T' = fst (c 2) \<or> T' \<in> range (\<lambda>i. fst (clk i))"
      "r' = Allowed \<longrightarrow> l \<in> set ls \<longrightarrow> tracked k e s' T' (a' + 1) \<and> a' + 1 \<le> unat (allowance_get (lm_allowance l))"
      using Cons.IH [OF t c(4)] Cons.prems(3) by auto
    have T': "T' \<in> range (\<lambda>i. fst (clk i))" using rest(3) by (auto simp: c_def readings_of_def)
    have low: "tracked k e s' T' a" if "tracked k e s' T' n" "a \<le> n" for n
      using that unfolding tracked_def by (auto intro: order_trans)
    have low': "tracked k e s' T' (a + 1)" if "tracked k e s' T' n" "a + 1 \<le> n" for n
      using that unfolding tracked_def by (auto intro: order_trans)
    have "tracked k e s' T' a" using low [OF rest(2)] by (simp add: a'_def)
    moreover have "tracked k e s' T' (a + 1) \<and> a + 1 \<le> unat (allowance_get (lm_allowance l))" if "r' = Allowed" "l \<in> set (m # ls)"
      using that rest(2,4) step(3) True low' by (cases "m = l") (auto simp: a'_def)
    ultimately show ?thesis using step(1) True rest(1) T' by (intro exI [of _ r'] exI [of _ s'] exI [of _ T']) (auto simp: c_def)
  qed
qed

end

section \<open>Calls one after another\<close>

record 'd admit_call =
  ac_asking :: asking
  ac_now :: timestamp
  ac_clk :: readings
  ac_db :: 'd

fun run_admits ::
  "calendar \<Rightarrow> ('s, 'd) limiter \<Rightarrow> (limit list \<Rightarrow> limit list) \<Rightarrow> limit list \<Rightarrow> 'd admit_call list \<Rightarrow> 's \<Rightarrow> (decision list \<times> 's) option" where
  "run_admits kal L order lims [] s = Some ([], s)"
| "run_admits kal L order lims (c # cs) s =
     (case admit kal L order lims (ac_asking c) (ac_now c) (ac_clk c) (ac_db c) s of
        None \<Rightarrow> None
      | Some (r, s) \<Rightarrow> map_option (\<lambda>(rs, s). (r # rs, s)) (run_admits kal L order lims cs s))"

text \<open>How many of the calls that the rate \<open>l\<close> decided on were let through.\<close>

definition admitted :: "(limit list \<Rightarrow> limit list) \<Rightarrow> limit list \<Rightarrow> limit \<Rightarrow> 'd admit_call list \<Rightarrow> decision list \<Rightarrow> nat" where
  "admitted order lims l cs rs =
     length (filter (\<lambda>(c, r). r = Allowed \<and> l \<in> set (applying_to order lims (ac_asking c))) (zip cs rs))"

text \<open>The calls are made in the stretch one after another, and the usage rows can be read.\<close>

definition calls_ok :: "calendar \<Rightarrow> ('s, 'd) limiter \<Rightarrow> limit \<Rightarrow> int \<Rightarrow> int \<Rightarrow> 'd admit_call list \<Rightarrow> bool" where
  "calls_ok kal L l b e cs =
     (sorted_wrt (\<lambda>c c'. \<forall>i j. fst (ac_clk c i) \<le> fst (ac_clk c' j)) cs
      \<and> (\<forall>c\<in>set cs. mono (\<lambda>i. fst (ac_clk c i)) \<and> in_stretch kal (lm_period l) b e (ac_now c) (ac_clk c)
           \<and> is_ok (li_spent L (filter_of (lm_scope l)) Requests (began kal (lm_period l) (ac_now c)) (ac_db c))))"

lemma decide_members: "x \<in> snd ` set (decide a l acc) \<Longrightarrow> x = l \<or> x \<in> snd ` set acc"
  by (force simp: decide_def Let_def split: if_splits option.splits)

lemma applying_to_members:
  assumes "\<forall>xs. mset (order xs) = mset xs" "x \<in> set (applying_to order lims a)"
  shows "x \<in> set lims"
proof -
  have "x \<in> snd ` set (fold (decide a) lims acc) \<Longrightarrow> x \<in> set lims \<or> x \<in> snd ` set acc" for acc
  proof (induction lims arbitrary: acc)
    case (Cons l lims)
    then have "x \<in> set lims \<or> x \<in> snd ` set (decide a l acc)" by simp
    then show ?case using decide_members [of x a l acc] by auto
  qed simp
  moreover have "set (order xs) = set xs" for xs using assms(1) by (metis set_mset_mset)
  ultimately show ?thesis using assms(2) by (fastforce simp: applying_to_def)
qed

context request_limits
begin

lemma run_admits_tracked:
  assumes "\<forall>xs. mset (order xs) = mset xs" "\<forall>m\<in>set lims. limit_ok m" "1000 * e < 2 ^ 64"
    and l: "lm_counted l = Requests" "unat (allowance_get (lm_allowance l)) < 2 ^ 64 - 1"
    and "calls_ok kal L l b e cs" "\<forall>c\<in>set cs. cache_key_new System (counter_id kal l (ac_now c)) = Ok k"
    and "tracked k e s T a" "\<forall>c\<in>set cs. \<forall>i. T \<le> fst (ac_clk c i)" "a \<le> unat (allowance_get (lm_allowance l))"
  shows "\<exists>rs s'. run_admits kal L order lims cs s = Some (rs, s') \<and> length rs = length cs
    \<and> a + admitted order lims l cs rs \<le> unat (allowance_get (lm_allowance l))"
  using assms(6-)
proof (induction cs arbitrary: s T a)
  case Nil
  then show ?case by (simp add: admitted_def)
next
  case (Cons c cs)
  let ?lim = "unat (allowance_get (lm_allowance l))" and ?ls = "applying_to order lims (ac_asking c)"
  have c: "mono (\<lambda>i. fst (ac_clk c i))" "in_stretch kal (lm_period l) b e (ac_now c) (ac_clk c)"
    "is_ok (li_spent L (filter_of (lm_scope l)) Requests (began kal (lm_period l) (ac_now c)) (ac_db c))"
    "cache_key_new System (counter_id kal l (ac_now c)) = Ok k" "T \<le> fst (ac_clk c (3 * 0))"
    and cs: "calls_ok kal L l b e cs" and after: "\<And>c' i j. c' \<in> set cs \<Longrightarrow> fst (ac_clk c i) \<le> fst (ac_clk c' j)"
    using Cons.prems by (auto simp: calls_ok_def)
  have "\<forall>m\<in>set ?ls. limit_ok m" using applying_to_members [OF assms(1)] assms(2) by blast
  from admit_limits_tracked [OF Cons.prems(3) c(5,1,2) assms(3) this c(4) l c(3)]
  obtain r s1 T1 where one: "admit kal L order lims (ac_asking c) (ac_now c) (ac_clk c) (ac_db c) s = Some (r, s1)"
    "tracked k e s1 T1 a" "T1 = T \<or> T1 \<in> range (\<lambda>i. fst (ac_clk c i))"
    "r = Allowed \<longrightarrow> l \<in> set ?ls \<longrightarrow> tracked k e s1 T1 (a + 1) \<and> a + 1 \<le> ?lim"
    unfolding admit_def by blast
  define hit where "hit = (r = Allowed \<and> l \<in> set ?ls)"
  define a' where "a' = (if hit then a + 1 else a)"
  have a': "tracked k e s1 T1 a'" "a' \<le> ?lim" using one Cons.prems(5) by (auto simp: a'_def hit_def)
  have "\<forall>c'\<in>set cs. \<forall>i. T1 \<le> fst (ac_clk c' i)" using one(3) after Cons.prems(4) by auto
  then obtain rs s' where rest: "run_admits kal L order lims cs s1 = Some (rs, s')" "length rs = length cs" "a' + admitted order lims l cs rs \<le> ?lim"
    using Cons.IH [OF cs _ a'(1) _ a'(2)] Cons.prems(2) by auto
  have "admitted order lims l (c # cs) (r # rs) = of_bool hit + admitted order lims l cs rs"
    by (simp add: admitted_def hit_def)
  then show ?case using one(1) rest by (simp add: a'_def split: if_splits)
qed

lemma rate_bound:
  assumes "\<forall>xs. mset (order xs) = mset xs" "\<forall>m\<in>set lims. limit_ok m" "l \<in> set lims" "1000 * e < 2 ^ 64"
    and "lm_counted l = Requests" "unat (allowance_get (lm_allowance l)) < 2 ^ 64 - 1"
    and "calls_ok kal L l b e cs" "ok s" "counts_clean view s T" "\<forall>c\<in>set cs. \<forall>i. T \<le> fst (ac_clk c i)"
  shows "\<exists>rs s'. run_admits kal L order lims cs s = Some (rs, s') \<and> length rs = length cs
    \<and> admitted order lims l cs rs \<le> unat (allowance_get (lm_allowance l))"
proof (cases cs)
  case Nil
  then show ?thesis by (simp add: admitted_def)
next
  case (Cons c0 cs')
  have l: "limit_ok l" using assms(2,3) by blast
  obtain k where k: "cache_key_new System (counter_id kal l (ac_now c0)) = Ok k" using counter_new [OF l] by blast
  have "counter_id kal l (ac_now c) = counter_id kal l (ac_now c0)" if "c \<in> set cs" for c
    using that Cons assms(7) by (auto simp: counter_id_def calls_ok_def in_stretch_def)
  then have keys: "\<forall>c\<in>set cs. cache_key_new System (counter_id kal l (ac_now c)) = Ok k" using k by simp
  have "tracked k e s T 0" using assms(8,9) by (simp add: tracked_def)
  from run_admits_tracked [OF assms(1,2,4,5,6,7) keys this assms(10)] show ?thesis by simp
qed

end

section \<open>The standalone limiter\<close>

definition standalone_limiter :: "(sled, db) limiter" where
  "standalone_limiter =
     \<lparr>li_counters = \<lparr>op_count = sled_count, op_counted = sled_counted, op_seed = sled_seed\<rparr>, li_spent = spent\<rparr>"

interpretation counting: request_limits sys_ok sys_key sys_view sled_get sled_put sled_claim sled_remove standalone_limiter
proof -
  have "system_counters sys_ok sys_key sys_view sled_get sled_put sled_claim sled_remove (op_count (li_counters standalone_limiter))
      (op_counted (li_counters standalone_limiter)) (op_seed (li_counters standalone_limiter))"
    using sled_counters.system_counters_axioms by (simp add: standalone_limiter_def)
  then show "request_limits sys_ok sys_key sys_view sled_get sled_put sled_claim sled_remove standalone_limiter"
    by (intro request_limits.intro request_limits_axioms.intro sys_key_new)
qed

section \<open>Properties\<close>


text \<open>One request a minute for a tenant, asked for twice.\<close>

definition sample_rate :: limit where
  "sample_rate = \<lparr>lm_scope = of_tenant (TenantId ''a''), lm_counted = Requests, lm_period = Minute, lm_allowance = Allowance 1,
     lm_created = Timestamp 1\<rparr>"

definition sample_call :: "u64 \<Rightarrow> db admit_call" where
  "sample_call n = \<lparr>ac_asking = \<lparr>ak_tenant = TenantId ''a'', ak_user = UserId ''m'', ak_api = ApiId ''chat''\<rparr>, ac_now = Timestamp 5,
     ac_clk = (\<lambda>_. (n, 1)), ac_db = fresh_db\<rparr>"


end
