(* ===== verification/Flow.thy ===== *)
theory Flow
  imports Measure Responses Limits
begin

text \<open>
  One request carried through every stage: \<open>crates/ip-gateway/src/stage.rs\<close>, \<open>error.rs\<close>,
  \<open>processor.rs\<close>, \<open>flow/stages.rs\<close>, \<open>flow/run.rs\<close>, \<open>flow/followed.rs\<close>, \<open>flow/record.rs\<close> and
  \<open>flow/gateway.rs\<close>. The stages of the typestate machine are types of their own, as in the code. What
  a request changes is the record \<open>gw_world\<close>: the plugins' and the upstream's own states, the
  dispatcher, the cache, the tables, and the records still to be written. The clocks and the random
  draw one request reads are the record \<open>moments\<close>. Spans and log lines are left out.
\<close>

section \<open>Stages and errors\<close>

datatype stage_name =
    Receive | Authentication | HeaderRead | HeaderProcess | Authorization | BodyRead | BodyProcess | RouteStage
  | ResponseHeaderRead | ResponseHeaderProcess | ResponseBodyRead | ResponseBodyProcess | SendStage

fun stage_str :: "stage_name \<Rightarrow> string" where
  "stage_str Receive = ''receive''"
| "stage_str Authentication = ''authentication''"
| "stage_str HeaderRead = ''header read''"
| "stage_str HeaderProcess = ''header process''"
| "stage_str Authorization = ''authorization''"
| "stage_str BodyRead = ''body read''"
| "stage_str BodyProcess = ''body process''"
| "stage_str RouteStage = ''route''"
| "stage_str ResponseHeaderRead = ''response header read''"
| "stage_str ResponseHeaderProcess = ''response header process''"
| "stage_str ResponseBodyRead = ''response body read''"
| "stage_str ResponseBodyProcess = ''response body process''"
| "stage_str SendStage = ''send''"

datatype gateway_error_kind =
    Unauthenticated
  | Forbidden capability
  | NoRoute route_key
  | ProtocolNotServed protocol
  | MalformedRequest string
  | ValueErr core_error
  | ProcessorErr processor_error
  | UpstreamErr string
  | CacheErr cache_error
  | SpentErr counted_what period allowance timestamp
  | Unmeasured "cache_error + storage_error"

datatype gateway_error = GatewayError (ge_stage: stage_name) (ge_kind: gateway_error_kind)

definition public_reason :: "gateway_error \<Rightarrow> string option" where
  "public_reason e =
     (case ge_kind e of
        ProcessorErr (Refused reason) \<Rightarrow> Some reason
      | SpentErr c p a _ \<Rightarrow>
          Some (counted_name c @ '' per '' @ period_name p @ '' is spent: '' @ show_nat (unat (allowance_get a)) @ '' allowed'')
      | _ \<Rightarrow> None)"

definition error_status :: "gateway_error \<Rightarrow> u16" where
  "error_status e =
     (case ge_kind e of
        Unauthenticated \<Rightarrow> 401
      | Forbidden _ \<Rightarrow> 403
      | NoRoute _ \<Rightarrow> 404
      | ProtocolNotServed _ \<Rightarrow> 501
      | MalformedRequest _ \<Rightarrow> 400
      | ValueErr _ \<Rightarrow> 400
      | ProcessorErr (Refused _) \<Rightarrow> 403
      | ProcessorErr (Failed _) \<Rightarrow> 500
      | UpstreamErr _ \<Rightarrow> 502
      | CacheErr _ \<Rightarrow> 500
      | SpentErr _ _ _ _ \<Rightarrow> 429
      | Unmeasured _ \<Rightarrow> 503)"

definition retry_after :: "gateway_error \<Rightarrow> timestamp \<Rightarrow> u64 option" where
  "retry_after e now =
     (case ge_kind e of
        SpentErr _ _ _ until \<Rightarrow>
          (let left = unix_seconds until - unix_seconds now in
           Some (max (if 0 \<le> left \<and> left < 2 ^ 64 then of_int left else 0) 1))
      | _ \<Rightarrow> None)"

section \<open>Plugin chains\<close>

type_synonym 'p header_processor = "header_map \<Rightarrow> 'p \<Rightarrow> (processor_error, header_map) result \<times> 'p"

record 'p processor_chain =
  pc_request_headers :: "(plugin_order \<times> 'p header_processor) list"
  pc_request_body :: "(plugin_order \<times> 'p body_processor) list"
  pc_response_headers :: "(plugin_order \<times> 'p header_processor) list"
  pc_response_body :: "(plugin_order \<times> 'p body_processor) list"
  pc_response_chunk :: "(plugin_order \<times> 'p body_processor) list"

definition chain_new :: "'p processor_chain" where
  "chain_new = \<lparr>pc_request_headers = [], pc_request_body = [], pc_response_headers = [], pc_response_body = [], pc_response_chunk = []\<rparr>"

text \<open>\<open>insert_header\<close> and \<open>insert_body\<close>: pushed last, then sorted by falling order, stably.\<close>

definition insert_ordered :: "(plugin_order \<times> 'a) list \<Rightarrow> plugin_order \<times> 'a \<Rightarrow> (plugin_order \<times> 'a) list" where
  "insert_ordered chain x = sort_key (\<lambda>(n, f). - int (unat (order_get n))) (chain @ [x])"

definition with_request_header :: "plugin_order \<times> 'p header_processor \<Rightarrow> 'p processor_chain \<Rightarrow> 'p processor_chain" where
  "with_request_header x c = c\<lparr>pc_request_headers := insert_ordered (pc_request_headers c) x\<rparr>"

definition with_request_body :: "plugin_order \<times> 'p body_processor \<Rightarrow> 'p processor_chain \<Rightarrow> 'p processor_chain" where
  "with_request_body x c = c\<lparr>pc_request_body := insert_ordered (pc_request_body c) x\<rparr>"

definition with_response_header :: "plugin_order \<times> 'p header_processor \<Rightarrow> 'p processor_chain \<Rightarrow> 'p processor_chain" where
  "with_response_header x c = c\<lparr>pc_response_headers := insert_ordered (pc_response_headers c) x\<rparr>"

definition with_response_body :: "plugin_order \<times> 'p body_processor \<Rightarrow> 'p processor_chain \<Rightarrow> 'p processor_chain" where
  "with_response_body x c = c\<lparr>pc_response_body := insert_ordered (pc_response_body c) x\<rparr>"

definition with_response_chunk :: "plugin_order \<times> 'p body_processor \<Rightarrow> 'p processor_chain \<Rightarrow> 'p processor_chain" where
  "with_response_chunk x c = c\<lparr>pc_response_chunk := insert_ordered (pc_response_chunk c) x\<rparr>"

section \<open>What one request reads and changes\<close>

record request_context =
  cx_authority :: authority
  cx_protocol :: protocol
  cx_listen :: socket_addr
  cx_trace :: trace_id
  cx_turn :: "turn_id option"

text \<open>A record to be written: the row, what it counts towards, and how many tokens.\<close>

record job =
  jb_usage :: new_usage
  jb_limiting :: "(limit list \<times> asking) option"
  jb_spent :: u64

record ('p, 'u, 's, 'd) gw_world =
  gw_plugins :: 'p
  gw_upstream :: 'u
  gw_dispatcher :: dispatcher
  gw_cache :: 's
  gw_db :: 'd
  gw_pending :: "job list"

record moments =
  mo_now :: timestamp
  mo_limits :: readings
  mo_get :: "u64 \<times> u64"
  mo_put :: "u64 \<times> u64"
  mo_system :: int
  mo_entropy :: "u64 option"
  mo_chosen :: nat
  mo_answered :: nat
  mo_latency :: nat

text \<open>A plan shared behind an \<open>Arc\<close> is named by its place in the dispatcher, \<open>gt_plan_at\<close>.\<close>

record ('p, 'u, 's, 'd) gateway =
  gt_table :: routing_table
  gt_plan_at :: "route_rule \<Rightarrow> nat"
  gt_chains :: "caller \<Rightarrow> api_id \<Rightarrow> 'p processor_chain"
  gt_lims :: "limit list"
  gt_send :: "request \<Rightarrow> 'u \<Rightarrow> (string, response) result \<times> 'u"
  gt_responses :: "'s response_cache option"
  gt_usage :: "(new_usage \<Rightarrow> timestamp \<Rightarrow> 'd \<Rightarrow> (storage_error, usage \<times> 'd) result) option"
  gt_limiter :: "('s, 'd) limiter option"

text \<open>The packages, the calendar, the order of a \<open>HashMap\<close> and the json reader a gateway runs with.\<close>

record gw_env =
  en_http :: http_crates
  en_crates :: crates
  en_order :: "limit list \<Rightarrow> limit list"
  en_json :: json_parser

text \<open>A step of the flow: it may not return, it may fail, and it changes the world.\<close>

type_synonym ('w, 'a) flow = "'w \<Rightarrow> ((gateway_error, 'a) result \<times> 'w) option"

definition fret :: "'a \<Rightarrow> ('w, 'a) flow" where
  "fret a w = Some (Ok a, w)"

definition ffail :: "stage_name \<Rightarrow> gateway_error_kind \<Rightarrow> ('w, 'a) flow" where
  "ffail stage k w = Some (Err (GatewayError stage k), w)"

definition flift :: "(gateway_error, 'a) result \<Rightarrow> ('w, 'a) flow" where
  "flift r w = Some (r, w)"

definition fbind :: "('w, 'a) flow \<Rightarrow> ('a \<Rightarrow> ('w, 'b) flow) \<Rightarrow> ('w, 'b) flow" where
  "fbind m f w =
     (case m w of
        None \<Rightarrow> None
      | Some (Err e, w) \<Rightarrow> Some (Err e, w)
      | Some (Ok a, w) \<Rightarrow> f a w)"

section \<open>Running a chain\<close>

fun run_headers ::
  "stage_name \<Rightarrow> 'p header_processor list \<Rightarrow> header_map \<Rightarrow> (('p, 'u, 's, 'd) gw_world, header_map) flow" where
  "run_headers stage [] h w = Some (Ok h, w)"
| "run_headers stage (f # fs) h w =
     (case f h (gw_plugins w) of
        (Err e, p) \<Rightarrow> Some (Err (GatewayError stage (ProcessorErr e)), w\<lparr>gw_plugins := p\<rparr>)
      | (Ok h, p) \<Rightarrow> run_headers stage fs h (w\<lparr>gw_plugins := p\<rparr>))"

definition collect_at :: "stage_name \<Rightarrow> gateway_body \<Rightarrow> (gateway_error, bytes) result" where
  "collect_at stage body = map_err (\<lambda>detail. GatewayError stage (MalformedRequest detail)) (collect_body body)"

fun run_processors ::
  "stage_name \<Rightarrow> 'p body_processor list \<Rightarrow> bytes \<Rightarrow> (('p, 'u, 's, 'd) gw_world, bytes) flow" where
  "run_processors stage [] b w = Some (Ok b, w)"
| "run_processors stage (f # fs) b w =
     (case f b (gw_plugins w) of
        (Err e, p) \<Rightarrow> Some (Err (GatewayError stage (ProcessorErr e)), w\<lparr>gw_plugins := p\<rparr>)
      | (Ok b, p) \<Rightarrow> run_processors stage fs b (w\<lparr>gw_plugins := p\<rparr>))"

definition run_body ::
  "stage_name \<Rightarrow> 'p body_processor list \<Rightarrow> gateway_body \<Rightarrow> (('p, 'u, 's, 'd) gw_world, bytes option) flow" where
  "run_body stage chain body =
     (if chain = [] then fret None
      else fbind (flift (collect_at (if stage = BodyProcess then BodyRead else ResponseBodyRead) body)) (\<lambda>b.
           fbind (run_processors stage chain b) (\<lambda>b. fret (Some b))))"

section \<open>The stages\<close>

datatype received = Received request_context request
datatype authorized = Authorized request_context request resolution
datatype headers_processed = HeadersProcessed request_context request resolution
datatype body_processed = BodyProcessed request_context request resolution
datatype forwarded = Forwarded request_context response replica
datatype response_headers_processed = ResponseHeadersProcessed request_context response replica
datatype response_body_processed = ResponseBodyProcessed request_context response replica

definition socket_addr_fmt :: "socket_addr \<Rightarrow> string" where
  "socket_addr_fmt a =
     (case sa_ip a of
        V4 _ \<Rightarrow> ip_fmt (sa_ip a)
      | V6 _ \<Rightarrow> ''['' @ ip_fmt (sa_ip a) @ '']'') @ '':'' @ show_nat (unat (sa_port a))"

definition key_of :: "http_crates \<Rightarrow> request_context \<Rightarrow> request \<Rightarrow> (gateway_error, route_key) result" where
  "key_of X cx rq =
     map_err (\<lambda>e. GatewayError HeaderRead (ValueErr e))
       (request_key (cx_protocol cx) (authority_of_request X rq (socket_addr_fmt (cx_listen cx))) (sa_port (cx_listen cx))
          (uri_path (req_uri rq)))"

definition resolve_route :: "routing_table \<Rightarrow> route_key \<Rightarrow> (gateway_error, resolution) result" where
  "resolve_route table key =
     rbind (ok_or (resolve table key) (GatewayError Authorization (NoRoute key))) (\<lambda>res.
     case List.find (\<lambda>t. \<not> is_forwarded (ep_protocol (w_endpoint t))) (res_targets res) of
       Some t \<Rightarrow> Err (GatewayError Authorization (ProtocolNotServed (ep_protocol (w_endpoint t))))
     | None \<Rightarrow> Ok res)"

definition allow :: "request_context \<Rightarrow> resolution \<Rightarrow> (gateway_error, unit) result" where
  "allow cx res =
     (let who = au_identity (cx_authority cx);
          scope = AtApi (c_user who) (c_tenant who) (r_api (res_rule res)) in
      if authority_allows (cx_authority cx) ApiAccess scope then Ok ()
      else Err (GatewayError Authorization (Forbidden ApiAccess)))"

fun authorize :: "http_crates \<Rightarrow> routing_table \<Rightarrow> received \<Rightarrow> (gateway_error, authorized) result" where
  "authorize X table (Received cx rq) =
     rbind (key_of X cx rq) (\<lambda>key.
     rbind (resolve_route table key) (\<lambda>res.
     rbind (allow cx res) (\<lambda>_. Ok (Authorized cx rq res))))"

fun process_headers ::
  "'p header_processor list \<Rightarrow> authorized \<Rightarrow> (('p, 'u, 's, 'd) gw_world, headers_processed) flow" where
  "process_headers chain (Authorized cx rq res) =
     fbind (run_headers HeaderProcess chain (req_headers rq)) (\<lambda>h.
     fret (HeadersProcessed cx (rq\<lparr>req_headers := h\<rparr>) res))"

fun process_body ::
  "'p processor_chain \<Rightarrow> headers_processed \<Rightarrow> (('p, 'u, 's, 'd) gw_world, body_processed) flow" where
  "process_body pcs (HeadersProcessed cx rq res) =
     fbind (run_body BodyProcess (map snd (pc_request_body pcs)) (req_body rq)) (\<lambda>body.
     fret (BodyProcessed cx
       (case body of
          None \<Rightarrow> rq
        | Some b \<Rightarrow> rq\<lparr>req_headers := set_length (length b) (req_headers rq), req_body := from_bytes b\<rparr>) res))"

fun flow_response_key ::
  "gw_env \<Rightarrow> body_processed \<Rightarrow> (gateway_error, cache_key \<times> body_processed) result" where
  "flow_response_key E (BodyProcessed cx rq res) =
     rbind (key_of (en_http E) cx rq) (\<lambda>route.
     rbind (collect_at BodyRead (req_body rq)) (\<lambda>b.
     rbind (map_err (\<lambda>e. GatewayError BodyProcess (CacheErr e))
              (response_key (en_crates E) route (c_tenant (au_identity (cx_authority cx))) b)) (\<lambda>key.
     Ok (key, BodyProcessed cx (rq\<lparr>req_body := from_bytes b\<rparr>) res))))"

text \<open>The endpoint chosen is counted against until \<open>forward\<close> returns, whichever way it does.\<close>

fun forward ::
  "gw_env \<Rightarrow> ('p, 'u, 's, 'd) gateway \<Rightarrow> moments \<Rightarrow> body_processed \<Rightarrow> (('p, 'u, 's, 'd) gw_world, forwarded) flow" where
  "forward E G mo (BodyProcessed cx rq res) w =
     (let (ch, disp) = dispatcher_choose (gw_dispatcher w) (gt_plan_at G (res_rule res)) (r_strategy (res_rule res))
            (res_targets res) (mo_entropy mo) (mo_chosen mo);
          done_disp = drop_chosen disp ch (mo_answered mo) in
      case rewrite (en_http E) rq (ch_endpoint ch) of
        Err detail \<Rightarrow> Some (Err (GatewayError RouteStage (MalformedRequest detail)), w\<lparr>gw_dispatcher := done_disp\<rparr>)
      | Ok rq \<Rightarrow>
          (let (r, u) = gt_send G rq (gw_upstream w);
               w = w\<lparr>gw_dispatcher := done_disp, gw_upstream := u\<rparr> in
           case r of
             Err detail \<Rightarrow> Some (Err (GatewayError RouteStage (UpstreamErr detail)), w)
           | Ok rp \<Rightarrow>
               Some (Ok (Forwarded cx (rp\<lparr>resp_headers := strip_hop_by_hop (en_http E) (resp_headers rp)\<rparr>)
                           (replica_of (ch_endpoint ch))), w)))"

fun process_response_headers ::
  "'p header_processor list \<Rightarrow> forwarded \<Rightarrow> (('p, 'u, 's, 'd) gw_world, response_headers_processed) flow" where
  "process_response_headers chain (Forwarded cx rp by_whom) =
     fbind (run_headers ResponseHeaderProcess chain (resp_headers rp)) (\<lambda>h.
     fret (ResponseHeadersProcessed cx (rp\<lparr>resp_headers := h\<rparr>) by_whom))"

text \<open>
  A streamed body is pumped by a task of its own while the caller reads; its frames are those of
  \<open>stream_chunks\<close> with a receiver that stays, and the plugins' state is the one the pump leaves.
\<close>

fun process_response_body ::
  "http_crates \<Rightarrow> 'p processor_chain \<Rightarrow> response_headers_processed \<Rightarrow> (('p, 'u, 's, 'd) gw_world, response_body_processed) flow" where
  "process_response_body X pcs (ResponseHeadersProcessed cx rp by_whom) w =
     (if is_event_stream X (resp_headers rp) \<and> pc_response_chunk pcs \<noteq> [] then
        (let st = stream_chunks (resp_body rp) (map snd (pc_response_chunk pcs)) None (gw_plugins w) in
         Some (Ok (ResponseBodyProcessed cx
                 (rp\<lparr>resp_headers := hm_remove CONTENT_LENGTH (resp_headers rp), resp_body := st_sent st\<rparr>) by_whom),
               w\<lparr>gw_plugins := st_plugins st\<rparr>))
      else
        fbind (run_body ResponseBodyProcess (map snd (pc_response_body pcs)) (resp_body rp)) (\<lambda>body.
        fret (ResponseBodyProcessed cx
          (case body of
             None \<Rightarrow> rp
           | Some b \<Rightarrow> rp\<lparr>resp_headers := set_length (length b) (resp_headers rp), resp_body := from_bytes b\<rparr>) by_whom)) w)"

definition is_success :: "u16 \<Rightarrow> bool" where
  "is_success status = (200 \<le> status \<and> status < 300)"

fun cacheable ::
  "http_crates \<Rightarrow> ttl \<Rightarrow> int \<Rightarrow> response_body_processed
   \<Rightarrow> (gateway_error, (cached_response \<times> ttl) option \<times> response_body_processed) result" where
  "cacheable X default_ttl now (ResponseBodyProcessed cx rp by_whom) =
     (let keep = (\<lambda>ttl.
            rbind (collect_at ResponseBodyRead (resp_body rp)) (\<lambda>b.
            Ok (Some (\<lparr>cr_content_type = hm_get (resp_headers rp) CONTENT_TYPE, cr_body = b\<rparr>, ttl),
                ResponseBodyProcessed cx (rp\<lparr>resp_body := from_bytes b\<rparr>) by_whom))) in
      if \<not> is_success (resp_status rp) \<or> is_event_stream X (resp_headers rp)
      then Ok (None, ResponseBodyProcessed cx rp by_whom)
      else case freshness_of X (resp_headers rp) now of
        FreshFor ttl \<Rightarrow> keep ttl
      | Unsaid \<Rightarrow> keep default_ttl
      | Never \<Rightarrow> Ok (None, ResponseBodyProcessed cx rp by_whom))"

end
