(* ===== verification/Gateway.thy ===== *)
theory Gateway
  imports Flow
begin

text \<open>
  The gateway itself: \<open>crates/ip-gateway/src/flow/gateway.rs\<close>, with what it records of a request
  (\<open>flow/followed.rs\<close>, \<open>flow/record.rs\<close>). The rules in force are fields of \<open>gateway\<close>: a request reads
  them once, so a replacement is another value of that record. A record is written off the request
  path: it is put in the list of pending ones and written later, in any order.
\<close>

section \<open>Building a gateway\<close>

definition with_chains ::
  "routing_table \<Rightarrow> (route_rule \<Rightarrow> nat) \<Rightarrow> (caller \<Rightarrow> api_id \<Rightarrow> 'p processor_chain)
   \<Rightarrow> (request \<Rightarrow> 'u \<Rightarrow> (string, response) result \<times> 'u) \<Rightarrow> ('p, 'u, 's, 'd) gateway" where
  "with_chains table plan_at pcs send =
     \<lparr>gt_table = table, gt_plan_at = plan_at, gt_chains = pcs, gt_lims = [], gt_send = send, gt_responses = None,
      gt_usage = None, gt_limiter = None\<rparr>"

definition gateway_new ::
  "routing_table \<Rightarrow> (route_rule \<Rightarrow> nat) \<Rightarrow> 'p processor_chain \<Rightarrow> (request \<Rightarrow> 'u \<Rightarrow> (string, response) result \<times> 'u)
   \<Rightarrow> ('p, 'u, 's, 'd) gateway" where
  "gateway_new table plan_at chain send = with_chains table plan_at (\<lambda>_ _. chain) send"

definition gateway_replace ::
  "routing_table \<Rightarrow> (route_rule \<Rightarrow> nat) \<Rightarrow> (caller \<Rightarrow> api_id \<Rightarrow> 'p processor_chain) \<Rightarrow> limit list
   \<Rightarrow> ('p, 'u, 's, 'd) gateway \<Rightarrow> ('p, 'u, 's, 'd) gateway" where
  "gateway_replace table plan_at pcs lims G =
     G\<lparr>gt_table := table, gt_plan_at := plan_at, gt_chains := pcs, gt_lims := lims\<rparr>"

definition gateway_with_limits :: "limit list \<Rightarrow> ('p, 'u, 's, 'd) gateway \<Rightarrow> ('p, 'u, 's, 'd) gateway" where
  "gateway_with_limits lims G = G\<lparr>gt_lims := lims\<rparr>"

definition gateway_caching :: "'s response_cache \<Rightarrow> ('p, 'u, 's, 'd) gateway \<Rightarrow> ('p, 'u, 's, 'd) gateway" where
  "gateway_caching R G = G\<lparr>gt_responses := Some R\<rparr>"

definition gateway_recording ::
  "(new_usage \<Rightarrow> timestamp \<Rightarrow> 'd \<Rightarrow> (storage_error, usage \<times> 'd) result) \<Rightarrow> ('p, 'u, 's, 'd) gateway \<Rightarrow> ('p, 'u, 's, 'd) gateway" where
  "gateway_recording store G = G\<lparr>gt_usage := Some store\<rparr>"

definition gateway_limiting :: "('s, 'd) limiter \<Rightarrow> ('p, 'u, 's, 'd) gateway \<Rightarrow> ('p, 'u, 's, 'd) gateway" where
  "gateway_limiting L G = G\<lparr>gt_limiter := Some L\<rparr>"

section \<open>What a request is followed by\<close>

record followed =
  fo_trace :: trace_id
  fo_turn :: "turn_id option"
  fo_tenant :: tenant_id
  fo_user :: user_id
  fo_api :: "api_id option"

definition followed_of :: "request_context \<Rightarrow> followed" where
  "followed_of cx =
     (let who = au_identity (cx_authority cx) in
      \<lparr>fo_trace = cx_trace cx, fo_turn = cx_turn cx, fo_tenant = c_tenant who, fo_user = c_user who, fo_api = None\<rparr>)"

definition serving :: "followed \<Rightarrow> api_id \<Rightarrow> followed" where
  "serving f api = f\<lparr>fo_api := Some api\<rparr>"

section \<open>Recording\<close>

record recording =
  rg_limiting :: "(limit list \<times> asking) option"
  rg_trace :: trace_id
  rg_turn :: "turn_id option"
  rg_tenant :: tenant_id
  rg_user :: user_id
  rg_api :: api_id

definition recording_of :: "followed \<Rightarrow> (limit list \<times> asking) option \<Rightarrow> recording option" where
  "recording_of f limiting =
     map_option (\<lambda>api. \<lparr>rg_limiting = limiting, rg_trace = fo_trace f, rg_turn = fo_turn f, rg_tenant = fo_tenant f,
       rg_user = fo_user f, rg_api = api\<rparr>) (fo_api f)"

definition job_of :: "recording \<Rightarrow> model_name option \<Rightarrow> tokens \<Rightarrow> served \<Rightarrow> replica option \<Rightarrow> nat \<Rightarrow> job" where
  "job_of rg model tokens served by_whom elapsed =
     \<lparr>jb_usage = \<lparr>nu_trace = rg_trace rg, nu_turn = rg_turn rg, nu_tenant = rg_tenant rg, nu_user = rg_user rg, nu_api = rg_api rg,
        nu_model = model, nu_tokens = tokens, nu_served = served, nu_served_by = by_whom, nu_latency = latency_from_millis elapsed\<rparr>,
      jb_limiting = rg_limiting rg, jb_spent = tokens_total tokens\<rparr>"

definition recording_write ::
  "recording \<Rightarrow> model_name option \<Rightarrow> tokens \<Rightarrow> served \<Rightarrow> replica option \<Rightarrow> nat \<Rightarrow> ('p, 'u, 's, 'd) gw_world \<Rightarrow> ('p, 'u, 's, 'd) gw_world" where
  "recording_write rg model tokens served by_whom elapsed w =
     w\<lparr>gw_pending := gw_pending w @ [job_of rg model tokens served by_whom elapsed]\<rparr>"

definition out_of_the_cache ::
  "json_parser \<Rightarrow> recording \<Rightarrow> bytes \<Rightarrow> nat \<Rightarrow> ('p, 'u, 's, 'd) gw_world \<Rightarrow> ('p, 'u, 's, 'd) gw_world" where
  "out_of_the_cache parse rg body elapsed w =
     recording_write rg (Option.bind (measure_answer parse body) ms_model) tokens_zero FromCache None elapsed w"

text \<open>The task a pending record is written by; a row that cannot be written is only logged.\<close>

definition write_job ::
  "gw_env \<Rightarrow> ('p, 'u, 's, 'd) gateway \<Rightarrow> timestamp \<Rightarrow> readings \<Rightarrow> job \<Rightarrow> ('p, 'u, 's, 'd) gw_world \<Rightarrow> ('p, 'u, 's, 'd) gw_world option" where
  "write_job E G now clk j w =
     (let w = (case gt_usage G of
                 None \<Rightarrow> w
               | Some store \<Rightarrow> (case store (jb_usage j) now (gw_db w) of Err _ \<Rightarrow> w | Ok (_, d) \<Rightarrow> w\<lparr>gw_db := d\<rparr>)) in
      case (jb_limiting j, gt_limiter G) of
        (Some (lims, asking), Some L) \<Rightarrow>
          map_option (\<lambda>s. w\<lparr>gw_cache := s\<rparr>)
            (spend_tokens (cal (en_crates E)) L (en_order E) lims asking (jb_spent j) now clk (gw_cache w))
      | _ \<Rightarrow> Some w)"

definition settle_one ::
  "gw_env \<Rightarrow> ('p, 'u, 's, 'd) gateway \<Rightarrow> timestamp \<Rightarrow> readings \<Rightarrow> nat \<Rightarrow> ('p, 'u, 's, 'd) gw_world \<Rightarrow> ('p, 'u, 's, 'd) gw_world option" where
  "settle_one E G now clk i w =
     (if i < length (gw_pending w)
      then write_job E G now clk (gw_pending w ! i)
             (w\<lparr>gw_pending := take i (gw_pending w) @ drop (Suc i) (gw_pending w)\<rparr>)
      else Some w)"

section \<open>A body that is measured as it passes\<close>

record measured_body =
  mb_inner :: gateway_body
  mb_measuring :: measuring
  mb_served_by :: "replica option"
  mb_recording :: "recording option"

definition measuring_body :: "recording \<Rightarrow> gateway_body \<Rightarrow> replica \<Rightarrow> measured_body" where
  "measuring_body rg body by_whom =
     \<lparr>mb_inner = body, mb_measuring = measuring_default, mb_served_by = Some by_whom, mb_recording = Some rg\<rparr>"

definition measured_done ::
  "nat \<Rightarrow> measured_body \<Rightarrow> ('p, 'u, 's, 'd) gw_world \<Rightarrow> measured_body \<times> ('p, 'u, 's, 'd) gw_world" where
  "measured_done elapsed mb w =
     (case mb_recording mb of
        None \<Rightarrow> (mb, w)
      | Some rg \<Rightarrow>
          (let (model, tokens) = (case measured_of (mb_measuring mb) of
                 Some m \<Rightarrow> (ms_model m, ms_tokens m)
               | None \<Rightarrow> (None, tokens_zero)) in
           (mb\<lparr>mb_recording := None, mb_measuring := measuring_default, mb_served_by := None\<rparr>,
            recording_write rg model tokens Upstream (mb_served_by mb) elapsed w)))"

definition poll_frame ::
  "json_parser \<Rightarrow> nat \<Rightarrow> measured_body \<Rightarrow> ('p, 'u, 's, 'd) gw_world
   \<Rightarrow> (string, frame) result option \<times> measured_body \<times> ('p, 'u, 's, 'd) gw_world" where
  "poll_frame parse elapsed mb w =
     (case mb_inner mb of
        [] \<Rightarrow> (let (mb, w) = measured_done elapsed mb w in (None, mb, w))
      | Ok (FrameData d) # fs \<Rightarrow> (Some (Ok (FrameData d)), mb\<lparr>mb_inner := fs, mb_measuring := measuring_read parse (mb_measuring mb) d\<rparr>, w)
      | f # fs \<Rightarrow> (Some f, mb\<lparr>mb_inner := fs\<rparr>, w))"

text \<open>A caller polls some frames, one at each of the moments given, and then drops the body.\<close>

fun deliver ::
  "json_parser \<Rightarrow> nat list \<Rightarrow> nat \<Rightarrow> measured_body \<Rightarrow> ('p, 'u, 's, 'd) gw_world \<Rightarrow> ('p, 'u, 's, 'd) gw_world" where
  "deliver parse [] dropped mb w = snd (measured_done dropped mb w)"
| "deliver parse (t # ts) dropped mb w = (let (_, mb, w) = poll_frame parse t mb w in deliver parse ts dropped mb w)"

section \<open>One request\<close>

record gw_answer =
  ga_response :: response
  ga_measured :: "measured_body option"

definition limiting_with :: "('p, 'u, 's, 'd) gateway \<Rightarrow> asking \<Rightarrow> (limit list \<times> asking) option" where
  "limiting_with G asking = map_option (\<lambda>_. (gt_lims G, asking)) (gt_limiter G)"

definition gateway_admit ::
  "gw_env \<Rightarrow> ('p, 'u, 's, 'd) gateway \<Rightarrow> asking \<Rightarrow> moments \<Rightarrow> (('p, 'u, 's, 'd) gw_world, unit) flow" where
  "gateway_admit E G asking mo w =
     (case gt_limiter G of
        None \<Rightarrow> Some (Ok (), w)
      | Some L \<Rightarrow>
          (case admit (cal (en_crates E)) L (en_order E) (gt_lims G) asking (mo_now mo) (mo_limits mo) (gw_db w) (gw_cache w) of
             None \<Rightarrow> None
           | Some (r, s) \<Rightarrow>
               Some (case r of
                   Allowed \<Rightarrow> Ok ()
                 | SpentUp c p a until \<Rightarrow> Err (GatewayError Authorization (SpentErr c p a until))
                 | UnknownSpend why \<Rightarrow> Err (GatewayError Authorization (Unmeasured why)), w\<lparr>gw_cache := s\<rparr>)))"

definition upstream_answer ::
  "gw_env \<Rightarrow> ('p, 'u, 's, 'd) gateway \<Rightarrow> moments \<Rightarrow> 'p processor_chain \<Rightarrow> body_processed
   \<Rightarrow> (('p, 'u, 's, 'd) gw_world, response_body_processed) flow" where
  "upstream_answer E G mo pcs bp =
     fbind (forward E G mo bp) (\<lambda>fw.
     fbind (process_response_headers (map snd (pc_response_headers pcs)) fw) (\<lambda>rh.
     process_response_body (en_http E) pcs rh))"

fun measuring_answer :: "recording option \<Rightarrow> response_body_processed \<Rightarrow> gw_answer" where
  "measuring_answer rg (ResponseBodyProcessed cx rp by_whom) =
     \<lparr>ga_response = rp, ga_measured = map_option (\<lambda>rg. measuring_body rg (resp_body rp) by_whom) rg\<rparr>"

definition answer_with :: "cached_response \<Rightarrow> response" where
  "answer_with hit =
     (let h = (case cr_content_type hit of None \<Rightarrow> [] | Some v \<Rightarrow> hm_insert CONTENT_TYPE v []) in
      \<lparr>resp_status = 200, resp_headers = set_length (length (cr_body hit)) h, resp_body = from_bytes (cr_body hit)\<rparr>)"

definition keep_response ::
  "'s response_cache \<Rightarrow> cache_key \<Rightarrow> moments \<Rightarrow> (cached_response \<times> ttl) option \<Rightarrow> (('p, 'u, 's, 'd) gw_world, unit) flow" where
  "keep_response R key mo kept w =
     (case kept of
        None \<Rightarrow> Some (Ok (), w)
      | Some (r, ttl) \<Rightarrow>
          map_option (\<lambda>s. (Ok (), w\<lparr>gw_cache := s\<rparr>)) (responses_put R key r ttl (fst (mo_put mo)) (snd (mo_put mo)) (gw_cache w)))"

definition answer_missed ::
  "gw_env \<Rightarrow> ('p, 'u, 's, 'd) gateway \<Rightarrow> moments \<Rightarrow> 's response_cache \<Rightarrow> 'p processor_chain \<Rightarrow> recording option \<Rightarrow> cache_key \<Rightarrow> body_processed
   \<Rightarrow> (('p, 'u, 's, 'd) gw_world, gw_answer) flow" where
  "answer_missed E G mo R pcs rg key bp =
     fbind (upstream_answer E G mo pcs bp) (\<lambda>fin.
     fbind (flift (cacheable (en_http E) (rc_ttl R) (mo_system mo) fin)) (\<lambda>(kept, fin).
     fbind (keep_response R key mo kept) (\<lambda>_. fret (measuring_answer rg fin))))"

definition answer_cached ::
  "gw_env \<Rightarrow> ('p, 'u, 's, 'd) gateway \<Rightarrow> moments \<Rightarrow> 's response_cache \<Rightarrow> 'p processor_chain \<Rightarrow> recording option \<Rightarrow> body_processed
   \<Rightarrow> (('p, 'u, 's, 'd) gw_world, gw_answer) flow" where
  "answer_cached E G mo R pcs rg bp =
     fbind (flift (flow_response_key E bp)) (\<lambda>(key, bp) w.
       let (found, s) = responses_get (en_http E) R key (fst (mo_get mo)) (snd (mo_get mo)) (gw_cache w);
           w = w\<lparr>gw_cache := s\<rparr> in
       case found of
         Some hit \<Rightarrow>
           fret \<lparr>ga_response = answer_with hit, ga_measured = None\<rparr>
             (case rg of None \<Rightarrow> w | Some rg \<Rightarrow> out_of_the_cache (en_json E) rg (cr_body hit) (mo_latency mo) w)
       | None \<Rightarrow> answer_missed E G mo R pcs rg key bp w)"

definition answer_request ::
  "gw_env \<Rightarrow> ('p, 'u, 's, 'd) gateway \<Rightarrow> moments \<Rightarrow> 'p processor_chain \<Rightarrow> recording option \<Rightarrow> body_processed
   \<Rightarrow> (('p, 'u, 's, 'd) gw_world, gw_answer) flow" where
  "answer_request E G mo pcs rg bp =
     (case gt_responses G of
        None \<Rightarrow> fbind (upstream_answer E G mo pcs bp) (\<lambda>fin. fret (measuring_answer rg fin))
      | Some R \<Rightarrow> answer_cached E G mo R pcs rg bp)"

fun api_of :: "authorized \<Rightarrow> api_id" where
  "api_of (Authorized cx rq res) = r_api (res_rule res)"

definition take_in ::
  "gw_env \<Rightarrow> ('p, 'u, 's, 'd) gateway \<Rightarrow> request_context \<Rightarrow> request
   \<Rightarrow> (('p, 'u, 's, 'd) gw_world, body_processed \<times> 'p processor_chain \<times> api_id) flow" where
  "take_in E G cx rq =
     fbind (flift (authorize (en_http E) (gt_table G) (Received cx rq))) (\<lambda>au.
     let api = api_of au;
         pcs = gt_chains G (au_identity (cx_authority cx)) api in
     fbind (process_headers (map snd (pc_request_headers pcs)) au) (\<lambda>hp.
     fbind (process_body pcs hp) (\<lambda>bp. fret (bp, pcs, api))))"

definition handle ::
  "gw_env \<Rightarrow> ('p, 'u, 's, 'd) gateway \<Rightarrow> moments \<Rightarrow> request_context \<Rightarrow> request \<Rightarrow> (('p, 'u, 's, 'd) gw_world, gw_answer) flow" where
  "handle E G mo cx rq =
     fbind (take_in E G cx rq) (\<lambda>(bp, pcs, api).
     let who = followed_of cx;
         asking = \<lparr>ak_tenant = fo_tenant who, ak_user = fo_user who, ak_api = api\<rparr> in
     fbind (gateway_admit E G asking mo) (\<lambda>_.
     let rg = (case gt_usage G of
                 None \<Rightarrow> None
               | Some _ \<Rightarrow> recording_of (serving who api) (limiting_with G asking)) in
     answer_request E G mo pcs rg bp))"

section \<open>What a step leaves alone\<close>

named_theorems keeping

definition keeps :: "('w \<Rightarrow> 'x) \<Rightarrow> ('w, 'a) flow \<Rightarrow> bool" where
  "keeps f m = (\<forall>w r w'. m w = Some (r, w') \<longrightarrow> f w' = f w)"

lemma keepsD: "keeps f m \<Longrightarrow> m w = Some (r, w') \<Longrightarrow> f w' = f w"
  by (auto simp: keeps_def)

lemma keeps_fret [keeping]: "keeps f (fret a)"
  by (simp add: keeps_def fret_def)

lemma keeps_flift [keeping]: "keeps f (flift r)"
  by (simp add: keeps_def flift_def)

lemma keeps_fbind [keeping]: "keeps f m \<Longrightarrow> (\<And>a. keeps f (k a)) \<Longrightarrow> keeps f (fbind m k)"
  by (fastforce simp: keeps_def fbind_def split: option.splits sum.splits)

lemma fbind_outcome:
  assumes "fbind m k w = Some (r, w')"
  obtains (failed) e where "m w = Some (Err e, w')" "r = Err e"
  | (went_on) a v where "m w = Some (Ok a, v)" "k a v = Some (r, w')"
  using assms by (auto simp: fbind_def split: option.splits sum.splits)

text \<open>A part of the world the plugins' state is no part of.\<close>

definition beside_plugins :: "(('p, 'u, 's, 'd) gw_world \<Rightarrow> 'x) \<Rightarrow> bool" where
  "beside_plugins f = (\<forall>w p. f (w\<lparr>gw_plugins := p\<rparr>) = f w)"

lemma beside_plugins_parts [simp]:
  "beside_plugins gw_upstream" "beside_plugins gw_dispatcher" "beside_plugins gw_cache" "beside_plugins gw_db" "beside_plugins gw_pending"
  by (simp_all add: beside_plugins_def)

lemma run_headers_keeps [keeping]: "beside_plugins f \<Longrightarrow> keeps f (run_headers stage fs h)"
proof -
  have "f w' = f w" if "beside_plugins f" "run_headers stage fs h w = Some (r, w')" for r w w'
    using that by (induction fs arbitrary: h w) (auto simp: beside_plugins_def split: prod.splits sum.splits)
  then show "beside_plugins f \<Longrightarrow> keeps f (run_headers stage fs h)" by (auto simp: keeps_def)
qed

lemma run_processors_keeps [keeping]: "beside_plugins f \<Longrightarrow> keeps f (run_processors stage fs b)"
proof -
  have "f w' = f w" if "beside_plugins f" "run_processors stage fs b w = Some (r, w')" for r w w'
    using that by (induction fs arbitrary: b w) (auto simp: beside_plugins_def split: prod.splits sum.splits)
  then show "beside_plugins f \<Longrightarrow> keeps f (run_processors stage fs b)" by (auto simp: keeps_def)
qed

lemma run_body_keeps [keeping]: "beside_plugins f \<Longrightarrow> keeps f (run_body stage chain body)"
  by (auto simp: run_body_def intro!: keeping)

lemma process_headers_keeps [keeping]: "beside_plugins f \<Longrightarrow> keeps f (process_headers chain au)"
  by (cases au) (auto intro!: keeping)

lemma process_body_keeps [keeping]: "beside_plugins f \<Longrightarrow> keeps f (process_body pcs hp)"
  by (cases hp) (auto intro!: keeping)

lemma process_response_headers_keeps [keeping]: "beside_plugins f \<Longrightarrow> keeps f (process_response_headers chain fw)"
  by (cases fw) (auto intro!: keeping)

lemma process_response_body_keeps [keeping]:
  assumes "beside_plugins f"
  shows "keeps f (process_response_body X pcs rh)"
proof (cases rh)
  case (ResponseHeadersProcessed cx rp by_whom)
  have "keeps f (fbind (run_body ResponseBodyProcess (map snd (pc_response_body pcs)) (resp_body rp)) (\<lambda>body. fret (k body)))"
    for k :: "bytes option \<Rightarrow> response_body_processed"
    using assms by (auto intro!: keeping)
  then show ?thesis
    using assms unfolding keeps_def ResponseHeadersProcessed process_response_body.simps
    by (fastforce simp: beside_plugins_def Let_def split: if_splits)
qed

lemma gateway_admit_keeps [keeping]:
  "keeps gw_upstream (gateway_admit E G asking mo)" "keeps gw_pending (gateway_admit E G asking mo)"
  "keeps gw_dispatcher (gateway_admit E G asking mo)"
  by (auto simp: keeps_def gateway_admit_def split: option.splits)

lemma keep_response_keeps [keeping]:
  "keeps gw_upstream (keep_response R key mo kept)" "keeps gw_pending (keep_response R key mo kept)"
  by (auto simp: keeps_def keep_response_def split: option.splits)

lemma forward_keeps [keeping]: "keeps gw_pending (forward E G mo bp)"
  by (cases bp) (auto simp: keeps_def Let_def split: prod.splits sum.splits)

lemma upstream_answer_keeps [keeping]: "keeps gw_pending (upstream_answer E G mo pcs bp)"
  by (auto simp: upstream_answer_def intro!: keeping)


section \<open>How far a request gets\<close>

definition asking_of :: "request_context \<Rightarrow> api_id \<Rightarrow> asking" where
  "asking_of cx api =
     \<lparr>ak_tenant = c_tenant (au_identity (cx_authority cx)), ak_user = c_user (au_identity (cx_authority cx)), ak_api = api\<rparr>"

definition recording_for :: "('p, 'u, 's, 'd) gateway \<Rightarrow> request_context \<Rightarrow> api_id \<Rightarrow> recording option" where
  "recording_for G cx api =
     (case gt_usage G of
        None \<Rightarrow> None
      | Some _ \<Rightarrow> recording_of (serving (followed_of cx) api) (limiting_with G (asking_of cx api)))"

text \<open>The request, past the request chains, of one that was authorized for \<open>res\<close>.\<close>

definition same_target :: "request \<Rightarrow> request \<Rightarrow> bool" where
  "same_target a b = (req_uri a = req_uri b \<and> req_method a = req_method b)"

lemma process_headers_out:
  assumes "process_headers chain (Authorized cx rq res) w = Some (Ok hp, w')"
  obtains rq' where "hp = HeadersProcessed cx rq' res" "same_target rq' rq"
  using assms by (auto simp: fret_def same_target_def elim!: fbind_outcome)

lemma process_body_out:
  assumes "process_body pcs (HeadersProcessed cx rq res) w = Some (Ok bp, w')"
  obtains rq' where "bp = BodyProcessed cx rq' res" "same_target rq' rq"
  using assms by (auto simp: fret_def same_target_def elim!: fbind_outcome split: option.splits)

lemma authorize_out:
  assumes "authorize X table (Received cx rq) = Ok au"
  obtains key res where "au = Authorized cx rq res" "key_of X cx rq = Ok key" "resolve table key = Some res"
    "\<forall>t\<in>set (res_targets res). is_forwarded (ep_protocol (w_endpoint t))"
    "authority_allows (cx_authority cx) ApiAccess
       (AtApi (c_user (au_identity (cx_authority cx))) (c_tenant (au_identity (cx_authority cx))) (r_api (res_rule res)))"
  using assms by (auto simp: rust_std resolve_route_def allow_def Let_def find_None_iff split: option.splits if_splits)

definition let_in :: "gw_env \<Rightarrow> ('p, 'u, 's, 'd) gateway \<Rightarrow> moments \<Rightarrow> request_context \<Rightarrow> api_id \<Rightarrow> ('p, 'u, 's, 'd) gw_world \<Rightarrow> bool" where
  "let_in E G mo cx api w =
     (case gt_limiter G of
        None \<Rightarrow> True
      | Some L \<Rightarrow>
          map_option fst (admit (cal (en_crates E)) L (en_order E) (gt_lims G) (asking_of cx api) (mo_now mo) (mo_limits mo) (gw_db w) (gw_cache w))
            = Some Allowed)"

lemma gateway_admit_out:
  "gateway_admit E G (asking_of cx api) mo w = Some (Ok u, w') \<Longrightarrow> let_in E G mo cx api w"
  by (auto simp: gateway_admit_def let_in_def split: option.splits decision.splits)

lemmas process_headers_parts = beside_plugins_parts [THEN process_headers_keeps, THEN keepsD]

lemmas process_body_parts = beside_plugins_parts [THEN process_body_keeps, THEN keepsD]

lemmas gateway_admit_parts = gateway_admit_keeps [THEN keepsD]

lemma take_in_keeps [keeping]: "beside_plugins f \<Longrightarrow> keeps f (take_in E G cx rq)"
  by (auto simp: take_in_def Let_def intro!: keeping)

lemmas take_in_parts = beside_plugins_parts [THEN take_in_keeps, THEN keepsD]

text \<open>Who may call an api, and where a request for it goes.\<close>

definition routed_for :: "gw_env \<Rightarrow> ('p, 'u, 's, 'd) gateway \<Rightarrow> request_context \<Rightarrow> request \<Rightarrow> resolution \<Rightarrow> bool" where
  "routed_for E G cx rq res =
     (let who = au_identity (cx_authority cx) in
      Option.bind (ok (key_of (en_http E) cx rq)) (resolve (gt_table G)) = Some res
      \<and> list_all (\<lambda>t. is_forwarded (ep_protocol (w_endpoint t))) (res_targets res)
      \<and> authority_allows (cx_authority cx) ApiAccess (AtApi (c_user who) (c_tenant who) (r_api (res_rule res))))"

lemma take_in_out:
  assumes "take_in E G cx rq w = Some (Ok (bp, pcs, api), w')"
  obtains res rq' where "routed_for E G cx rq res" "bp = BodyProcessed cx rq' res" "same_target rq' rq"
    "api = r_api (res_rule res)"
  using assms unfolding take_in_def
proof (cases rule: fbind_outcome)
  case (went_on au w0)
  then have start: "w0 = w" and au: "authorize (en_http E) (gt_table G) (Received cx rq) = Ok au"
    by (simp_all add: flift_def)
  from au obtain key res where auth: "au = Authorized cx rq res" "routed_for E G cx rq res"
    by (rule authorize_out) (auto simp: routed_for_def Let_def list_all_iff)
  from went_on(2) [unfolded start Let_def auth(1) api_of.simps] show thesis
  proof (cases rule: fbind_outcome)
    case (went_on hp w1)
    obtain rq1 where hp: "hp = HeadersProcessed cx rq1 res" "same_target rq1 rq"
      using went_on(1) by (rule process_headers_out)
    from went_on(2) [unfolded hp(1)] show thesis
    proof (cases rule: fbind_outcome)
      case (went_on bp' w2)
      obtain rq2 where "bp' = BodyProcessed cx rq2 res" "same_target rq2 rq1"
        using went_on(1) by (rule process_body_out)
      then show thesis
        using that [OF auth(2), of rq2] hp(2) went_on(2) by (simp add: fret_def same_target_def)
    qed simp
  qed simp
qed simp

lemma handle_outcome:
  assumes "handle E G mo cx rq w = Some (r, w')"
  obtains (stopped) e where "r = Err e" "gw_upstream w' = gw_upstream w" "gw_pending w' = gw_pending w"
  | (admitted) res rq' pcs v where "routed_for E G cx rq res" "let_in E G mo cx (r_api (res_rule res)) w" "same_target rq' rq"
      "gw_upstream v = gw_upstream w" "gw_dispatcher v = gw_dispatcher w" "gw_pending v = gw_pending w"
      "answer_request E G mo pcs (recording_for G cx (r_api (res_rule res))) (BodyProcessed cx rq' res) v = Some (r, w')"
  using assms unfolding handle_def
proof (cases rule: fbind_outcome)
  case (failed e)
  then show thesis using stopped take_in_parts [OF failed(1)] by simp
next
  case (went_on tk w1)
  obtain bp pcs api where tk: "tk = (bp, pcs, api)" by (cases tk)
  note kept = take_in_parts [OF went_on(1)]
  obtain res rq' where in_out: "routed_for E G cx rq res" "bp = BodyProcessed cx rq' res" "same_target rq' rq" "api = r_api (res_rule res)"
    using went_on(1) [unfolded tk] by (rule take_in_out)
  have ask: "\<lparr>ak_tenant = fo_tenant (followed_of cx), ak_user = fo_user (followed_of cx), ak_api = api\<rparr> = asking_of cx api"
    by (simp add: followed_of_def asking_of_def Let_def)
  from went_on(2) [unfolded tk Let_def prod.case ask, folded recording_for_def] show thesis
  proof (cases rule: fbind_outcome)
    case (failed e)
    then show thesis using stopped kept gateway_admit_parts [OF failed(1)] by simp
  next
    case (went_on u v)
    have "let_in E G mo cx api w"
      using gateway_admit_out [OF went_on(1)] kept by (simp add: let_in_def cong: option.case_cong)
    then show thesis
      using admitted [OF in_out(1)] in_out kept went_on(2) gateway_admit_parts [OF went_on(1)] by simp
  qed
qed

section \<open>What reaches the upstream\<close>

text \<open>A dispatcher that holds a plan for every target of a route.\<close>

definition plan_fits :: "('p, 'u, 's, 'd) gateway \<Rightarrow> dispatcher \<Rightarrow> resolution \<Rightarrow> bool" where
  "plan_fits G d res =
     (let i = gt_plan_at G (res_rule res) in
      i < length (plans d) \<and> plan_ok (plans d ! i) \<and> length (load (plans d ! i)) = length (res_targets res))"

definition host_header :: "endpoint \<Rightarrow> string" where
  "host_header e = host_str (ep_host e) @ '':'' @ show_nat (unat (port_get (ep_port e)))"

text \<open>The request an endpoint is sent in place of the one received.\<close>

definition readdressed :: "http_crates \<Rightarrow> request \<Rightarrow> endpoint \<Rightarrow> request \<Rightarrow> bool" where
  "readdressed X rq e sent =
     (target_uri X e (uri_query (req_uri rq)) = Ok (req_uri sent) \<and> req_method sent = req_method rq
      \<and> map Some (hm_get_all (req_headers sent) HOST) = [value_from_bytes X (as_bytes (host_header e))]
      \<and> list_all (\<lambda>n. hm_get_all (req_headers sent) n = []) HOP_BY_HOP)"

lemma rewrite_readdresses: "rewrite X rq e = Ok sent \<Longrightarrow> readdressed X rq e sent"
  by (auto simp: rewrite_def readdressed_def host_header_def Let_def rust_std strip_hop_by_hop_keeps list_all_iff HOST_def HOP_BY_HOP_def
      CONNECTION_def)

lemma readdressed_same: "same_target a b \<Longrightarrow> readdressed X a e sent = readdressed X b e sent"
  by (simp add: readdressed_def same_target_def)

lemma choose_fits:
  assumes "dispatcher_choose d (gt_plan_at G (res_rule res)) s (res_targets res) entropy now = (ch, d')" "plan_fits G d res"
  shows "ch_endpoint ch \<in> w_endpoint ` set (res_targets res)"
proof -
  let ?p = "plans d ! gt_plan_at G (res_rule res)"
  have ok: "plan_ok ?p" and fits: "length (load ?p) = length (res_targets res)"
    using assms(2) by (simp_all add: plan_fits_def Let_def)
  have "ch_endpoint ch = w_endpoint (res_targets res ! fst (pick s entropy ?p))"
    using assms(1) by (auto simp: dispatcher_choose_def choose_at_def Let_def split: prod.splits)
  moreover have "fst (pick s entropy ?p) < length (res_targets res)"
    using pick_live [OF ok, of s entropy] ok fits by (auto simp: plan_ok_def)
  ultimately show ?thesis by simp
qed

definition reaches ::
  "gw_env \<Rightarrow> ('p, 'u, 's, 'd) gateway \<Rightarrow> dispatcher \<Rightarrow> request \<Rightarrow> resolution \<Rightarrow> 'u \<Rightarrow> 'u \<Rightarrow> bool" where
  "reaches E G d rq res u u' =
     (\<exists>e sent. readdressed (en_http E) rq e sent \<and> (plan_fits G d res \<longrightarrow> e \<in> w_endpoint ` set (res_targets res))
        \<and> u' = snd (gt_send G sent u))"

lemma forward_reaches:
  assumes "forward E G mo (BodyProcessed cx rq res) w = Some (r, w')"
  shows "gw_upstream w' = gw_upstream w \<or> reaches E G (gw_dispatcher w) rq res (gw_upstream w) (gw_upstream w')"
proof -
  obtain ch d where ch: "dispatcher_choose (gw_dispatcher w) (gt_plan_at G (res_rule res)) (r_strategy (res_rule res))
      (res_targets res) (mo_entropy mo) (mo_chosen mo) = (ch, d)"
    by fastforce
  show ?thesis
  proof (cases "rewrite (en_http E) rq (ch_endpoint ch)")
    case (Inr sent)
    then have "gw_upstream w' = snd (gt_send G sent (gw_upstream w))"
      using assms ch by (auto simp: Let_def split: prod.splits sum.splits)
    then show ?thesis
      using rewrite_readdresses [OF Inr] choose_fits [OF ch] unfolding reaches_def by blast
  qed (use assms ch in \<open>auto simp: Let_def\<close>)
qed

lemma upstream_answer_reaches:
  assumes "upstream_answer E G mo pcs (BodyProcessed cx rq res) w = Some (r, w')"
  shows "gw_upstream w' = gw_upstream w \<or> reaches E G (gw_dispatcher w) rq res (gw_upstream w) (gw_upstream w')"
  using assms unfolding upstream_answer_def
proof (cases rule: fbind_outcome)
  case (failed e)
  then show ?thesis by (intro forward_reaches)
next
  case (went_on fw v)
  have "keeps gw_upstream (fbind (process_response_headers (map snd (pc_response_headers pcs)) fw) (process_response_body (en_http E) pcs))"
    by (intro keeping beside_plugins_parts)
  then have "gw_upstream w' = gw_upstream v"
    using went_on(2) by (rule keepsD)
  then show ?thesis using forward_reaches [OF went_on(1)] by simp
qed

text \<open>The ways a request that was let in ends when there is a response cache.\<close>

lemma answer_cached_outcome:
  assumes "answer_cached E G mo R pcs rg (BodyProcessed cx rq res) w = Some (r, w')"
  obtains (unkeyed) e where "r = Err e" "w' = w"
  | (hit) key rq' kept s where "flow_response_key E (BodyProcessed cx rq res) = Ok (key, BodyProcessed cx rq' res)"
      "responses_get (en_http E) R key (fst (mo_get mo)) (snd (mo_get mo)) (gw_cache w) = (Some kept, s)"
      "r = Ok \<lparr>ga_response = answer_with kept, ga_measured = None\<rparr>"
      "w' = (case rg of None \<Rightarrow> w\<lparr>gw_cache := s\<rparr> | Some rg \<Rightarrow> out_of_the_cache (en_json E) rg (cr_body kept) (mo_latency mo) (w\<lparr>gw_cache := s\<rparr>))"
  | (missed) key rq' s where "flow_response_key E (BodyProcessed cx rq res) = Ok (key, BodyProcessed cx rq' res)" "same_target rq' rq"
      "answer_missed E G mo R pcs rg key (BodyProcessed cx rq' res) (w\<lparr>gw_cache := s\<rparr>) = Some (r, w')"
  using assms unfolding answer_cached_def
proof (cases rule: fbind_outcome)
  case (failed e)
  then show thesis using unkeyed by (simp add: flift_def)
next
  case (went_on a v)
  obtain key bp where a: "a = (key, bp)" by (cases a)
  have key: "flow_response_key E (BodyProcessed cx rq res) = Ok (key, bp)" and v: "v = w"
    using went_on(1) a by (simp_all add: flift_def)
  then obtain rq' where bp: "bp = BodyProcessed cx rq' res" "same_target rq' rq"
    by (auto simp: rust_std same_target_def)
  obtain found s where got: "responses_get (en_http E) R key (fst (mo_get mo)) (snd (mo_get mo)) (gw_cache w) = (found, s)"
    by fastforce
  show thesis
  proof (cases found)
    case None
    then show thesis
      using missed [OF key [unfolded bp(1)] bp(2), of s] went_on(2) by (simp add: a v bp(1) got)
  next
    case (Some kept)
    then show thesis
      using hit [OF key [unfolded bp(1)], of kept s] went_on(2) got by (simp add: a v bp(1) fret_def Let_def)
  qed
qed

lemma answer_missed_keeps [keeping]: "keeps gw_pending (answer_missed E G mo R pcs rg key bp)"
  by (auto simp: answer_missed_def intro!: keeping)

lemma answer_missed_reaches:
  assumes "answer_missed E G mo R pcs rg key (BodyProcessed cx rq res) w = Some (r, w')"
  shows "gw_upstream w' = gw_upstream w \<or> reaches E G (gw_dispatcher w) rq res (gw_upstream w) (gw_upstream w')"
  using assms unfolding answer_missed_def
proof (cases rule: fbind_outcome)
  case (failed e)
  then show ?thesis by (intro upstream_answer_reaches)
next
  case (went_on fin v)
  have "keeps gw_upstream (fbind (flift (cacheable (en_http E) (rc_ttl R) (mo_system mo) fin)) (\<lambda>(kept, fin).
     fbind (keep_response R key mo kept) (\<lambda>_. fret (measuring_answer rg fin))))"
    by (auto intro!: keeping)
  then have "gw_upstream w' = gw_upstream v"
    using went_on(2) by (rule keepsD)
  then show ?thesis using upstream_answer_reaches [OF went_on(1)] by simp
qed

lemma reaches_same: "same_target a b \<Longrightarrow> reaches E G d a res u u' = reaches E G d b res u u'"
  by (simp add: reaches_def readdressed_same)

lemma answer_request_reaches:
  assumes "answer_request E G mo pcs rg (BodyProcessed cx rq res) w = Some (r, w')"
  shows "gw_upstream w' = gw_upstream w \<or> reaches E G (gw_dispatcher w) rq res (gw_upstream w) (gw_upstream w')"
proof (cases "gt_responses G")
  case None
  then have "\<exists>r. upstream_answer E G mo pcs (BodyProcessed cx rq res) w = Some (r, w')"
    using assms by (auto simp: answer_request_def fret_def elim: fbind_outcome)
  then show ?thesis using upstream_answer_reaches by blast
next
  case (Some R)
  then have "answer_cached E G mo R pcs rg (BodyProcessed cx rq res) w = Some (r, w')"
    using assms by (simp add: answer_request_def)
  then show ?thesis
  proof (cases rule: answer_cached_outcome)
    case (hit key rq' kept s)
    then show ?thesis by (simp add: out_of_the_cache_def recording_write_def split: option.splits)
  next
    case (missed key rq' s)
    then show ?thesis using answer_missed_reaches [OF missed(3)] by (simp add: reaches_same [OF missed(2)])
  qed simp
qed

section \<open>What is recorded\<close>

text \<open>What a body says it cost: the data frames polled, each read alone.\<close>

definition read_frames :: "json_parser \<Rightarrow> gateway_body \<Rightarrow> measuring \<Rightarrow> measuring" where
  "read_frames parse = fold (\<lambda>f m. case f of Ok (FrameData d) \<Rightarrow> measuring_read parse m d | _ \<Rightarrow> m)"

definition model_read :: "measuring \<Rightarrow> model_name option" where
  "model_read m = (case measured_of m of Some m \<Rightarrow> ms_model m | None \<Rightarrow> None)"

definition tokens_read :: "measuring \<Rightarrow> tokens" where
  "tokens_read m = (case measured_of m of Some m \<Rightarrow> ms_tokens m | None \<Rightarrow> tokens_zero)"

lemma measured_done_writes:
  "mb_recording mb = Some rg \<Longrightarrow> snd (measured_done t mb w) =
     recording_write rg (model_read (mb_measuring mb)) (tokens_read (mb_measuring mb)) Upstream (mb_served_by mb) t w"
  by (simp add: measured_done_def model_read_def tokens_read_def split: option.splits)

lemma measured_done_spent: "mb_recording (fst (measured_done t mb w)) = None"
  by (simp add: measured_done_def split: option.splits)

lemma poll_frame_ended:
  "mb_inner mb = [] \<Longrightarrow> poll_frame parse t mb w = (None, fst (measured_done t mb w), snd (measured_done t mb w))"
  by (simp add: poll_frame_def split: prod.splits)

lemma poll_frame_next:
  "mb_inner mb = f # fs \<Longrightarrow> poll_frame parse t mb w =
     (Some f, mb\<lparr>mb_inner := fs, mb_measuring := read_frames parse [f] (mb_measuring mb)\<rparr>, w)"
  by (simp add: poll_frame_def read_frames_def split: sum.splits frame.splits)

lemma deliver_after_done: "mb_recording mb = None \<Longrightarrow> deliver parse ts dropped mb w = w"
proof (induction ts arbitrary: mb w)
  case (Cons t ts)
  then show ?case
  proof (cases "mb_inner mb")
    case Nil
    then show ?thesis using Cons by (simp add: poll_frame_ended measured_done_def)
  next
    case (Cons f fs)
    then show ?thesis using Cons.prems Cons.IH by (simp add: poll_frame_next)
  qed
qed (simp add: measured_done_def)

lemma deliver_writes:
  assumes "mb_recording mb = Some rg"
  shows "deliver parse ts dropped mb w =
     (let m = read_frames parse (take (length ts) (mb_inner mb)) (mb_measuring mb) in
      recording_write rg (model_read m) (tokens_read m) Upstream (mb_served_by mb)
        (if length (mb_inner mb) < length ts then ts ! length (mb_inner mb) else dropped) w)"
  using assms
proof (induction ts arbitrary: mb w)
  case Nil
  then show ?case by (simp add: measured_done_writes read_frames_def Let_def)
next
  case (Cons t ts)
  show ?case
  proof (cases "mb_inner mb")
    case Nil
    then show ?thesis
      using Cons.prems by (simp add: poll_frame_ended deliver_after_done measured_done_spent measured_done_writes read_frames_def Let_def)
  next
    case (Cons f fs)
    then show ?thesis
      using Cons.prems Cons.IH by (simp add: poll_frame_next read_frames_def Let_def)
  qed
qed

text \<open>A job that names the request it is the record of.\<close>

definition records :: "request_context \<Rightarrow> api_id \<Rightarrow> job \<Rightarrow> bool" where
  "records cx api j =
     (let u = jb_usage j; who = au_identity (cx_authority cx) in
      nu_trace u = cx_trace cx \<and> nu_turn u = cx_turn cx \<and> nu_tenant u = c_tenant who \<and> nu_user u = c_user who \<and> nu_api u = api)"

text \<open>Every record an answer leaves, once its body has been polled and dropped.\<close>

definition after_delivery ::
  "json_parser \<Rightarrow> nat list \<Rightarrow> nat \<Rightarrow> gw_answer \<Rightarrow> ('p, 'u, 's, 'd) gw_world \<Rightarrow> ('p, 'u, 's, 'd) gw_world" where
  "after_delivery parse ts dropped a w =
     (case ga_measured a of None \<Rightarrow> w | Some mb \<Rightarrow> deliver parse ts dropped mb w)"

lemma recording_for_job:
  "recording_for G cx api = Some rg \<Longrightarrow> records cx api (job_of rg model tokens served by_whom t)"
  by (auto simp: recording_for_def recording_of_def serving_def followed_of_def Let_def records_def job_of_def split: option.splits)

lemma recording_for_some: "gt_usage G \<noteq> None \<Longrightarrow> \<exists>rg. recording_for G cx api = Some rg"
  by (auto simp: recording_for_def recording_of_def serving_def)

lemma measured_recorded:
  "\<exists>j. gw_pending (after_delivery parse ts dropped (measuring_answer (Some rg) fin) w) = gw_pending w @ [j]
     \<and> (\<exists>model tokens served by_whom t. j = job_of rg model tokens served by_whom t)"
  by (cases fin) (simp add: after_delivery_def measuring_body_def deliver_writes recording_write_def Let_def, blast)

lemma answer_missed_answers:
  assumes "answer_missed E G mo R pcs rg key bp w = Some (Ok a, w')"
  obtains fin where "a = measuring_answer rg fin"
  using assms unfolding answer_missed_def by (auto simp: fret_def flift_def elim!: fbind_outcome)

lemma answer_request_records:
  assumes "answer_request E G mo pcs (Some rg) (BodyProcessed cx rq res) w = Some (Ok a, w')"
  shows "\<exists>j. gw_pending (after_delivery parse ts dropped a w') = gw_pending w @ [j]
     \<and> (\<exists>model tokens served by_whom t. j = job_of rg model tokens served by_whom t)"
proof (cases "gt_responses G")
  case None
  then obtain fin where "a = measuring_answer (Some rg) fin" "upstream_answer E G mo pcs (BodyProcessed cx rq res) w = Some (Ok fin, w')"
    using assms by (auto simp: answer_request_def fret_def elim: fbind_outcome)
  then show ?thesis
    using measured_recorded [of parse ts dropped rg fin w'] keepsD [OF upstream_answer_keeps] by fastforce
next
  case (Some R)
  then have "answer_cached E G mo R pcs (Some rg) (BodyProcessed cx rq res) w = Some (Ok a, w')"
    using assms by (simp add: answer_request_def)
  then show ?thesis
  proof (cases rule: answer_cached_outcome)
    case (hit key rq' kept s)
    then show ?thesis
      by (simp add: out_of_the_cache_def recording_write_def after_delivery_def) blast
  next
    case (missed key rq' s)
    then obtain fin where "a = measuring_answer (Some rg) fin" by (auto elim: answer_missed_answers)
    then show ?thesis
      using measured_recorded [of parse ts dropped rg fin w'] keepsD [OF answer_missed_keeps missed(3)] by simp
  qed simp
qed

lemma answer_request_fails:
  assumes "answer_request E G mo pcs rg (BodyProcessed cx rq res) w = Some (Err e, w')"
  shows "gw_pending w' = gw_pending w"
proof (cases "gt_responses G")
  case None
  then have "keeps gw_pending (answer_request E G mo pcs rg (BodyProcessed cx rq res))"
    by (auto simp: answer_request_def intro!: keeping)
  then show ?thesis using assms by (rule keepsD)
next
  case (Some R)
  then have "answer_cached E G mo R pcs rg (BodyProcessed cx rq res) w = Some (Err e, w')"
    using assms by (simp add: answer_request_def)
  then show ?thesis
  proof (cases rule: answer_cached_outcome)
    case (missed key rq' s)
    then show ?thesis using keepsD [OF answer_missed_keeps missed(3)] by simp
  qed simp_all
qed

section \<open>A concrete gateway\<close>

definition byte_text :: "bytes \<Rightarrow> string" where
  "byte_text b = map (\<lambda>x. char_of (unat x)) b"

definition sample_http :: http_crates where
  "sample_http =
     \<lparr>value_to_str = \<lambda>b. Some (byte_text b), name_from_bytes = \<lambda>b. Some (byte_text b), value_from_bytes = Some,
      scheme_try_from = Some, authority_try_from = Some,
      uri_build = \<lambda>s a p. Ok \<lparr>uri_scheme = Some s, uri_authority = Some a, uri_path = p, uri_query = None\<rparr>,
      parse_http_date = \<lambda>_. None\<rparr>"

definition sample_env :: gw_env where
  "sample_env = \<lparr>en_http = sample_http, en_crates = sample_crates, en_order = \<lambda>xs. xs, en_json = \<lambda>_. None\<rparr>"

definition sample_context :: request_context where
  "sample_context =
     \<lparr>cx_authority = \<lparr>au_identity = \<lparr>c_user = UserId ''m'', c_tenant = TenantId ''a'', c_role = TenantAdmin (TenantId ''a'')\<rparr>, au_grants = {}\<rparr>,
      cx_protocol = Http, cx_listen = \<lparr>sa_ip = V4 [0, 0, 0, 0], sa_port = 80\<rparr>, cx_trace = TraceId (replicate 16 1), cx_turn = None\<rparr>"

definition sample_asked :: request where
  "sample_asked =
     \<lparr>req_method = ''POST'', req_uri = \<lparr>uri_scheme = None, uri_authority = Some ''127.0.0.1'', uri_path = ''/chat'', uri_query = None\<rparr>,
      req_headers = [(CONNECTION, as_bytes ''close'')], req_body = []\<rparr>"

text \<open>An upstream that counts what it is asked and answers nothing.\<close>

definition sample_gateway :: "(unit, nat, unit, unit) gateway" where
  "sample_gateway =
     gateway_recording (\<lambda>u now d. Err storage_error.Backend)
       (gateway_new (from_rules [sample_route ''/chat'' 82]) (\<lambda>_. 0) chain_new
         (\<lambda>rq n. (Ok \<lparr>resp_status = 200, resp_headers = [], resp_body = []\<rparr>, Suc n)))"

definition sample_world :: "(unit, nat, unit, unit) gw_world" where
  "sample_world =
     \<lparr>gw_plugins = (), gw_upstream = 0, gw_dispatcher = \<lparr>plans = [plan_of [weighted_new (sample_endpoint 82)]], answers = []\<rparr>,
      gw_cache = (), gw_db = (), gw_pending = []\<rparr>"

definition sample_moments :: moments where
  "sample_moments =
     \<lparr>mo_now = Timestamp 5, mo_limits = \<lambda>_. (5000, 1), mo_get = (5000, 2), mo_put = (5000, 3), mo_system = 5, mo_entropy = None,
      mo_chosen = 0, mo_answered = 7, mo_latency = 9\<rparr>"

lemma sample_key_of: "key_of sample_http sample_context sample_asked = Ok (RouteKey ((sample_endpoint 80)\<lparr>ep_path := AbsPath ''/chat''\<rparr>))"
  by code_simp

abbreviation sample_resolution :: resolution where
  "sample_resolution \<equiv> \<lparr>res_rule = sample_route ''/chat'' 82, res_targets = [weighted_new (sample_endpoint 82)],
     res_plan = plan_of [weighted_new (sample_endpoint 82)]\<rparr>"

lemma sample_resolved:
  "resolve (from_rules [sample_route ''/chat'' 82]) (RouteKey ((sample_endpoint 80)\<lparr>ep_path := AbsPath ''/chat''\<rparr>)) = Some sample_resolution"
proof -
  have "stopped_at [sample_route ''/chat'' 82] (RouteKey ((sample_endpoint 80)\<lparr>ep_path := AbsPath ''/chat''\<rparr>)) = Some (sample_route ''/chat'' 82)"
    by (simp add: stopped_at_def longest_first_def remainder_of_def Let_def strip_suffix_def starts_with_def)
  then show ?thesis
    unfolding resolve_from_rules
    by (simp add: join_targets_extended weighted_new_def sample_endpoint_def extended_def
        join_def remainder_of_def Let_def strip_suffix_def starts_with_def path_ok_def path_char_def
        ascii_graphic_def code_def)
qed

lemma sample_taken:
  "take_in sample_env sample_gateway sample_context sample_asked w =
     Some (Ok (BodyProcessed sample_context sample_asked sample_resolution, chain_new, ApiId ''chat''), w)"
proof -
  have "gt_table sample_gateway = from_rules [sample_route ''/chat'' 82]" "gt_chains sample_gateway = (\<lambda>_ _. chain_new)"
    "en_http sample_env = sample_http" "r_api (sample_route ''/chat'' 82) = ApiId ''chat''"
    by (simp_all add: sample_gateway_def gateway_recording_def gateway_new_def with_chains_def sample_env_def sample_route_def)
  moreover have "allow sample_context sample_resolution = Ok ()"
    by (simp add: allow_def sample_context_def Let_def authority_allows_def)
  moreover have "is_forwarded (ep_protocol (w_endpoint (weighted_new (sample_endpoint 82))))"
    by (simp add: weighted_new_def sample_endpoint_def)
  ultimately show ?thesis
    by (simp add: take_in_def flift_def fbind_def fret_def sample_key_of resolve_route_def sample_resolved chain_new_def run_body_def Let_def)
qed

lemma sample_reached:
  "\<exists>fin w'. upstream_answer sample_env sample_gateway sample_moments chain_new (BodyProcessed sample_context sample_asked sample_resolution)
     sample_world = Some (Ok fin, w') \<and> gw_upstream w' = 1"
proof -
  have "fst (dispatcher_choose (gw_dispatcher sample_world) 0 RoundRobin [weighted_new (sample_endpoint 82)] None 0) =
     \<lparr>ch_endpoint = sample_endpoint 82, ch_plan = 0, ch_at = 0, ch_started = 0\<rparr>"
    by code_simp
  then obtain d where "dispatcher_choose (gw_dispatcher sample_world) 0 RoundRobin [weighted_new (sample_endpoint 82)] None 0 =
     (\<lparr>ch_endpoint = sample_endpoint 82, ch_plan = 0, ch_at = 0, ch_started = 0\<rparr>, d)"
    by (metis prod.collapse)
  moreover have "gw_upstream sample_world = 0"
    by (simp add: sample_world_def)
  ultimately show ?thesis
    by (simp add: upstream_answer_def fbind_def fret_def sample_gateway_def gateway_recording_def gateway_new_def with_chains_def sample_env_def
       sample_route_def sample_moments_def rewrite_def target_uri_def sample_http_def Let_def chain_new_def run_body_def is_event_stream_def
       hm_get_def hm_get_all_def strip_hop_by_hop_def listed_names_def)
qed

lemma sample_handled:
  obtains a w' where "handle sample_env sample_gateway sample_moments sample_context sample_asked sample_world = Some (Ok a, w')" "gw_upstream w' = 1"
proof -
  obtain fin w' where "upstream_answer sample_env sample_gateway sample_moments chain_new
      (BodyProcessed sample_context sample_asked sample_resolution) sample_world = Some (Ok fin, w')" "gw_upstream w' = 1"
    using sample_reached by blast
  moreover have "gt_limiter sample_gateway = None" "gt_responses sample_gateway = None"
    by (simp_all add: sample_gateway_def gateway_recording_def gateway_new_def with_chains_def)
  ultimately show thesis
    using that by (simp add: handle_def fbind_def fret_def sample_taken Let_def gateway_admit_def answer_request_def)
qed

text \<open>Bytes that measuring reads nothing in.\<close>

definition unread :: "json_parser \<Rightarrow> bytes \<Rightarrow> bool" where
  "unread parse b = (parse b = None \<and> list_all (\<lambda>line. Option.bind (strip_data line) parse = None) (split_by (\<lambda>c. c = LF) b))"

lemma measuring_read_unread:
  assumes "unread parse b"
  shows "measuring_read parse m b = m"
proof -
  have "fold (\<lambda>line m. case Option.bind (strip_data line) parse of None \<Rightarrow> m | Some v \<Rightarrow> measuring_fold m v) ls m = m"
    if "list_all (\<lambda>line. Option.bind (strip_data line) parse = None) ls" for ls
    using that by (induction ls) simp_all
  then show ?thesis using assms by (simp add: unread_def measuring_read_def)
qed

definition quoted :: "string \<Rightarrow> string" where
  "quoted s = CHR 0x22 # s @ [CHR 0x22]"

definition sample_head :: bytes where
  "sample_head = as_bytes (''{'' @ quoted ''usage'' @ '':{'' @ quoted ''input_tokens'' @ '':3,'' @ quoted ''output_tokens'' @ '':'')"

definition sample_tail :: bytes where
  "sample_tail = as_bytes ''4}}''"

definition sample_document :: json where
  "sample_document = JObject [(''usage'', JObject [(''input_tokens'', JNumber (PosInt 3)), (''output_tokens'', JNumber (PosInt 4))])]"

definition sample_parse :: json_parser where
  "sample_parse b = (if b = sample_head @ sample_tail then Some sample_document else None)"

definition sample_recording :: recording where
  "sample_recording =
     \<lparr>rg_limiting = None, rg_trace = TraceId (replicate 16 1), rg_turn = None, rg_tenant = TenantId ''a'', rg_user = UserId ''m'', rg_api = ApiId ''chat''\<rparr>"

text \<open>A cache that holds one answer for every key.\<close>

definition sample_responses :: "unit response_cache" where
  "sample_responses =
     \<lparr>rc_cache = \<lparr>op_get = \<lambda>_ _ _ s. (Some [0, 0, 7], s), op_put = \<lambda>_ _ _ _ _ s. Some s, op_claim = \<lambda>_ _ _ _ s. Some (True, s),
        op_remove = \<lambda>_ _ s. (True, s)\<rparr>, rc_ttl = Ttl 1\<rparr>"

section \<open>Properties\<close>

text \<open>
  C1: nothing reaches an upstream but by the rules. Where handling a request has asked the upstream
  anything, the request's own address resolved to a rule every endpoint of which is served, its caller
  holds the right to call that rule's api, the limits let it in, and the upstream was asked once: with
  a request for the same method and query, addressed to one of the rule's endpoints under that
  endpoint's own host, and carrying no hop by hop header.
\<close>

theorem upstream_only_when_allowed:
  assumes "handle E G mo cx rq w = Some (r, w')" "gw_upstream w' \<noteq> gw_upstream w"
  shows "\<exists>res. routed_for E G cx rq res \<and> let_in E G mo cx (r_api (res_rule res)) w
     \<and> reaches E G (gw_dispatcher w) rq res (gw_upstream w) (gw_upstream w')"
  using assms(1)
proof (cases rule: handle_outcome)
  case (admitted res rq' pcs v)
  then have "reaches E G (gw_dispatcher w) rq' res (gw_upstream w) (gw_upstream w')"
    using answer_request_reaches [OF admitted(7)] assms(2) by simp
  then have "reaches E G (gw_dispatcher w) rq res (gw_upstream w) (gw_upstream w')"
    by (simp add: reaches_same [OF admitted(3)])
  then show ?thesis using admitted(1,2) by blast
qed (use assms(2) in simp)

theorem upstream_only_when_allowed_witness:
  "\<exists>r w' res. handle sample_env sample_gateway sample_moments sample_context sample_asked sample_world = Some (r, w')
     \<and> routed_for sample_env sample_gateway sample_context sample_asked res
     \<and> reaches sample_env sample_gateway (gw_dispatcher sample_world) sample_asked res 0 1"
proof -
  obtain a w' where h: "handle sample_env sample_gateway sample_moments sample_context sample_asked sample_world = Some (Ok a, w')"
    and "gw_upstream w' = 1"
    by (rule sample_handled)
  moreover have "gw_upstream sample_world = 0" by (simp add: sample_world_def)
  ultimately show ?thesis
    using upstream_only_when_allowed [OF h] by fastforce
qed

text \<open>
  C2: every answer is recorded exactly once. Where use is recorded, a request that fails leaves no
  record; one that is answered leaves one, which names its trace, turn, tenant, user and api, whether
  it was answered out of the cache or by an upstream, and however many frames of the answer's body
  were polled before it was dropped.
\<close>

theorem request_recorded_once:
  assumes "handle E G mo cx rq w = Some (r, w')" "gt_usage G \<noteq> None"
  shows "case r of
      Err e \<Rightarrow> gw_pending w' = gw_pending w
    | Ok a \<Rightarrow> \<exists>res j. routed_for E G cx rq res \<and> records cx (r_api (res_rule res)) j
        \<and> gw_pending (after_delivery (en_json E) polls dropped a w') = gw_pending w @ [j]"
  using assms(1)
proof (cases rule: handle_outcome)
  case (admitted res rq' pcs v)
  obtain rg where rg: "recording_for G cx (r_api (res_rule res)) = Some rg"
    using recording_for_some [OF assms(2)] by blast
  show ?thesis
  proof (cases r)
    case (Inl e)
    then show ?thesis using answer_request_fails admitted(6,7) by fastforce
  next
    case (Inr a)
    then show ?thesis
      using answer_request_records [of E G mo pcs rg cx rq' res v a w' "en_json E" polls dropped] admitted(1,6,7) rg
        recording_for_job [OF rg] by fastforce
  qed
qed simp

theorem request_recorded_once_witness:
  "\<exists>a w' j. handle sample_env sample_gateway sample_moments sample_context sample_asked sample_world = Some (Ok a, w')
     \<and> nu_user (jb_usage j) = UserId ''m'' \<and> gw_pending (after_delivery (en_json sample_env) [1, 2, 3] 4 a w') = [j]"
proof -
  obtain a w' where h: "handle sample_env sample_gateway sample_moments sample_context sample_asked sample_world = Some (Ok a, w')"
    by (rule sample_handled)
  moreover have "gt_usage sample_gateway \<noteq> None" "gw_pending sample_world = []" "c_user (au_identity (cx_authority sample_context)) = UserId ''m''"
    by (simp_all add: sample_gateway_def gateway_recording_def sample_world_def sample_context_def)
  ultimately show ?thesis
    using request_recorded_once [OF h, of "[1, 2, 3]" 4] by (auto simp: records_def Let_def)
qed

text \<open>
  C35: an answer that arrives in two pieces costs nothing. Each frame of a body is read alone, so a json
  answer split in two, neither piece of which is a document or holds an event, is recorded with no
  tokens and no model, whatever counts the whole of it names; the same answer in one frame is recorded
  with them.
\<close>

theorem split_answer_unmeasured:
  assumes "parse (a @ b) = Some v" "usage_of v = Some usage" "token_count_of usage INPUT_KEYS = Some m" "token_count_of usage OUTPUT_KEYS = Some n"
    and "unread parse a" "unread parse b"
  shows "deliver parse [t\<^sub>0, t\<^sub>1, t\<^sub>2] dropped (measuring_body rg [Ok (FrameData a), Ok (FrameData b)] by_whom) w =
      recording_write rg None tokens_zero Upstream (Some by_whom) t\<^sub>2 w
    \<and> deliver parse [t\<^sub>0, t\<^sub>1, t\<^sub>2] dropped (measuring_body rg [Ok (FrameData (a @ b))] by_whom) w =
      recording_write rg (model_of v) \<lparr>tok_input = m, tok_output = n\<rparr> Upstream (Some by_whom) t\<^sub>1 w"
proof -
  have whole: "measuring_read parse measuring_default (a @ b) = \<lparr>mg_model = model_of v, mg_input = Some m, mg_output = Some n\<rparr>"
    using assms(1-4) by (simp add: measuring_read_def measuring_fold_def measuring_default_def Let_def count_max_def)
  show ?thesis
    by (simp add: deliver_writes measuring_body_def read_frames_def measuring_read_unread [OF assms(5)] measuring_read_unread [OF assms(6)]
        whole model_read_def tokens_read_def measured_of_def Let_def del: deliver.simps) (simp add: measuring_default_def)
qed

theorem split_answer_unmeasured_witness:
  "gw_pending (deliver sample_parse [1, 2, 3] 4 (measuring_body sample_recording [Ok (FrameData sample_head), Ok (FrameData sample_tail)]
       (replica_of (sample_endpoint 82))) sample_world) =
     [job_of sample_recording None tokens_zero Upstream (Some (replica_of (sample_endpoint 82))) 3]
   \<and> measured_of (measuring_read sample_parse measuring_default (sample_head @ sample_tail)) \<noteq> None"
proof -
  have doc: "sample_parse (sample_head @ sample_tail) = Some sample_document"
    by (simp add: sample_parse_def)
  have usage: "usage_of sample_document = Some (JObject [(''input_tokens'', JNumber (PosInt 3)), (''output_tokens'', JNumber (PosInt 4))])"
    by (simp add: usage_of_def or_else_def sample_document_def)
  have counts: "token_count_of (JObject [(''input_tokens'', JNumber (PosInt 3)), (''output_tokens'', JNumber (PosInt 4))]) INPUT_KEYS = Some (TokenCount 3)"
    "token_count_of (JObject [(''input_tokens'', JNumber (PosInt 3)), (''output_tokens'', JNumber (PosInt 4))]) OUTPUT_KEYS = Some (TokenCount 4)"
    by (simp_all add: token_count_of_def INPUT_KEYS_def OUTPUT_KEYS_def)
  have "unread sample_parse sample_head" "unread sample_parse sample_tail"
    by code_simp+
  note split = split_answer_unmeasured [OF doc usage counts this, of 1 2 3 4 sample_recording "replica_of (sample_endpoint 82)" sample_world]
  have "measured_of (measuring_read sample_parse measuring_default (sample_head @ sample_tail)) \<noteq> None"
    by code_simp
  then show ?thesis
    using split [THEN conjunct1] by (simp add: recording_write_def sample_world_def)
qed

text \<open>
  C37: an answer is kept for the path and not for the question. A request that differs from one already
  answered in its method and its query alone has the same name in the response cache, so it is answered
  with what the other was answered with and its own method and query, which every request to an
  upstream carries, reach no upstream.
\<close>

theorem query_shares_answer:
  assumes "flow_response_key E (BodyProcessed cx rq res) = Ok (key, bp)"
    and "responses_get (en_http E) R key (fst (mo_get mo)) (snd (mo_get mo)) (gw_cache w) = (Some kept, s)"
  shows "\<exists>w'. answer_cached E G mo R pcs rg (BodyProcessed cx (rq\<lparr>req_method := verb, req_uri := (req_uri rq)\<lparr>uri_query := query\<rparr>\<rparr>) res) w
      = Some (Ok \<lparr>ga_response = answer_with kept, ga_measured = None\<rparr>, w') \<and> gw_upstream w' = gw_upstream w"
proof -
  let ?rq = "rq\<lparr>req_method := verb, req_uri := (req_uri rq)\<lparr>uri_query := query\<rparr>\<rparr>"
  have "key_of (en_http E) cx ?rq = key_of (en_http E) cx rq"
    by (simp add: key_of_def authority_of_request_def split: option.split)
  then obtain bp' where "flow_response_key E (BodyProcessed cx ?rq res) = Ok (key, bp')"
    using assms(1) by (auto simp: rust_std)
  then show ?thesis
    using assms(2) by (simp add: answer_cached_def fbind_def flift_def fret_def out_of_the_cache_def recording_write_def Let_def
        split: option.split del: flow_response_key.simps)
qed

theorem query_shares_answer_witness:
  "\<exists>w'. answer_cached sample_env sample_gateway sample_moments sample_responses chain_new None
       (BodyProcessed sample_context (sample_asked\<lparr>req_method := ''GET'', req_uri := (req_uri sample_asked)\<lparr>uri_query := Some ''q=2''\<rparr>\<rparr>) sample_resolution)
       sample_world
     = Some (Ok \<lparr>ga_response = answer_with \<lparr>cr_content_type = None, cr_body = [7]\<rparr>, ga_measured = None\<rparr>, w') \<and> gw_upstream w' = gw_upstream sample_world"
proof -
  obtain k where "response_key sample_crates (RouteKey ((sample_endpoint 80)\<lparr>ep_path := AbsPath ''/chat''\<rparr>)) (TenantId ''a'') [] = Ok k"
    using sample_response_key by blast
  then obtain key bp where "flow_response_key sample_env (BodyProcessed sample_context sample_asked sample_resolution) = Ok (key, bp)"
    by (auto simp: sample_env_def sample_key_of collect_at_def sample_asked_def [THEN arg_cong [of _ _ req_body]] sample_context_def [THEN arg_cong [of _ _ cx_authority]]
        split: sum.splits)
  moreover have "responses_get (en_http sample_env) sample_responses key a b s = (Some \<lparr>cr_content_type = None, cr_body = [7]\<rparr>, s)" for a b s
    by (simp add: responses_get_def sample_responses_def decode_response_def split_at_checked_def TYPE_LEN_def from_be_bytes_def nat_of_be_def)
  ultimately show ?thesis
    by (rule query_shares_answer)
qed

end
