(* ===== verification/Plugins.thy ===== *)
theory Plugins
  imports Flow "HOL-Library.AList"
begin

text \<open>
  The plugin host: \<open>crates/ip-plugin/src/limits.rs\<close>, \<open>error.rs\<close>, \<open>abi.rs\<close>, \<open>headers.rs\<close>, \<open>host.rs\<close>,
  \<open>adapter.rs\<close> and \<open>chains.rs\<close>. The \<open>wasmtime\<close> package is outside the repository: compiling a module,
  preparing and starting an instance, its memory and its calls are the record \<open>wasmtime\<close>; a guest's own
  state is the type \<open>'i\<close>, which every call may change. A \<open>HashMap\<close> is an association list with
  distinct keys, a \<open>BTreeMap\<close> one in the order of its keys. The thread that advances the engine's epoch
  and the thread a call runs on are left out, and so is what a log line looks like once it is written.
\<close>

type_synonym i32 = "32 word"

section \<open>Text\<close>

text \<open>\<open>String::from_utf8\<close>: the ranges the bytes after a first one lie in, and the whole text.\<close>

definition utf8_rest :: "byte \<Rightarrow> (byte \<times> byte) list option" where
  "utf8_rest b =
     (let more = (0x80, 0xbf) in
      if b < 0x80 then Some []
      else if b < 0xc2 then None
      else if b < 0xe0 then Some [more]
      else if b = 0xe0 then Some [(0xa0, 0xbf), more]
      else if b = 0xed then Some [(0x80, 0x9f), more]
      else if b < 0xf0 then Some [more, more]
      else if b = 0xf0 then Some [(0x90, 0xbf), more, more]
      else if b < 0xf4 then Some [more, more, more]
      else if b = 0xf4 then Some [(0x80, 0x8f), more, more]
      else None)"

fun utf8_scan :: "(byte \<times> byte) list \<Rightarrow> bytes \<Rightarrow> bool" where
  "utf8_scan rest [] = (rest = [])"
| "utf8_scan [] (b # bs) = (case utf8_rest b of None \<Rightarrow> False | Some rest \<Rightarrow> utf8_scan rest bs)"
| "utf8_scan ((low, high) # rest) (b # bs) = (low \<le> b \<and> b \<le> high \<and> utf8_scan rest bs)"

definition from_utf8 :: "bytes \<Rightarrow> string option" where
  "from_utf8 b = (if utf8_scan [] b then Some (map (\<lambda>x. char_of (unat x)) b) else None)"

section \<open>Limits\<close>

record plugin_limits =
  lt_fuel :: u64
  lt_deadline :: nat
  lt_tick :: nat
  lt_memory_bytes :: nat
  lt_log_bytes :: nat

definition deadline_ticks :: "plugin_limits \<Rightarrow> u64" where
  "deadline_ticks l =
     (let tick = max (lt_tick l) 1;
          ticks = max (div_ceil (lt_deadline l) tick) 1 in
      if ticks < 2 ^ 64 then of_nat ticks else - 1)"

definition default_limits :: plugin_limits where
  "default_limits =
     \<lparr>lt_fuel = 100000000, lt_deadline = 100 * 1000000, lt_tick = 10 * 1000000, lt_memory_bytes = 64 * 1024 * 1024, lt_log_bytes = 1024\<rparr>"

section \<open>Errors\<close>

datatype plugin_error =
    ChecksumMismatch checksum
  | CompileErr checksum string
  | ImportsErr checksum string
  | AbiErr checksum string
  | NotLoaded checksum
  | InstantiateErr checksum string
  | OutOfFuel checksum
  | DeadlineExceeded checksum
  | TrapErr checksum string
  | EngineErr string

text \<open>What \<open>wasmtime::Error\<close> carries: a trap, or something that is none.\<close>

datatype wasm_error = TrapOutOfFuel | TrapInterrupt | OtherTrap string | NotTrap string

fun trapped :: "checksum \<Rightarrow> wasm_error \<Rightarrow> (string \<Rightarrow> plugin_error) \<Rightarrow> plugin_error" where
  "trapped c TrapOutOfFuel otherwise = OutOfFuel c"
| "trapped c TrapInterrupt otherwise = DeadlineExceeded c"
| "trapped c (OtherTrap trap) otherwise = TrapErr c trap"
| "trapped c (NotTrap detail) otherwise = otherwise detail"

fun plugin_error_fmt :: "hex_encoder \<Rightarrow> plugin_error \<Rightarrow> string" where
  "plugin_error_fmt hex (ChecksumMismatch c) = ''wasm does not hash to '' @ checksum_to_hex hex c"
| "plugin_error_fmt hex (CompileErr c d) = ''plugin '' @ checksum_to_hex hex c @ '' does not compile: '' @ d"
| "plugin_error_fmt hex (ImportsErr c i) = ''plugin '' @ checksum_to_hex hex c @ '' imports '' @ i @ '', and plugins may import nothing''"
| "plugin_error_fmt hex (AbiErr c d) = ''plugin '' @ checksum_to_hex hex c @ '' breaks the plugin abi: '' @ d"
| "plugin_error_fmt hex (NotLoaded c) = ''plugin '' @ checksum_to_hex hex c @ '' is not loaded''"
| "plugin_error_fmt hex (InstantiateErr c d) = ''plugin '' @ checksum_to_hex hex c @ '' could not be instantiated: '' @ d"
| "plugin_error_fmt hex (OutOfFuel c) = ''plugin '' @ checksum_to_hex hex c @ '' ran out of fuel''"
| "plugin_error_fmt hex (DeadlineExceeded c) = ''plugin '' @ checksum_to_hex hex c @ '' ran past its deadline''"
| "plugin_error_fmt hex (TrapErr c d) = ''plugin '' @ checksum_to_hex hex c @ '' trapped: '' @ d"
| "plugin_error_fmt hex (EngineErr d) = ''plugin engine failed: '' @ d"

record header_block_error =
  hb_line :: nat
  hb_problem :: string

definition header_block_error_fmt :: "header_block_error \<Rightarrow> string" where
  "header_block_error_fmt e = ''line '' @ show_nat (hb_line e) @ '' of the header block '' @ hb_problem e"

datatype chain_error = ChainStorage storage_error | GlobalPlugin checksum string

section \<open>The abi\<close>

definition MEMORY :: string where "MEMORY = ''memory''"
definition ALLOC :: string where "ALLOC = ''alloc''"
definition DEALLOC :: string where "DEALLOC = ''dealloc''"
definition TRANSFORM :: string where "TRANSFORM = ''transform''"
definition HOST_MODULE :: string where "HOST_MODULE = ''ip''"
definition LOG :: string where "LOG = ''log''"

definition REFUSED :: u64 where "REFUSED = push_bit 63 1"

datatype transformed = Output bytes | RefusedWith string

record packed =
  pk_refused :: bool
  pk_ptr :: u32
  pk_len :: u32

definition unpack :: "u64 \<Rightarrow> packed" where
  "unpack raw =
     \<lparr>pk_refused = and raw REFUSED \<noteq> 0,
      pk_ptr = ucast (and (drop_bit 32 raw) 0x7fffffff),
      pk_len = ucast (and raw 0xffffffff)\<rparr>"

text \<open>The types a function takes and returns, each as \<open>ValType\<close> writes it.\<close>

datatype extern_type = ExternFunc "string list" "string list" | ExternMemory | OtherExtern

fun render :: "string list \<Rightarrow> string" where
  "render [] = []"
| "render [t] = t"
| "render (t # ts) = t @ '' '' @ render ts"

definition check_export ::
  "checksum \<Rightarrow> (string \<times> extern_type) list \<Rightarrow> string \<times> string \<times> string \<Rightarrow> (plugin_error, unit) result" where
  "check_export c exports wanted =
     (case wanted of (name, params, results) \<Rightarrow>
        (case map_of exports name of
           None \<Rightarrow> Err (AbiErr c (''no `'' @ name @ ''` function export''))
         | Some (ExternFunc ps rs) \<Rightarrow>
             if render ps \<noteq> params \<or> render rs \<noteq> results
             then Err (AbiErr c (''`'' @ name @ ''` takes ('' @ render ps @ '') and returns ('' @ render rs @ ''), not ('' @ params
                    @ '') and ('' @ results @ '')''))
             else Ok ()
         | Some _ \<Rightarrow> Err (AbiErr c (''`'' @ name @ ''` is not a function''))))"

definition check_exports :: "checksum \<Rightarrow> (string \<times> extern_type) list \<Rightarrow> (plugin_error, unit) result" where
  "check_exports c exports =
     (if (MEMORY, ExternMemory) \<notin> set exports then Err (AbiErr c (''no `'' @ MEMORY @ ''` memory export''))
      else rbind (check_export c exports (ALLOC, ''i32'', ''i32'')) (\<lambda>_.
           rbind (check_export c exports (DEALLOC, ''i32 i32'', [])) (\<lambda>_.
           check_export c exports (TRANSFORM, ''i32 i32'', ''i64''))))"

section \<open>Header blocks\<close>

definition encode_headers :: "header_map \<Rightarrow> bytes" where
  "encode_headers h = concat (map (\<lambda>(name, v). as_bytes name @ as_bytes '': '' @ v @ [CR, LF]) h)"

text \<open>\<open>slice::trim_ascii\<close>.\<close>

definition ascii_space :: "byte \<Rightarrow> bool" where
  "ascii_space b = (b \<in> {9, 10, 12, 13, 32})"

definition trim_ascii :: "bytes \<Rightarrow> bytes" where
  "trim_ascii b = rev (dropWhile ascii_space (rev (dropWhile ascii_space b)))"

definition header_line :: "http_crates \<Rightarrow> nat \<Rightarrow> bytes \<Rightarrow> (header_block_error, (string \<times> bytes) option) result" where
  "header_line X number raw =
     (let line = unwrap_or (strip_suffix raw [CR]) raw in
      if line = [] then Ok None
      else case split_once line 58 of
        None \<Rightarrow> Err \<lparr>hb_line = number, hb_problem = ''has no colon''\<rparr>
      | Some (before, after) \<Rightarrow>
          rbind (ok_or (name_from_bytes X (trim_ascii before)) \<lparr>hb_line = number, hb_problem = ''names no valid header''\<rparr>) (\<lambda>name.
          rbind (ok_or (value_from_bytes X (trim_ascii after)) \<lparr>hb_line = number, hb_problem = ''carries a value a header cannot hold''\<rparr>) (\<lambda>v.
          Ok (Some (name, v)))))"

fun decode_lines :: "http_crates \<Rightarrow> nat \<Rightarrow> bytes list \<Rightarrow> header_map \<Rightarrow> (header_block_error, header_map) result" where
  "decode_lines X number [] h = Ok h"
| "decode_lines X number (raw # rest) h =
     rbind (header_line X number raw) (\<lambda>found.
     decode_lines X (number + 1) rest (case found of None \<Rightarrow> h | Some entry \<Rightarrow> h @ [entry]))"

definition decode_headers :: "http_crates \<Rightarrow> bytes \<Rightarrow> (header_block_error, header_map) result" where
  "decode_headers X block = decode_lines X 1 (split_by (\<lambda>b. b = LF) block) []"

section \<open>The host\<close>

text \<open>
  What the host uses of \<open>wasmtime\<close>: \<open>Module::from_binary\<close> and a module's imports and exports;
  \<open>instantiate_pre\<close>; \<open>Store::set_fuel\<close>; starting an instance in a store of the given limits and
  deadline; looking an export up; the guest's memory; and its three functions.
\<close>

record call_limits =
  cl_memory :: nat
  cl_log_bytes :: nat
  cl_fuel :: u64
  cl_deadline :: u64

record ('m, 'q, 'i) wasmtime =
  from_binary :: "bytes \<Rightarrow> (string, 'm) result"
  module_imports :: "'m \<Rightarrow> (string \<times> string) list"
  module_exports :: "'m \<Rightarrow> (string \<times> extern_type) list"
  instantiate_pre :: "'m \<Rightarrow> (string, 'q) result"
  set_fuel :: "u64 \<Rightarrow> (string, unit) result"
  start_instance :: "'q \<Rightarrow> call_limits \<Rightarrow> (wasm_error, 'i) result"
  get_memory :: "'i \<Rightarrow> string \<Rightarrow> bool"
  get_typed_func :: "'i \<Rightarrow> string \<Rightarrow> (string, unit) result"
  memory_read :: "'i \<Rightarrow> nat \<Rightarrow> nat \<Rightarrow> bytes option"
  memory_write :: "'i \<Rightarrow> nat \<Rightarrow> bytes \<Rightarrow> 'i option"
  call_alloc :: "'i \<Rightarrow> i32 \<Rightarrow> (wasm_error, i32 \<times> 'i) result"
  call_dealloc :: "'i \<Rightarrow> i32 \<Rightarrow> i32 \<Rightarrow> (wasm_error, 'i) result"
  call_transform :: "'i \<Rightarrow> i32 \<Rightarrow> i32 \<Rightarrow> (wasm_error, u64 \<times> 'i) result"

record 'q plugin_host =
  ph_modules :: "(checksum \<times> 'q) list"
  ph_limits :: plugin_limits

definition host_new :: "plugin_limits \<Rightarrow> 'q plugin_host" where
  "host_new l = \<lparr>ph_modules = [], ph_limits = l\<rparr>"

definition is_loaded :: "'q plugin_host \<Rightarrow> checksum \<Rightarrow> bool" where
  "is_loaded h c = (map_of (ph_modules h) c \<noteq> None)"

fun check_imports :: "checksum \<Rightarrow> (string \<times> string) list \<Rightarrow> (plugin_error, unit) result" where
  "check_imports c [] = Ok ()"
| "check_imports c ((from, name) # rest) =
     (if from = HOST_MODULE \<and> name = LOG then check_imports c rest
      else Err (ImportsErr c (from @ ''::'' @ name)))"

definition host_load ::
  "('m, 'q, 'i) wasmtime \<Rightarrow> crates \<Rightarrow> checksum \<Rightarrow> bytes \<Rightarrow> 'q plugin_host \<Rightarrow> (plugin_error, unit) result \<times> 'q plugin_host" where
  "host_load W C c wasm h =
     (if is_loaded h c then (Ok (), h)
      else if \<not> checksum_matches (sha256 C) c wasm then (Err (ChecksumMismatch c), h)
      else case
        rbind (map_err (CompileErr c) (from_binary W wasm)) (\<lambda>m.
        rbind (check_imports c (module_imports W m)) (\<lambda>_.
        rbind (check_exports c (module_exports W m)) (\<lambda>_.
        map_err (InstantiateErr c) (instantiate_pre W m))))
      of
        Err e \<Rightarrow> (Err e, h)
      | Ok prepared \<Rightarrow> (Ok (), h\<lparr>ph_modules := AList.update c prepared (ph_modules h)\<rparr>))"

definition host_unload :: "checksum \<Rightarrow> 'q plugin_host \<Rightarrow> bool \<times> 'q plugin_host" where
  "host_unload c h = (is_loaded h c, h\<lparr>ph_modules := AList.delete c (ph_modules h)\<rparr>)"

definition host_len :: "'q plugin_host \<Rightarrow> nat" where
  "host_len h = length (ph_modules h)"

definition call_limits_of :: "plugin_limits \<Rightarrow> call_limits" where
  "call_limits_of l = \<lparr>cl_memory = lt_memory_bytes l, cl_log_bytes = lt_log_bytes l, cl_fuel = lt_fuel l, cl_deadline = deadline_ticks l\<rparr>"

definition instantiate :: "('m, 'q, 'i) wasmtime \<Rightarrow> 'q plugin_host \<Rightarrow> checksum \<Rightarrow> (plugin_error, 'i) result" where
  "instantiate W h c =
     rbind (ok_or (map_of (ph_modules h) c) (NotLoaded c)) (\<lambda>prepared.
     rbind (map_err EngineErr (set_fuel W (lt_fuel (ph_limits h)))) (\<lambda>_.
     map_err (\<lambda>e. trapped c e (InstantiateErr c)) (start_instance W prepared (call_limits_of (ph_limits h)))))"

text \<open>The one import: \<open>log\<close>. What it writes, at which level, or nothing.\<close>

datatype log_level = TraceLevel | DebugLevel | InfoLevel | WarnLevel | ErrorLevel

definition log_level_of :: "i32 \<Rightarrow> log_level" where
  "log_level_of level =
     (if sint level \<le> 0 then TraceLevel else if level = 1 then DebugLevel else if level = 2 then InfoLevel
      else if level = 3 then WarnLevel else ErrorLevel)"

definition host_log :: "('m, 'q, 'i) wasmtime \<Rightarrow> nat \<Rightarrow> i32 \<Rightarrow> i32 \<Rightarrow> i32 \<Rightarrow> 'i \<Rightarrow> (log_level \<times> bytes) option" where
  "host_log W cap level ptr len i =
     (if \<not> get_memory W i MEMORY then None
      else map_option (\<lambda>line. (log_level_of level, line))
             (memory_read W i (nat (max (sint ptr) 0)) (min (nat (max (sint len) 0)) cap)))"

definition transform :: "('m, 'q, 'i) wasmtime \<Rightarrow> checksum \<Rightarrow> bytes \<Rightarrow> 'i \<Rightarrow> (plugin_error, transformed) result" where
  "transform W c input i =
     (let broken = AbiErr c; trap = (\<lambda>e. trapped c e (TrapErr c)) in
      rbind (if get_memory W i MEMORY then Ok () else Err (broken (''no `'' @ MEMORY @ ''` memory export''))) (\<lambda>_.
      rbind (map_err broken (get_typed_func W i ALLOC)) (\<lambda>_.
      rbind (map_err broken (get_typed_func W i DEALLOC)) (\<lambda>_.
      rbind (map_err broken (get_typed_func W i TRANSFORM)) (\<lambda>_.
      rbind (if length input < 2 ^ 31 then Ok (of_nat (length input))
             else Err (broken (''an input of '' @ show_nat (length input) @ '' bytes cannot be addressed''))) (\<lambda>len.
      rbind (map_err trap (call_alloc W i len)) (\<lambda>(at, i).
      rbind (if 0 \<le> sint at then Ok (unat at)
             else Err (broken (''`'' @ ALLOC @ ''` returned the negative address '' @ show_int (sint at)))) (\<lambda>offset.
      rbind (ok_or (memory_write W i offset input) (broken (''`'' @ ALLOC @ ''` returned memory the input does not fit in''))) (\<lambda>i.
      rbind (map_err trap (call_transform W i at len)) (\<lambda>(raw, i).
      let span = unpack raw in
      rbind (ok_or (memory_read W i (unat (pk_ptr span)) (unat (pk_len span)))
               (broken (''`'' @ TRANSFORM @ ''` returned a span outside its memory''))) (\<lambda>out.
      rbind (map_err trap (call_dealloc W i at len)) (\<lambda>i.
      rbind (map_err trap (call_dealloc W i (pk_ptr span) (pk_len span))) (\<lambda>_.
      if pk_refused span
      then map_sum id RefusedWith (ok_or (from_utf8 out) (broken ''the refusal reason is not utf-8''))
      else Ok (Output out))))))))))))))"

section \<open>Plugins as processors\<close>

record ('m, 'q, 'i) plugin_env =
  pe_wasm :: "('m, 'q, 'i) wasmtime"
  pe_crates :: crates
  pe_http :: http_crates

definition run_plugin ::
  "('m, 'q, 'i) plugin_env \<Rightarrow> checksum \<Rightarrow> bytes \<Rightarrow> 'q plugin_host \<Rightarrow> (processor_error, bytes) result" where
  "run_plugin P c input h =
     (case rbind (instantiate (pe_wasm P) h c) (transform (pe_wasm P) c input) of
        Ok (Output out) \<Rightarrow> Ok out
      | Ok (RefusedWith reason) \<Rightarrow> Err (Refused reason)
      | Err e \<Rightarrow> Err (Failed (plugin_error_fmt (hex_encode (pe_crates P)) e)))"

definition wasm_header_processor :: "('m, 'q, 'i) plugin_env \<Rightarrow> checksum \<Rightarrow> 'q plugin_host header_processor" where
  "wasm_header_processor P c headers h =
     (rbind (run_plugin P c (encode_headers headers) h) (\<lambda>block.
      map_err (\<lambda>e. Failed (''plugin '' @ checksum_to_hex (hex_encode (pe_crates P)) c @ '' returned headers that do not parse: ''
                @ header_block_error_fmt e)) (decode_headers (pe_http P) block)), h)"

definition wasm_body_processor :: "('m, 'q, 'i) plugin_env \<Rightarrow> checksum \<Rightarrow> 'q plugin_host body_processor" where
  "wasm_body_processor P c body h = (run_plugin P c body h, h)"

section \<open>The chains in force\<close>

datatype slot =
    SlotRequestHeader checksum plugin_order
  | SlotRequestBody checksum plugin_order
  | SlotResponseHeader checksum plugin_order
  | SlotResponseBody checksum plugin_order
  | SlotResponseChunk checksum plugin_order

record placed =
  pd_rule :: plugin_rule
  pd_slot :: slot

definition placed_new :: "plugin_rule \<Rightarrow> placed" where
  "placed_new r =
     \<lparr>pd_rule = r,
      pd_slot = (case pl_kind r of
          ReqHeader \<Rightarrow> SlotRequestHeader | ReqBody \<Rightarrow> SlotRequestBody | RespHeader \<Rightarrow> SlotResponseHeader
        | RespBody \<Rightarrow> SlotResponseBody | RespChunk \<Rightarrow> SlotResponseChunk) (pl_checksum r) (pl_order r)\<rparr>"

fun join_slot :: "('m, 'q, 'i) plugin_env \<Rightarrow> slot \<Rightarrow> 'q plugin_host processor_chain \<Rightarrow> 'q plugin_host processor_chain" where
  "join_slot P (SlotRequestHeader c n) = with_request_header (n, wasm_header_processor P c)"
| "join_slot P (SlotRequestBody c n) = with_request_body (n, wasm_body_processor P c)"
| "join_slot P (SlotResponseHeader c n) = with_response_header (n, wasm_header_processor P c)"
| "join_slot P (SlotResponseBody c n) = with_response_body (n, wasm_body_processor P c)"
| "join_slot P (SlotResponseChunk c n) = with_response_chunk (n, wasm_body_processor P c)"

record plugin_chains =
  pn_global :: "placed list"
  pn_tenants :: "(tenant_id \<times> placed list) list"

text \<open>\<open>Ord\<close> of a checksum: that of its bytes.\<close>

fun bytes_less :: "bytes \<Rightarrow> bytes \<Rightarrow> bool" where
  "bytes_less a [] = False"
| "bytes_less [] (b # bs) = True"
| "bytes_less (a # as) (b # bs) = (a < b \<or> a = b \<and> bytes_less as bs)"

fun by_plugin :: "plugin_rule \<Rightarrow> (checksum \<times> plugin_rule list) list \<Rightarrow> (checksum \<times> plugin_rule list) list" where
  "by_plugin r [] = [(pl_checksum r, [r])]"
| "by_plugin r ((c, rs) # rest) =
     (if pl_checksum r = c then (c, rs @ [r]) # rest
      else if bytes_less (checksum_bytes (pl_checksum r)) (checksum_bytes c) then (pl_checksum r, [r]) # (c, rs) # rest
      else (c, rs) # by_plugin r rest)"

definition load_failure ::
  "('m, 'q, 'i) plugin_env \<Rightarrow> (checksum \<Rightarrow> (storage_error, stored_plugin option) result) \<Rightarrow> checksum \<Rightarrow> 'q plugin_host
   \<Rightarrow> (chain_error, string option) result \<times> 'q plugin_host" where
  "load_failure P plugins c h =
     (case plugins c of
        Err e \<Rightarrow> (Err (ChainStorage e), h)
      | Ok None \<Rightarrow> (Ok (Some ''it is not in the plugin store''), h)
      | Ok (Some plugin) \<Rightarrow>
          (let (r, h) = host_load (pe_wasm P) (pe_crates P) c (sp_wasm plugin) h in
           (Ok (case r of Ok _ \<Rightarrow> None | Err e \<Rightarrow> Some (plugin_error_fmt (hex_encode (pe_crates P)) e)), h)))"

definition file_rule :: "plugin_rule \<Rightarrow> plugin_chains \<Rightarrow> plugin_chains" where
  "file_rule r ch =
     (case plugin_scope_tenant (pl_scope r) of
        Some t \<Rightarrow> ch\<lparr>pn_tenants := AList.update t (unwrap_or (map_of (pn_tenants ch) t) [] @ [placed_new r]) (pn_tenants ch)\<rparr>
      | None \<Rightarrow> ch\<lparr>pn_global := pn_global ch @ [placed_new r]\<rparr>)"

fun load_groups ::
  "('m, 'q, 'i) plugin_env \<Rightarrow> (checksum \<Rightarrow> (storage_error, stored_plugin option) result) \<Rightarrow> (checksum \<times> plugin_rule list) list
   \<Rightarrow> plugin_chains \<Rightarrow> 'q plugin_host \<Rightarrow> (chain_error, plugin_chains) result \<times> 'q plugin_host" where
  "load_groups P plugins [] ch h = (Ok ch, h)"
| "load_groups P plugins ((c, rs) # rest) ch h =
     (case load_failure P plugins c h of
        (Err e, h) \<Rightarrow> (Err e, h)
      | (Ok (Some detail), h) \<Rightarrow>
          if \<exists>r\<in>set rs. pl_scope r = Global then (Err (GlobalPlugin c detail), h) else load_groups P plugins rest ch h
      | (Ok None, h) \<Rightarrow> load_groups P plugins rest (fold file_rule rs ch) h)"

definition chains_from_rules ::
  "('m, 'q, 'i) plugin_env \<Rightarrow> (checksum \<Rightarrow> (storage_error, stored_plugin option) result) \<Rightarrow> plugin_rule list \<Rightarrow> 'q plugin_host
   \<Rightarrow> (chain_error, plugin_chains) result \<times> 'q plugin_host" where
  "chains_from_rules P plugins rules h = load_groups P plugins (fold by_plugin rules []) \<lparr>pn_global = [], pn_tenants = []\<rparr> h"

definition chains_load ::
  "('m, 'q, 'i) plugin_env \<Rightarrow> (checksum \<Rightarrow> (storage_error, stored_plugin option) result) \<Rightarrow> (storage_error, plugin_rule list) result
   \<Rightarrow> 'q plugin_host \<Rightarrow> (chain_error, plugin_chains) result \<times> 'q plugin_host" where
  "chains_load P plugins rules h =
     (case rules of Err e \<Rightarrow> (Err (ChainStorage e), h) | Ok rules \<Rightarrow> chains_from_rules P plugins rules h)"

definition chains_len :: "plugin_chains \<Rightarrow> nat" where
  "chains_len ch = length (pn_global ch) + sum_list (map (\<lambda>(t, ps). length ps) (pn_tenants ch))"

definition chains_for ::
  "('m, 'q, 'i) plugin_env \<Rightarrow> plugin_chains \<Rightarrow> caller \<Rightarrow> api_id \<Rightarrow> 'q plugin_host processor_chain" where
  "chains_for P ch who api =
     fold (\<lambda>p. join_slot P (pd_slot p))
       (filter (\<lambda>p. applies_to (pd_rule p) (c_tenant who) (c_user who) api)
          (pn_global ch @ unwrap_or (map_of (pn_tenants ch) (c_tenant who)) []))
       chain_new"

section \<open>Header blocks round trip\<close>

text \<open>A header the \<open>http\<close> package takes as it stands, with a value no blank of which is at an end.\<close>

definition header_ok :: "http_crates \<Rightarrow> string \<times> bytes \<Rightarrow> bool" where
  "header_ok X e =
     (case e of (name, v) \<Rightarrow>
        name_from_bytes X (as_bytes name) = Some name \<and> value_from_bytes X v = Some v
        \<and> LF \<notin> set (as_bytes name) \<and> 58 \<notin> set (as_bytes name) \<and> trim_ascii (as_bytes name) = as_bytes name
        \<and> LF \<notin> set v \<and> trim_ascii v = v)"

lemma split_by_line: "\<forall>x\<in>set a. \<not> P x \<Longrightarrow> P s \<Longrightarrow> split_by P (a @ s # b) = a # split_by P b"
  by (induction a) (auto split: list.split)

lemma header_line_encoded:
  assumes "header_ok X (name, v)"
  shows "header_line X k (as_bytes name @ as_bytes '': '' @ v @ [CR]) = Ok (Some (name, v))"
proof -
  let ?line = "as_bytes name @ 58 # 32 # v"
  have colon: "as_bytes '': '' = [58, 32]" by (simp add: as_bytes_def code_def)
  have "split_once ?line 58 = Some (as_bytes name, 32 # v)"
    using assms by (simp add: split_once_Some_iff header_ok_def)
  moreover have "trim_ascii (32 # v) = trim_ascii v" by (simp add: trim_ascii_def ascii_space_def)
  moreover have "strip_suffix (?line @ [CR]) [CR] = Some ?line" by (simp add: strip_suffix_def)
  ultimately show ?thesis
    using assms by (simp add: header_line_def colon header_ok_def)
qed

lemma decode_lines_encoded:
  "\<forall>e\<in>set h. header_ok X e \<Longrightarrow> decode_lines X k (split_by (\<lambda>b. b = LF) (encode_headers h)) acc = Ok (acc @ h)"
proof (induction h arbitrary: k acc)
  case Nil
  then show ?case by (simp add: encode_headers_def header_line_def strip_suffix_def)
next
  case (Cons e h)
  obtain name v where e: "e = (name, v)" by (cases e)
  then have ok: "header_ok X (name, v)" using Cons.prems by simp
  let ?l = "as_bytes name @ as_bytes '': '' @ v @ [CR]"
  have "encode_headers (e # h) = ?l @ LF # encode_headers h"
    by (simp add: encode_headers_def e)
  moreover have "split_by (\<lambda>b. b = LF) (?l @ LF # encode_headers h) = ?l # split_by (\<lambda>b. b = LF) (encode_headers h)"
    using ok by (intro split_by_line) (auto simp: header_ok_def as_bytes_def code_def LF_def CR_def)
  ultimately have "split_by (\<lambda>b. b = LF) (encode_headers (e # h)) = ?l # split_by (\<lambda>b. b = LF) (encode_headers h)"
    by simp
  then show ?case
    using Cons header_line_encoded [OF ok] by (simp add: e)
qed

section \<open>The order of a chain\<close>

definition falling :: "plugin_rule \<Rightarrow> int" where
  "falling r = - int (unat (order_get (pl_order r)))"

lemma sort_key_again: "sort_key f (sort_key f xs @ [x]) = sort_key f (xs @ [x])"
proof -
  have "filter (\<lambda>y. f k = f y) (sort_key f ys) = filter (\<lambda>y. f k = f y) ys" for k ys
    using sort_key_stable [of f "f k" ys] by (simp add: eq_commute)
  then show ?thesis by (intro properties_for_sort_key) simp_all
qed

lemma sort_key_map: "sort_key f (map g xs) = map g (sort_key (f \<circ> g) xs)"
proof -
  have "insort_key f (g x) (map g ys) = map g (insort_key (f \<circ> g) x ys)" for x ys
    by (induction ys) simp_all
  then show ?thesis by (induction xs) simp_all
qed

text \<open>What one of a request's chains is: the rules of its kind, highest order first.\<close>

definition in_order :: "plugin_kind \<Rightarrow> (checksum \<Rightarrow> 'a) \<Rightarrow> plugin_rule list \<Rightarrow> (plugin_order \<times> 'a) list" where
  "in_order k f rs = map (\<lambda>r. (pl_order r, f (pl_checksum r))) (sort_key falling (filter (\<lambda>r. pl_kind r = k) rs))"

lemma insert_in_order:
  assumes "pl_kind r = k"
  shows "insert_ordered (in_order k f rs) (pl_order r, f (pl_checksum r)) = in_order k f (rs @ [r])"
proof -
  let ?g = "\<lambda>r. (pl_order r, f (pl_checksum r))"
  have key: "(\<lambda>(n, f). - int (unat (order_get n))) \<circ> ?g = falling"
    by (simp add: fun_eq_iff falling_def)
  have "insert_ordered (in_order k f rs) (?g r) = sort_key (\<lambda>(n, f). - int (unat (order_get n))) (map ?g (sort_key falling (filter (\<lambda>r. pl_kind r = k) rs) @ [r]))"
    by (simp add: insert_ordered_def in_order_def)
  also have "\<dots> = map ?g (sort_key falling (filter (\<lambda>r. pl_kind r = k) rs @ [r]))"
    by (simp only: sort_key_map key sort_key_again)
  finally show ?thesis using assms by (simp add: in_order_def)
qed

lemma in_order_other: "pl_kind r \<noteq> k \<Longrightarrow> in_order k f (rs @ [r]) = in_order k f rs"
  by (simp add: in_order_def)

lemma joined_chain:
  "fold (\<lambda>p. join_slot P (pd_slot p)) (map placed_new rs) chain_new =
     \<lparr>pc_request_headers = in_order ReqHeader (wasm_header_processor P) rs, pc_request_body = in_order ReqBody (wasm_body_processor P) rs,
      pc_response_headers = in_order RespHeader (wasm_header_processor P) rs, pc_response_body = in_order RespBody (wasm_body_processor P) rs,
      pc_response_chunk = in_order RespChunk (wasm_body_processor P) rs\<rparr>"
proof (induction rs rule: rev_induct)
  case Nil
  then show ?case by (simp add: chain_new_def in_order_def)
next
  case (snoc r rs)
  show ?case
    using snoc by (cases "pl_kind r") (simp_all add: placed_new_def in_order_other insert_in_order with_request_header_def
        with_request_body_def with_response_header_def with_response_body_def with_response_chunk_def)
qed

section \<open>Which rules are in force\<close>

text \<open>The rules a tenant's requests are looked up in.\<close>

definition rules_of :: "plugin_chains \<Rightarrow> tenant_id \<Rightarrow> plugin_rule list" where
  "rules_of ch t = map pd_rule (pn_global ch @ unwrap_or (map_of (pn_tenants ch) t) [])"

definition chains_ok :: "plugin_chains \<Rightarrow> bool" where
  "chains_ok ch = (\<forall>t. pn_global ch @ unwrap_or (map_of (pn_tenants ch) t) [] = map placed_new (rules_of ch t))"

lemma chains_for_in_order:
  assumes "chains_ok ch"
  shows "chains_for P ch who api =
    (let rs = filter (\<lambda>r. applies_to r (c_tenant who) (c_user who) api) (rules_of ch (c_tenant who)) in
     \<lparr>pc_request_headers = in_order ReqHeader (wasm_header_processor P) rs, pc_request_body = in_order ReqBody (wasm_body_processor P) rs,
      pc_response_headers = in_order RespHeader (wasm_header_processor P) rs, pc_response_body = in_order RespBody (wasm_body_processor P) rs,
      pc_response_chunk = in_order RespChunk (wasm_body_processor P) rs\<rparr>)"
proof -
  have "pd_rule (placed_new r) = r" for r by (simp add: placed_new_def)
  then have "filter (\<lambda>p. applies_to (pd_rule p) (c_tenant who) (c_user who) api) (map placed_new rs) =
      map placed_new (filter (\<lambda>r. applies_to r (c_tenant who) (c_user who) api) rs)" for rs
    by (simp add: filter_map comp_def)
  then show ?thesis
    using assms by (simp add: chains_for_def chains_ok_def joined_chain Let_def del: map_append)
qed

text \<open>Where a rule's scope puts it.\<close>

definition visible :: "tenant_id \<Rightarrow> plugin_rule \<Rightarrow> bool" where
  "visible t r = (plugin_scope_tenant (pl_scope r) = None \<or> plugin_scope_tenant (pl_scope r) = Some t)"

lemma applies_visible: "applies_to r t u a \<Longrightarrow> visible t r"
  by (cases "pl_scope r") (simp_all add: applies_to_def visible_def)

lemma file_rule_rules:
  "set (rules_of (file_rule r ch) t) = set (rules_of ch t) \<union> (if visible t r then {r} else {})"
  by (auto simp: rules_of_def file_rule_def visible_def placed_new_def update_conv' split: option.splits)

lemma file_rule_ok: "chains_ok ch \<Longrightarrow> chains_ok (file_rule r ch)"
  by (auto simp: chains_ok_def rules_of_def file_rule_def placed_new_def update_conv' split: option.splits)

text \<open>The rules of a list, filed by checksum.\<close>

lemma bytes_less_irrefl [simp]: "\<not> bytes_less a a"
  by (induction a) auto

lemma bytes_less_trans: "bytes_less a b \<Longrightarrow> bytes_less b c \<Longrightarrow> bytes_less a c"
proof (induction a b arbitrary: c rule: bytes_less.induct)
  case (2 b bs)
  then show ?case by (cases c) simp_all
next
  case (3 a as b bs)
  then show ?case by (cases c) auto
qed simp

lemma bytes_less_total: "a = b \<or> bytes_less a b \<or> bytes_less b a"
proof (induction a b rule: bytes_less.induct)
  case (1 a)
  then show ?case by (cases a) simp_all
qed auto

definition rising :: "(checksum \<times> plugin_rule list) list \<Rightarrow> bool" where
  "rising gs = sorted_wrt (\<lambda>(a, _) (b, _). bytes_less (checksum_bytes a) (checksum_bytes b)) gs"

lemma by_plugin_keys: "fst ` set (by_plugin r gs) = insert (pl_checksum r) (fst ` set gs)"
  by (induction r gs rule: by_plugin.induct) auto

lemma by_plugin_rising: "rising gs \<Longrightarrow> rising (by_plugin r gs)"
proof (induction r gs rule: by_plugin.induct)
  case (2 r c rs rest)
  let ?less = "\<lambda>a b. bytes_less (checksum_bytes a) (checksum_bytes b)"
  have rest: "rising rest" and above: "\<forall>d\<in>fst ` set rest. ?less c d"
    using 2(2) by (auto simp: rising_def)
  show ?case
  proof (cases "pl_checksum r = c \<or> ?less (pl_checksum r) c")
    case True
    then show ?thesis
      using rest above 2(2) by (auto simp: rising_def intro: bytes_less_trans)
  next
    case False
    then have "?less c (pl_checksum r)"
      using bytes_less_total [of "checksum_bytes c" "checksum_bytes (pl_checksum r)"] by (auto simp: checksum.expand)
    then have "\<forall>d\<in>fst ` set (by_plugin r rest). ?less c d"
      using above by (simp add: by_plugin_keys)
    then show ?thesis
      using False 2(1) rest by (auto simp: rising_def)
  qed
qed (simp add: rising_def)

definition filed :: "(checksum \<times> plugin_rule list) list \<Rightarrow> plugin_rule set" where
  "filed gs = {r. \<exists>rs. (pl_checksum r, rs) \<in> set gs \<and> r \<in> set rs}"

definition sorted_out :: "(checksum \<times> plugin_rule list) list \<Rightarrow> bool" where
  "sorted_out gs = (rising gs \<and> (\<forall>(c, rs)\<in>set gs. \<forall>r\<in>set rs. pl_checksum r = c))"

lemma filed_simps [simp]: "filed [] = {}" "filed ((c, rs) # gs) = {r\<in>set rs. pl_checksum r = c} \<union> filed gs"
  by (auto simp: filed_def)

lemma by_plugin_filed: "filed (by_plugin r gs) = insert r (filed gs)"
  by (induction r gs rule: by_plugin.induct) auto

lemma by_plugin_sorted_out: "sorted_out gs \<Longrightarrow> sorted_out (by_plugin r gs)"
proof -
  have "\<forall>(c, rs)\<in>set gs. \<forall>r\<in>set rs. pl_checksum r = c \<Longrightarrow> \<forall>(c, rs)\<in>set (by_plugin r gs). \<forall>r\<in>set rs. pl_checksum r = c"
    by (induction r gs rule: by_plugin.induct) auto
  then show "sorted_out gs \<Longrightarrow> sorted_out (by_plugin r gs)"
    by (simp add: sorted_out_def by_plugin_rising)
qed

lemma grouped_rules: "sorted_out (fold by_plugin rules [])" "filed (fold by_plugin rules []) = set rules"
proof -
  have "sorted_out gs \<Longrightarrow> sorted_out (fold by_plugin rules gs)" "filed (fold by_plugin rules gs) = set rules \<union> filed gs" for gs
    by (induction rules arbitrary: gs) (auto simp: by_plugin_sorted_out by_plugin_filed)
  from this [of "[]"] show "sorted_out (fold by_plugin rules [])" "filed (fold by_plugin rules []) = set rules"
    by (simp_all add: sorted_out_def rising_def)
qed

section \<open>What is loaded\<close>

lemma host_load_loads:
  assumes "host_load W C c wasm h = (r, h')"
  shows "is_loaded h' d = (if d = c then r = Ok () else is_loaded h d)"
  using assms by (auto simp: host_load_def is_loaded_def update_conv' split: if_splits sum.splits)

lemma load_failure_loads:
  assumes "load_failure P plugins c h = (Ok why, h')"
  shows "why = None \<longleftrightarrow> (\<exists>p. plugins c = Ok (Some p)) \<and> is_loaded h' c" "d \<noteq> c \<Longrightarrow> is_loaded h' d = is_loaded h d"
  using assms
  by (auto simp: load_failure_def dest: host_load_loads [where d = c] host_load_loads [where d = d] split: sum.splits option.splits prod.splits)

definition runs :: "(checksum \<Rightarrow> (storage_error, stored_plugin option) result) \<Rightarrow> 'q plugin_host \<Rightarrow> plugin_rule \<Rightarrow> bool" where
  "runs plugins h r = ((\<exists>p. plugins (pl_checksum r) = Ok (Some p)) \<and> is_loaded h (pl_checksum r))"

lemma fold_file_rule: "set (rules_of (fold file_rule rs ch) t) = set (rules_of ch t) \<union> {r\<in>set rs. visible t r}"
  by (induction rs arbitrary: ch) (auto simp: file_rule_rules)

lemma fold_file_rule_ok: "chains_ok ch \<Longrightarrow> chains_ok (fold file_rule rs ch)"
  by (induction rs arbitrary: ch) (simp_all add: file_rule_ok)

lemma load_groups_loads:
  assumes "load_groups P plugins gs ch h = (Ok ch', h')" "d \<notin> fst ` set gs"
  shows "is_loaded h' d = is_loaded h d"
  using assms
proof (induction P plugins gs ch h rule: load_groups.induct)
  case (2 P plugins c rs rest ch h)
  then show ?case
    using load_failure_loads(2) [of P plugins c h] by (fastforce split: prod.splits sum.splits option.splits if_splits)
qed simp

lemma load_groups_files:
  assumes "load_groups P plugins gs ch h = (Ok ch', h')" "sorted_out gs" "chains_ok ch"
  shows "chains_ok ch' \<and> set (rules_of ch' t) = set (rules_of ch t) \<union> {r\<in>filed gs. runs plugins h' r \<and> visible t r}"
  using assms
proof (induction P plugins gs ch h rule: load_groups.induct)
  case (1 P plugins ch h)
  then show ?case by simp
next
  case (2 P plugins c rs rest ch h)
  obtain why h1 where lf: "load_failure P plugins c h = (Ok why, h1)"
    using 2(3) by (auto split: prod.splits sum.splits)
  have same: "pl_checksum r = c" if "r \<in> set rs" for r
    using 2(4) that by (auto simp: sorted_out_def)
  have rest: "sorted_out rest" and absent: "c \<notin> fst ` set rest"
    using 2(4) by (auto simp: sorted_out_def rising_def)
  have filed: "filed ((c, rs) # rest) = set rs \<union> filed rest"
    using same by auto
  show ?case
  proof (cases why)
    case None
    then have go: "load_groups P plugins rest (fold file_rule rs ch) h1 = (Ok ch', h')"
      using 2(3) lf by simp
    have "is_loaded h' c" "\<exists>p. plugins c = Ok (Some p)"
      using load_groups_loads [OF go absent] load_failure_loads(1) [OF lf] None by simp_all
    then have "runs plugins h' r" if "r \<in> set rs" for r
      using same [OF that] by (simp add: runs_def)
    then show ?thesis
      using 2(1) [OF lf [symmetric] refl None go rest] 2(5) fold_file_rule_ok [of ch rs] fold_file_rule [of rs ch t] filed by auto
  next
    case (Some detail)
    then have go: "load_groups P plugins rest ch h1 = (Ok ch', h')" and local: "\<not> (\<exists>r\<in>set rs. pl_scope r = Global)"
      using 2(3) lf by (auto split: if_splits)
    have "\<not> runs plugins h' r" if "r \<in> set rs" for r
      using load_groups_loads [OF go absent] load_failure_loads(1) [OF lf] Some same [OF that] by (auto simp: runs_def)
    then show ?thesis
      using 2(2) [OF lf [symmetric] refl Some local go rest 2(5)] filed by auto
  qed
qed

text \<open>What has happened to a host: modules loaded and dropped.\<close>

datatype host_op = HostLoad checksum bytes | HostUnload checksum

fun run_host_op :: "('m, 'q, 'i) wasmtime \<Rightarrow> crates \<Rightarrow> host_op \<Rightarrow> 'q plugin_host \<Rightarrow> 'q plugin_host" where
  "run_host_op W C (HostLoad c wasm) h = snd (host_load W C c wasm h)"
| "run_host_op W C (HostUnload c) h = snd (host_unload c h)"

definition vetted :: "('m, 'q, 'i) wasmtime \<Rightarrow> crates \<Rightarrow> checksum \<Rightarrow> bytes \<Rightarrow> bool" where
  "vetted W C c wasm =
     (checksum_matches (sha256 C) c wasm
      \<and> (\<exists>m. from_binary W wasm = Ok m \<and> set (module_imports W m) \<subseteq> {(HOST_MODULE, LOG)} \<and> check_exports c (module_exports W m) = Ok ()))"

lemma check_imports_Ok: "check_imports c is = Ok () \<Longrightarrow> set is \<subseteq> {(HOST_MODULE, LOG)}"
  by (induction c "is" rule: check_imports.induct) (auto split: if_splits)

lemma host_load_vets: "is_loaded (snd (host_load W C c wasm h)) d \<Longrightarrow> is_loaded h d \<or> d = c \<and> vetted W C c wasm"
  using check_imports_Ok
  by (fastforce simp: host_load_def is_loaded_def vetted_def update_conv' rust_std split: if_splits sum.splits)

lemma host_vetted:
  assumes "is_loaded (fold (run_host_op W C) ops (host_new l)) c"
  shows "\<exists>wasm. HostLoad c wasm \<in> set ops \<and> vetted W C c wasm"
  using assms
proof (induction ops rule: rev_induct)
  case Nil
  then show ?case by (simp add: is_loaded_def host_new_def)
next
  case (snoc op ops)
  show ?case
  proof (cases op)
    case (HostLoad d wasm)
    then show ?thesis
      using snoc host_load_vets [of W C d wasm "fold (run_host_op W C) ops (host_new l)" c] by auto
  next
    case (HostUnload d)
    then show ?thesis
      using snoc by (auto simp: host_unload_def is_loaded_def delete_conv' split: if_splits)
  qed
qed

section \<open>A concrete plugin\<close>

text \<open>An engine whose every module hands its input back; an instance is the bytes written to it.\<close>

definition sample_wasm :: "(bytes, bytes, bytes) wasmtime" where
  "sample_wasm =
     \<lparr>from_binary = Ok, module_imports = \<lambda>_. [(HOST_MODULE, LOG)],
      module_exports = \<lambda>_. [(MEMORY, ExternMemory), (ALLOC, ExternFunc [''i32''] [''i32'']), (DEALLOC, ExternFunc [''i32'', ''i32''] []),
        (TRANSFORM, ExternFunc [''i32'', ''i32''] [''i64''])],
      instantiate_pre = Ok, set_fuel = \<lambda>_. Ok (), start_instance = \<lambda>q l. Ok [], get_memory = \<lambda>i n. True, get_typed_func = \<lambda>i n. Ok (),
      memory_read = \<lambda>i ptr len. if ptr + len \<le> length i then Some (take len (drop ptr i)) else None,
      memory_write = \<lambda>i offset b. Some b, call_alloc = \<lambda>i len. Ok (0, i), call_dealloc = \<lambda>i ptr len. Ok i,
      call_transform = \<lambda>i ptr len. Ok (1, i)\<rparr>"

definition sample_names :: http_crates where
  "sample_names =
     \<lparr>value_to_str = \<lambda>_. None, name_from_bytes = \<lambda>b. if b = as_bytes ''accept'' then Some ''accept'' else None, value_from_bytes = Some, scheme_try_from = Some, authority_try_from = Some,
      uri_build = \<lambda>s a p. Err [], parse_http_date = \<lambda>_. None\<rparr>"

definition sample_plugins :: "(bytes, bytes, bytes) plugin_env" where
  "sample_plugins = \<lparr>pe_wasm = sample_wasm, pe_crates = sample_crates, pe_http = sample_names\<rparr>"

definition sample_checksum :: checksum where
  "sample_checksum = checksum_of (sha256 sample_crates) []"

definition sample_stored :: stored_plugin where
  "sample_stored =
     \<lparr>sp_record = \<lparr>plr_row_id = 1, plr_checksum = sample_checksum, plr_kind = ReqHeader, plr_size = 0, plr_created = Timestamp 1\<rparr>, sp_wasm = []\<rparr>"

definition sample_global :: plugin_rule where
  "sample_global = \<lparr>pl_checksum = sample_checksum, pl_kind = ReqHeader, pl_order = PluginOrder 1, pl_scope = Global\<rparr>"

definition sample_caller :: caller where
  "sample_caller = \<lparr>c_user = UserId ''m'', c_tenant = TenantId ''a'', c_role = Member\<rparr>"

lemma sample_exports: "check_exports c (module_exports sample_wasm m) = Ok ()"
  by (simp add: check_exports_def check_export_def sample_wasm_def MEMORY_def ALLOC_def DEALLOC_def TRANSFORM_def)

lemma sample_loads:
  "host_load sample_wasm sample_crates sample_checksum [] (host_new default_limits) =
     (Ok (), (host_new default_limits)\<lparr>ph_modules := [(sample_checksum, [])]\<rparr>)"
  using sample_exports [of sample_checksum "[]"]
  by (simp add: host_load_def is_loaded_def host_new_def checksum_matches_def sample_checksum_def) (simp add: sample_wasm_def)

lemma sample_built:
  obtains ch h' where "chains_from_rules sample_plugins (\<lambda>_. Ok (Some sample_stored)) [sample_global] (host_new default_limits) = (Ok ch, h')"
    "is_loaded h' (pl_checksum sample_global)"
proof -
  have "\<exists>ch. chains_from_rules sample_plugins (\<lambda>_. Ok (Some sample_stored)) [sample_global] (host_new default_limits) =
      (Ok ch, (host_new default_limits)\<lparr>ph_modules := [(sample_checksum, [])]\<rparr>)"
    using sample_loads by (simp add: chains_from_rules_def load_failure_def sample_plugins_def sample_stored_def sample_global_def)
  then show thesis
    using that by (auto simp: is_loaded_def sample_global_def)
qed

section \<open>Properties\<close>





text \<open>
  C40: a header plugin that changes nothing changes nothing: the headers read back from the block they
  are written as, each name with its values in their order.
\<close>

theorem header_block_roundtrip:
  assumes "\<forall>e\<in>set h. header_ok X e"
  shows "decode_headers X (encode_headers h) = Ok h"
  using decode_lines_encoded [OF assms, of 1 "[]"] by (simp add: decode_headers_def)

theorem header_block_roundtrip_witness:
  "decode_headers sample_names (encode_headers [(''accept'', [97]), (''accept'', [98])]) = Ok [(''accept'', [97]), (''accept'', [98])]"
proof -
  have "\<forall>e\<in>set [(''accept'', [97 :: byte]), (''accept'', [98])]. header_ok sample_names e"
    by (simp add: header_ok_def sample_names_def as_bytes_def code_def LF_def trim_ascii_def ascii_space_def)
  then show ?thesis by (rule header_block_roundtrip)
qed

end
