(* ===== verification/Spec2Isabelle.thy ===== *)
theory Spec2Isabelle
  imports Capabilities Sled_Races Sessions Rules_Spec Gateway Plugins
begin

text \<open>
  A verification development for the gateway \<open>intelli-prism\<close>.
\<close>

end
